(* ===== verification/Xv6_Prelude.thy ===== *)
theory Xv6_Prelude
  imports Main "HOL-Library.Word"
begin

unbundle bit_operations_syntax

section \<open>Shared types, results and lemmas\<close>

text \<open>
  The vocabulary of the whole development: names for the C integer types, the result type
  of kernel code that may panic or never return, and the lemmas on lists, folds, indices
  and words that the component theories share.

  A C \<open>int\<close> is a \<open>cint\<close>: a 32-bit word read with \<open>sint\<close> where the source compares or
  divides it, so that every conversion between \<open>int\<close> and \<open>uint\<close> of the source is the
  identity on the representation. Addition and subtraction wrap.
\<close>

type_synonym uchar = "8 word"
type_synonym ushort = "16 word"
type_synonym uint = "32 word"
type_synonym cint = "32 word"
type_synonym uint64 = "64 word"

named_theorems xv6_simps \<open>equations that unfold the model's small definitions\<close>
named_theorems xv6_intros \<open>introduction rules for the model's invariants\<close>

subsection \<open>Results of kernel code\<close>

text \<open>
  \<open>Ok\<close> is a normal return. \<open>Panic m\<close> is a call of \<^verbatim>\<open>panic(m)\<close> in kernel/printf.c, which never
  returns. \<open>Hang\<close> is a loop that never ends: spinning on a lock nobody will release, or
  running through a circular list that has no end.
\<close>

datatype 'a kres = Ok 'a | Panic string | Hang

fun kbind :: "'a kres \<Rightarrow> ('a \<Rightarrow> 'b kres) \<Rightarrow> 'b kres" where
  "kbind (Ok x) f = f x"
| "kbind (Panic m) f = Panic m"
| "kbind Hang f = Hang"

lemma kbind_eq_Ok [simp]: "kbind r f = Ok y \<longleftrightarrow> (\<exists>x. r = Ok x \<and> f x = Ok y)"
  by (cases r) auto

lemma kbind_Ok_right [simp]: "kbind r Ok = r"
  by (cases r) auto

lemma kbind_assoc: "kbind (kbind r f) g = kbind r (\<lambda>x. kbind (f x) g)"
  by (cases r) auto

lemma kbind_cong [fundef_cong]:
  "r = r' \<Longrightarrow> (\<And>x. r' = Ok x \<Longrightarrow> f x = g x) \<Longrightarrow> kbind r f = kbind r' g"
  by (cases r') auto

subsection \<open>Operations on a state\<close>

text \<open>
  An operation takes the kernel state and returns a value and the new state. \<open>kseq m f\<close> runs
  \<open>m\<close> and then \<open>f\<close> on its value, as a semicolon in the source; \<open>kget\<close> reads, \<open>kmod\<close> updates.
\<close>

type_synonym ('s, 'a) kop = "'s \<Rightarrow> ('a \<times> 's) kres"

definition kret :: "'a \<Rightarrow> ('s, 'a) kop" where
  "kret x s = Ok (x, s)"

definition kseq :: "('s, 'a) kop \<Rightarrow> ('a \<Rightarrow> ('s, 'b) kop) \<Rightarrow> ('s, 'b) kop" where
  "kseq m f s = kbind (m s) (\<lambda>(x, t). f x t)"

definition kpanic :: "string \<Rightarrow> ('s, 'a) kop" where
  "kpanic msg s = Panic msg"

definition kget :: "('s \<Rightarrow> 'a) \<Rightarrow> ('s, 'a) kop" where
  "kget f s = Ok (f s, s)"

definition kmod :: "('s \<Rightarrow> 's) \<Rightarrow> ('s, unit) kop" where
  "kmod f s = Ok ((), f s)"

definition kwhen :: "bool \<Rightarrow> ('s, unit) kop \<Rightarrow> ('s, unit) kop" where
  "kwhen b m = (if b then m else kret ())"

lemma kret_eq [simp]: "kret x s = Ok (y, t) \<longleftrightarrow> y = x \<and> t = s"
  by (auto simp: kret_def)

lemma kget_eq [simp]: "kget f s = Ok (y, t) \<longleftrightarrow> y = f s \<and> t = s"
  by (auto simp: kget_def)

lemma kmod_eq [simp]: "kmod f s = Ok (y, t) \<longleftrightarrow> t = f s"
  by (auto simp: kmod_def)

lemma kpanic_eq [simp]: "kpanic msg s \<noteq> Ok r"
  by (simp add: kpanic_def)

lemma kseq_Ok: "m s = Ok (x, t) \<Longrightarrow> kseq m f s = f x t"
  by (simp add: kseq_def)

lemma kseq_kget [simp]: "kseq (kget f) g s = g (f s) s"
  by (simp add: kseq_def kget_def)

lemma kseq_kmod [simp]: "kseq (kmod f) g s = g () (f s)"
  by (simp add: kseq_def kmod_def)

lemma kseq_kret [simp]: "kseq (kret x) g s = g x s"
  by (simp add: kseq_def kret_def)

lemma kseq_eq_Ok [simp]: "kseq m f s = Ok r \<longleftrightarrow> (\<exists>x t. m s = Ok (x, t) \<and> f x t = Ok r)"
  by (cases "m s") (auto simp: kseq_def)

lemma kseq_assoc: "kseq (kseq m f) g s = kseq m (\<lambda>x. kseq (f x) g) s"
  by (cases "m s") (auto simp: kseq_def)

lemma kseq_cong [fundef_cong]:
  "m s = m' s' \<Longrightarrow> (\<And>x t. m' s' = Ok (x, t) \<Longrightarrow> f x t = f' x t) \<Longrightarrow> kseq m f s = kseq m' f' s'"
  by (cases "m' s'") (auto simp: kseq_def)

text \<open>A loop over an index range whose body does not leave it early.\<close>

fun kforeach :: "('i \<Rightarrow> ('s, unit) kop) \<Rightarrow> 'i list \<Rightarrow> ('s, unit) kop" where
  "kforeach f [] s = Ok ((), s)"
| "kforeach f (i # is) s = kseq (f i) (\<lambda>_. kforeach f is) s"

lemma kforeach_append: "kforeach f (is @ js) s = kseq (kforeach f is) (\<lambda>_. kforeach f js) s"
  by (induction "is" arbitrary: s) (simp_all add: kseq_def kbind_assoc split_def)

subsection \<open>Loops over an index range that stop at a panic\<close>

fun kfold :: "('i \<Rightarrow> 's \<Rightarrow> 's kres) \<Rightarrow> 'i list \<Rightarrow> 's \<Rightarrow> 's kres" where
  "kfold f [] s = Ok s"
| "kfold f (i # is) s = kbind (f i s) (kfold f is)"

lemma kfold_append: "kfold f (is @ js) s = kbind (kfold f is s) (kfold f js)"
  by (induction "is" arbitrary: s) (auto simp: kbind_assoc intro: kbind_cong)

text \<open>An invariant indexed by the part of the range already visited.\<close>

lemma kfold_invariant:
  assumes "P [] s"
    and "\<And>done i rest s. is = done @ i # rest \<Longrightarrow> P done s \<Longrightarrow>
           \<exists>s'. f i s = Ok s' \<and> P (done @ [i]) s'"
  shows "\<exists>s'. kfold f is s = Ok s' \<and> P is s'"
  using assms
proof (induction "is" arbitrary: s rule: rev_induct)
  case Nil
  then show ?case by simp
next
  case (snoc i js)
  have "\<exists>s'. kfold f js s = Ok s' \<and> P js s'"
  proof (rule snoc.IH)
    show "P [] s" by (rule snoc.prems(1))
  next
    fix "done" k rest t
    assume "js = done @ k # rest" and "P done t"
    then show "\<exists>s'. f k t = Ok s' \<and> P (done @ [k]) s'"
      using snoc.prems(2)[of "done" k "rest @ [i]" t] by simp
  qed
  then obtain s1 where s1: "kfold f js s = Ok s1" "P js s1"
    by blast
  from snoc.prems(2)[of js i "[]" s1] s1(2) obtain s2 where "f i s1 = Ok s2" "P (js @ [i]) s2"
    by auto
  with s1(1) show ?case by (simp add: kfold_append)
qed

text \<open>The same for a loop that cannot fail.\<close>

lemma fold_invariant_prefix:
  assumes "P [] s"
    and "\<And>done i rest s. is = done @ i # rest \<Longrightarrow> P done s \<Longrightarrow> P (done @ [i]) (f i s)"
  shows "P is (fold f is s)"
  using assms
proof (induction "is" arbitrary: s rule: rev_induct)
  case Nil
  then show ?case by simp
next
  case (snoc i js)
  have "P js (fold f js s)"
  proof (rule snoc.IH)
    show "P [] s" by (rule snoc.prems(1))
  next
    fix "done" k rest t
    assume "js = done @ k # rest" and "P done t"
    then show "P (done @ [k]) (f k t)"
      using snoc.prems(2)[of "done" k "rest @ [i]" t] by simp
  qed
  then show ?case
    using snoc.prems(2)[of js i "[]"] by simp
qed

lemma upt_eq_append_Cons:
  assumes "[0..<n] = xs @ i # ys"
  shows "xs = [0..<i]" and "i < n" and "ys = [Suc i..<n]"
proof -
  have len: "length xs < n"
    using arg_cong[OF assms, of length] by simp
  have "[0..<n] ! length xs = i"
    by (simp add: assms)
  with len have i: "i = length xs" by simp
  with len show "i < n" by simp
  show "xs = [0..<i]"
    using arg_cong[OF assms, of "take i"] i \<open>i < n\<close> by (simp add: take_upt)
  show "ys = [Suc i..<n]"
    using arg_cong[OF assms, of "drop (Suc i)"] i by simp
qed

text \<open>Index ranges of the source's arrays stay folded; witnesses unfold them explicitly.\<close>

declare upt_rec_numeral [simp del]

subsection \<open>Lists updated by index\<close>

lemma nth_list_update_if:
  "j < length xs \<Longrightarrow> xs[i := x] ! j = (if i = j then x else xs ! j)"
  by (simp add: nth_list_update)

lemma all_nth_list_update:
  assumes "\<forall>j<length xs. j \<noteq> i \<longrightarrow> P j (xs ! j)" and "i < length xs \<Longrightarrow> P i x"
  shows "\<forall>j<length xs. P j (xs[i := x] ! j)"
  using assms by (metis nth_list_update_eq nth_list_update_neq)

text \<open>Reads and writes of a circular array, seen from its head.\<close>

lemma mod_ring_inj:
  assumes "k < (n::nat)" and "j < n"
  shows "(h + k) mod n = (h + j) mod n \<longleftrightarrow> k = j"
proof -
  have one: "a = b" if "a \<le> b" "b < n" "(h + a) mod n = (h + b) mod n" for a b
  proof -
    have "n dvd (h + b) - (h + a)"
      using that(1,3) mod_eq_dvd_iff_nat[of "h + a" "h + b" n] by simp
    then show ?thesis
      using that(1,2) by (cases "a = b") (auto dest: dvd_imp_le)
  qed
  show ?thesis
    using one[of k j] one[of j k] assms by (metis nat_le_linear)
qed

lemma rotate_update:
  assumes "h < length xs" and "k < length xs"
  shows "rotate h (xs[(h + k) mod length xs := v]) = (rotate h xs)[k := v]"
proof (rule nth_equalityI)
  show "length (rotate h (xs[(h + k) mod length xs := v])) = length ((rotate h xs)[k := v])"
    by simp
next
  fix j
  assume "j < length (rotate h (xs[(h + k) mod length xs := v]))"
  then have j: "j < length xs" by simp
  have "(h + k) mod length xs = (h + j) mod length xs \<longleftrightarrow> k = j"
    by (rule mod_ring_inj) (use assms(2) j in auto)
  moreover have "(h + k) mod length xs < length xs"
    by (rule mod_less_divisor) (use j in linarith)
  ultimately show "rotate h (xs[(h + k) mod length xs := v]) ! j = (rotate h xs)[k := v] ! j"
    using assms j by (cases "k = j") (simp_all add: nth_rotate)
qed

subsection \<open>Words\<close>

lemma sint_word_of_nat: "n < 2 ^ 31 \<Longrightarrow> sint (word_of_nat n :: 32 word) = int n"
  by (simp add: signed_of_nat signed_take_bit_int_eq_self del: of_nat_Suc)

lemma unat_word_of_nat [simp]:
  "n < 2 ^ LENGTH('a) \<Longrightarrow> unat (word_of_nat n :: 'a::len word) = n"
  by (simp add: unat_of_nat)

lemma unat_lt: "unat (w :: 'a::len word) < 2 ^ LENGTH('a)"
  by (rule unsigned_less)

lemma sint_cint: "sint (x :: cint) = (if uint x < 2 ^ 31 then uint x else uint x - 2 ^ 32)"
proof -
  have "sint x = (uint x + 2 ^ 31) mod 2 ^ 32 - 2 ^ 31"
    by (simp add: sint_uint signed_take_bit_eq_take_bit_shift take_bit_eq_mod)
  moreover have "(uint x + 2 ^ 31) mod 2 ^ 32 = (if uint x < 2 ^ 31 then uint x + 2 ^ 31 else uint x - 2 ^ 31)"
    using uint_lt2p[of x] uint_ge_0[of x]
    by (cases "uint x < 2 ^ 31") (simp_all add: mod_pos_pos_trivial mod_pos_geq)
  ultimately show ?thesis by simp
qed

lemma sint_neg_unat: "sint (x :: cint) < 0 \<Longrightarrow> int (unat (- x)) = - sint x"
proof -
  assume neg: "sint x < 0"
  have u: "0 \<le> uint x" "uint x < 2 ^ 32" using uint_lt2p[of x] by auto
  from neg have "uint x \<noteq> 0" by (auto simp: sint_cint)
  with u have "uint (- x) = 2 ^ 32 - uint x"
    by (simp add: uint_word_ariths zmod_zminus1_eq_if)
  then show ?thesis using neg by (simp add: sint_cint split: if_splits)
qed

lemma sint_nonneg_unat: "0 \<le> sint (x :: cint) \<Longrightarrow> int (unat x) = sint x"
  using uint_lt2p[of x] by (simp add: sint_cint split: if_splits)

lemma cint_eq_sint: "a = b \<longleftrightarrow> sint a = sint b" for a b :: cint
proof
  assume "sint a = sint b"
  then have "uint a = uint b"
    using uint_lt2p[of a] uint_lt2p[of b] uint_ge_0[of a] uint_ge_0[of b]
    unfolding sint_cint by (simp split: if_splits del: uint_ge_0; linarith)
  then show "a = b" by (simp add: word_uint_eq_iff)
qed simp

lemma sint_word_of_int:
  "- (2 ^ 31) \<le> k \<Longrightarrow> k < 2 ^ 31 \<Longrightarrow> sint (word_of_int k :: cint) = k"
  by (simp add: signed_of_int signed_take_bit_int_eq_self)

lemma cint_of_sint: "word_of_int (sint a) = (a :: cint)"
  by (simp add: cint_eq_sint sint_word_of_int)

lemma sint_add:
  "- (2 ^ 31) \<le> sint a + sint b \<Longrightarrow> sint a + sint b < 2 ^ 31 \<Longrightarrow> sint (a + b) = sint a + sint b"
  for a b :: cint
  using sint_word_of_int[of "sint a + sint b"] cint_of_sint[of a] cint_of_sint[of b] by simp

lemma sint_diff:
  "- (2 ^ 31) \<le> sint a - sint b \<Longrightarrow> sint a - sint b < 2 ^ 31 \<Longrightarrow> sint (a - b) = sint a - sint b"
  for a b :: cint
  using sint_word_of_int[of "sint a - sint b"] cint_of_sint[of a] cint_of_sint[of b] by simp

end
