(* ===== verification/Xv6_Queue.thy ===== *)
theory Xv6_Queue
  imports Xv6_Prelude
begin

section \<open>The feedback queues (kernel/queue.c)\<close>

text \<open>
  A \<^verbatim>\<open>struct Queue\<close> is a circular array of \<^verbatim>\<open>NPROC + 1\<close> process pointers with a head index, a
  tail index and a size. The three are integers and not words: an operation moves them by one at most or resets an index at the
  end of the array, so the bounds of a C \<^verbatim>\<open>int\<close> are 2^31 calls away. A process pointer is \<open>Some i\<close> for \<^verbatim>\<open>&proc[i]\<close> and \<open>None\<close> for the
  null pointer; the kernel dereferences only non-null entries, and a null dereference is a
  page fault in kernel mode, which \<^verbatim>\<open>kerneltrap()\<close> turns into \<^verbatim>\<open>panic("kerneltrap")\<close>.

  The operations are \<open>push\<close>, \<open>pop\<close>, \<open>front\<close> and \<open>qerase\<close>. Their contract is the
  interface \<open>bounded_fifo\<close>, interpreted on them below; \<open>queue_list\<close> is the abstraction.
\<close>

abbreviation (input) NPROC :: nat where "NPROC \<equiv> 64"

record Queue =
  q_head :: int
  q_tail :: int
  q_array :: "nat option list"
  q_size :: int

definition push :: "Queue \<Rightarrow> nat option \<Rightarrow> Queue kres" where
  "push l element =
     (if q_size l = int NPROC then Panic ''Proccess limit exceeded''
      else
        let arr = (q_array l)[nat (q_tail l) := element];
            t = q_tail l + 1;
            t' = (if t = int NPROC + 1 then 0 else t)
        in Ok (l\<lparr>q_array := arr, q_tail := t', q_size := q_size l + 1\<rparr>))"

definition pop :: "Queue \<Rightarrow> Queue kres" where
  "pop l =
     (if q_size l = 0 then Panic ''Poping from empty queue''
      else
        let h = q_head l + 1;
            h' = (if h = int NPROC + 1 then 0 else h)
        in Ok (l\<lparr>q_head := h', q_size := q_size l - 1\<rparr>))"

definition front :: "Queue \<Rightarrow> nat option" where
  "front l = (if q_head l = q_tail l then None else q_array l ! nat (q_head l))"

text \<open>
  The loop of \<open>qerase\<close> runs \<^verbatim>\<open>curr\<close> from the head to the tail modulo \<^verbatim>\<open>NPROC + 1\<close> and swaps the
  entry of the wanted pid with its successor. \<open>pid_of\<close> reads the \<^verbatim>\<open>pid\<close> field of a process
  table entry. The fuel bounds the iterations: \<^verbatim>\<open>curr\<close> takes at most \<^verbatim>\<open>NPROC + 1\<close> different
  values before it repeats, so a loop still running after \<^verbatim>\<open>NPROC + 2\<close> tests of its guard never
  stops.
\<close>

fun qerase_loop ::
    "nat \<Rightarrow> (nat \<Rightarrow> cint) \<Rightarrow> cint \<Rightarrow> int \<Rightarrow> int \<Rightarrow> nat option list \<Rightarrow> nat option list kres" where
  "qerase_loop 0 pid_of pid tail cur arr = Hang"
| "qerase_loop (Suc fuel) pid_of pid tail cur arr =
     (if cur = tail then Ok arr
      else case arr ! nat cur of
        None \<Rightarrow> Panic ''kerneltrap''
      | Some p \<Rightarrow>
          let nxt = (cur + 1) mod (int NPROC + 1) in
          qerase_loop fuel pid_of pid tail nxt
            (if pid_of p = pid
             then arr[nat cur := arr ! nat nxt, nat nxt := arr ! nat cur]
             else arr))"

definition qerase :: "(nat \<Rightarrow> cint) \<Rightarrow> Queue \<Rightarrow> cint \<Rightarrow> Queue kres" where
  "qerase pid_of l pid =
     kbind (qerase_loop (NPROC + 2) pid_of pid (q_tail l) (q_head l) (q_array l))
       (\<lambda>arr.
          let t = q_tail l - 1;
              t' = (if t < 0 then int NPROC else t)
          in Ok (l\<lparr>q_array := arr, q_tail := t', q_size := q_size l - 1\<rparr>))"

subsection \<open>Abstraction and invariant\<close>

definition queue_slots :: "Queue \<Rightarrow> nat option list" where
  "queue_slots l = rotate (nat (q_head l)) (q_array l)"

definition queue_list :: "Queue \<Rightarrow> nat list" where
  "queue_list l = map the (take (nat (q_size l)) (queue_slots l))"

definition queue_inv :: "Queue \<Rightarrow> bool" where
  "queue_inv l \<longleftrightarrow>
     length (q_array l) = NPROC + 1 \<and>
     0 \<le> q_head l \<and> q_head l \<le> int NPROC \<and>
     0 \<le> q_size l \<and> q_size l \<le> int NPROC \<and>
     q_tail l = (q_head l + q_size l) mod (int NPROC + 1) \<and>
     None \<notin> set (take (nat (q_size l)) (queue_slots l))"

definition empty_queue :: Queue where
  "empty_queue = \<lparr>q_head = 0, q_tail = 0, q_array = replicate (NPROC + 1) None, q_size = 0\<rparr>"

lemma queue_inv_empty [simp, intro]: "queue_inv empty_queue"
  by (simp add: queue_inv_def empty_queue_def)

lemma queue_list_empty [simp]: "queue_list empty_queue = []"
  by (simp add: queue_list_def empty_queue_def)

lemma queue_invE:
  assumes "queue_inv l"
  obtains h n where "h \<le> NPROC" "n \<le> NPROC" "q_head l = int h" "q_size l = int n"
    "q_tail l = int ((h + n) mod (NPROC + 1))" "length (q_array l) = NPROC + 1"
    "None \<notin> set (take n (rotate h (q_array l)))"
    "queue_list l = map the (take n (rotate h (q_array l)))" "length (queue_list l) = n"
proof
  show "nat (q_head l) \<le> NPROC" "nat (q_size l) \<le> NPROC" "q_head l = int (nat (q_head l))"
    "q_size l = int (nat (q_size l))" "length (q_array l) = NPROC + 1"
    using assms by (auto simp: queue_inv_def)
  show "q_tail l = int ((nat (q_head l) + nat (q_size l)) mod (NPROC + 1))"
    using assms by (auto simp: queue_inv_def zmod_int)
  show "None \<notin> set (take (nat (q_size l)) (rotate (nat (q_head l)) (q_array l)))"
    using assms by (auto simp: queue_inv_def queue_slots_def)
  show "queue_list l = map the (take (nat (q_size l)) (rotate (nat (q_head l)) (q_array l)))"
    by (simp add: queue_list_def queue_slots_def)
  show "length (queue_list l) = nat (q_size l)"
    using assms by (auto simp: queue_list_def queue_slots_def queue_inv_def)
qed

lemma queue_invI:
  assumes "h \<le> NPROC" "n \<le> NPROC" "q_head l = int h" "q_size l = int n"
    "q_tail l = int ((h + n) mod (NPROC + 1))" "length (q_array l) = NPROC + 1"
    "None \<notin> set (take n (rotate h (q_array l)))"
  shows "queue_inv l"
  using assms by (auto simp: queue_inv_def queue_slots_def zmod_int)

lemma queue_list_nat:
  "q_head l = int h \<Longrightarrow> q_size l = int n \<Longrightarrow> queue_list l = map the (take n (rotate h (q_array l)))"
  by (simp add: queue_list_def queue_slots_def)

lemma in_set_takeD_Suc: "x \<in> set (take n xs) \<Longrightarrow> x \<in> set (take (Suc n) xs)"
  using set_take_subset_set_take[of n "Suc n" xs] by auto

lemma map_Some_the: "None \<notin> set xs \<Longrightarrow> map Some (map the xs) = xs"
  by (induction xs) auto

subsection \<open>push, pop and front refine the list operations\<close>

lemma push_full: "queue_inv l \<Longrightarrow> length (queue_list l) = NPROC \<Longrightarrow>
    push l e = Panic ''Proccess limit exceeded''"
  by (erule queue_invE) (simp add: push_def)

lemma push_ok:
  assumes inv: "queue_inv l" and room: "length (queue_list l) < NPROC"
  shows "\<exists>l'. push l (Some i) = Ok l' \<and> queue_inv l' \<and> queue_list l' = queue_list l @ [i]"
proof -
  from inv obtain h n where l: "h \<le> NPROC" "n \<le> NPROC" "q_head l = int h" "q_size l = int n"
    "q_tail l = int ((h + n) mod (NPROC + 1))" "length (q_array l) = NPROC + 1"
    "None \<notin> set (take n (rotate h (q_array l)))"
    "queue_list l = map the (take n (rotate h (q_array l)))" "length (queue_list l) = n"
    by (rule queue_invE)
  define l' where "l' = l\<lparr>q_array := (q_array l)[(h + n) mod (NPROC + 1) := Some i],
    q_tail := int ((h + Suc n) mod (NPROC + 1)), q_size := int (Suc n)\<rparr>"
  have "rotate h (q_array l') = (rotate h (q_array l))[n := Some i]"
    using rotate_update[of h "q_array l" n "Some i"] l by (simp add: l'_def)
  then have taken: "take (Suc n) (rotate h (q_array l')) = take n (rotate h (q_array l)) @ [Some i]"
    using l room by (simp add: take_Suc_conv_app_nth)
  have "queue_inv l'"
  proof (rule queue_invI)
    show "None \<notin> set (take (Suc n) (rotate h (q_array l')))"
      using l by (simp add: taken)
  qed (use l room in \<open>simp_all add: l'_def\<close>)
  moreover have "queue_list l' = map the (take (Suc n) (rotate h (q_array l')))"
    by (rule queue_list_nat) (simp_all add: l'_def l)
  moreover have "push l (Some i) = Ok l'"
  proof -
    have "(if int ((h + n) mod 65) + 1 = 65 then 0 else int ((h + n) mod 65) + 1)
        = int ((h + Suc n) mod 65)"
      by (simp add: mod_Suc)
    then show ?thesis
      using l room by (simp add: push_def l'_def Let_def)
  qed
  ultimately show ?thesis
    using l by (auto simp: taken)
qed

lemma pop_empty: "queue_inv l \<Longrightarrow> queue_list l = [] \<Longrightarrow> pop l = Panic ''Poping from empty queue''"
  by (erule queue_invE) (auto simp: pop_def)

lemma pop_ok:
  assumes inv: "queue_inv l" and ne: "queue_list l \<noteq> []"
  shows "\<exists>l'. pop l = Ok l' \<and> queue_inv l' \<and> queue_list l' = tl (queue_list l)"
proof -
  from inv obtain h n where l: "h \<le> NPROC" "n \<le> NPROC" "q_head l = int h" "q_size l = int n"
    "q_tail l = int ((h + n) mod (NPROC + 1))" "length (q_array l) = NPROC + 1"
    "None \<notin> set (take n (rotate h (q_array l)))"
    "queue_list l = map the (take n (rotate h (q_array l)))" "length (queue_list l) = n"
    by (rule queue_invE)
  with ne obtain m where n: "n = Suc m" by (cases n) auto
  define l' where "l' = l\<lparr>q_head := int (Suc h mod (NPROC + 1)), q_size := int m\<rparr>"
  have rot: "rotate (Suc h mod (NPROC + 1)) (q_array l') = rotate1 (rotate h (q_array l))"
    using rotate_conv_mod[of "Suc h" "q_array l"] l by (simp add: l'_def)
  have taken: "take m (rotate1 xs) = tl (take (Suc m) xs)" if "m < length xs" for xs :: "nat option list"
    using that by (cases xs) auto
  have "queue_inv l'"
  proof (rule queue_invI)
    show "None \<notin> set (take m (rotate (Suc h mod (NPROC + 1)) (q_array l')))"
      using l n rot by (auto simp: taken dest: list.set_sel(2)[rotated])
    show "Suc h mod (NPROC + 1) \<le> NPROC" by simp
    show "q_tail l' = int ((Suc h mod (NPROC + 1) + m) mod (NPROC + 1))"
      using l n by (simp add: l'_def mod_add_left_eq)
  qed (use l n in \<open>simp_all add: l'_def\<close>)
  moreover have "queue_list l' = map the (take m (rotate (Suc h mod (NPROC + 1)) (q_array l')))"
    by (rule queue_list_nat) (simp_all add: l'_def)
  moreover have "pop l = Ok l'"
    using l n by (auto simp: pop_def l'_def Let_def mod_Suc)
  ultimately show ?thesis
    using l n rot by (auto simp: taken map_tl)
qed

lemma front_queue_list:
  assumes inv: "queue_inv l"
  shows "front l = (case queue_list l of [] \<Rightarrow> None | i # _ \<Rightarrow> Some i)"
proof -
  from inv obtain h n where l: "h \<le> NPROC" "n \<le> NPROC" "q_head l = int h" "q_size l = int n"
    "q_tail l = int ((h + n) mod (NPROC + 1))" "length (q_array l) = NPROC + 1"
    "None \<notin> set (take n (rotate h (q_array l)))"
    "queue_list l = map the (take n (rotate h (q_array l)))" "length (queue_list l) = n"
    by (rule queue_invE)
  show ?thesis
  proof (cases n)
    case 0
    with l show ?thesis by (simp add: front_def)
  next
    case (Suc m)
    have "(h + n) mod 65 = h \<longleftrightarrow> n = 0"
      using mod_ring_inj[of n 65 0 h] l(1,2) by simp
    with Suc l have "q_head l \<noteq> q_tail l" by simp
    moreover have "rotate h (q_array l) ! 0 = q_array l ! h"
      using l by (subst nth_rotate) auto
    moreover have "rotate h (q_array l) \<noteq> []"
      using l by auto
    ultimately show ?thesis
      using l Suc by (cases "rotate h (q_array l)") (auto simp: front_def)
  qed
qed


subsection \<open>The interface of a bounded first-in first-out queue\<close>

text \<open>
  What \<open>mlfq_scheduler\<close> relies on: appending at the back, removing at the front, reading the
  front, and panics exactly when the queue is full or empty. The lemmas of the locale are
  the first-in first-out behaviour of a whole run of operations.
\<close>

fun enq_all :: "('q \<Rightarrow> 'e \<Rightarrow> 'q kres) \<Rightarrow> 'q \<Rightarrow> 'e list \<Rightarrow> 'q kres" where
  "enq_all enq q [] = Ok q"
| "enq_all enq q (e # es) = kbind (enq q e) (\<lambda>q'. enq_all enq q' es)"

fun deq_many :: "('q \<Rightarrow> 'e option) \<Rightarrow> ('q \<Rightarrow> 'q kres) \<Rightarrow> nat \<Rightarrow> 'q \<Rightarrow> ('e option list \<times> 'q) kres" where
  "deq_many peek deq 0 q = Ok ([], q)"
| "deq_many peek deq (Suc n) q =
     kbind (deq q) (\<lambda>q'. kbind (deq_many peek deq n q') (\<lambda>(es, q''). Ok (peek q # es, q'')))"

locale bounded_fifo =
  fixes enq :: "'q \<Rightarrow> 'e \<Rightarrow> 'q kres"
    and deq :: "'q \<Rightarrow> 'q kres"
    and peek :: "'q \<Rightarrow> 'e option"
    and contents :: "'q \<Rightarrow> 'e list"
    and inv :: "'q \<Rightarrow> bool"
    and cap :: nat
  assumes enq_ok: "inv q \<Longrightarrow> length (contents q) < cap \<Longrightarrow>
      \<exists>q'. enq q e = Ok q' \<and> inv q' \<and> contents q' = contents q @ [e]"
    and enq_full: "inv q \<Longrightarrow> length (contents q) = cap \<Longrightarrow> \<exists>m. enq q e = Panic m"
    and deq_ok: "inv q \<Longrightarrow> contents q \<noteq> [] \<Longrightarrow>
      \<exists>q'. deq q = Ok q' \<and> inv q' \<and> contents q' = tl (contents q)"
    and deq_empty: "inv q \<Longrightarrow> contents q = [] \<Longrightarrow> \<exists>m. deq q = Panic m"
    and peek_front: "inv q \<Longrightarrow> peek q = (case contents q of [] \<Rightarrow> None | e # _ \<Rightarrow> Some e)"
    and bounded: "inv q \<Longrightarrow> length (contents q) \<le> cap"
begin

lemma enq_all_ok:
  "inv q \<Longrightarrow> length (contents q) + length es \<le> cap \<Longrightarrow>
    \<exists>q'. enq_all enq q es = Ok q' \<and> inv q' \<and> contents q' = contents q @ es"
proof (induction es arbitrary: q)
  case Nil
  then show ?case by simp
next
  case (Cons e es)
  then obtain q1 where "enq q e = Ok q1" "inv q1" "contents q1 = contents q @ [e]"
    using enq_ok[of q e] by auto
  with Cons.IH[of q1] Cons.prems show ?case by auto
qed

lemma deq_many_ok:
  "inv q \<Longrightarrow> n \<le> length (contents q) \<Longrightarrow>
    \<exists>q'. deq_many peek deq n q = Ok (map Some (take n (contents q)), q') \<and> inv q' \<and>
      contents q' = drop n (contents q)"
proof (induction n arbitrary: q)
  case 0
  then show ?case by simp
next
  case (Suc n)
  then have ne: "contents q \<noteq> []" by auto
  then obtain q1 where q1: "deq q = Ok q1" "inv q1" "contents q1 = tl (contents q)"
    using deq_ok[of q] Suc.prems by auto
  with Suc.IH[of q1] Suc.prems(2) obtain q2 where
    "deq_many peek deq n q1 = Ok (map Some (take n (tl (contents q))), q2)"
    "inv q2" "contents q2 = drop n (tl (contents q))"
    by fastforce
  with q1 ne peek_front[OF Suc.prems(1)] show ?case
    by (cases "contents q") auto
qed

lemma fifo_order:
  assumes "inv q" and "contents q = []" and "length es \<le> cap"
  shows "\<exists>q1 q2. enq_all enq q es = Ok q1 \<and>
    deq_many peek deq (length es) q1 = Ok (map Some es, q2) \<and> inv q2 \<and> contents q2 = []"
proof -
  from assms enq_all_ok[of q es] obtain q1 where
    q1: "enq_all enq q es = Ok q1" "inv q1" "contents q1 = es"
    by auto
  with deq_many_ok[of q1 "length es"] show ?thesis by auto
qed

end

interpretation feedback: bounded_fifo "\<lambda>l i. push l (Some i)" pop front queue_list queue_inv NPROC
proof unfold_locales
  fix q e
  assume q: "queue_inv q"
  show "\<exists>m. push q (Some e) = Panic m" if "length (queue_list q) = NPROC"
    using push_full[OF q that] by blast
  show "\<exists>m. pop q = Panic m" if "queue_list q = []"
    using pop_empty[OF q that] by blast
  show "front q = (case queue_list q of [] \<Rightarrow> None | e # _ \<Rightarrow> Some e)"
    by (rule front_queue_list[OF q])
  show "length (queue_list q) \<le> NPROC"
    using q by (rule queue_invE) simp
qed (simp_all add: push_ok pop_ok)

subsection \<open>qerase removes one process and keeps the order of the others\<close>

text \<open>The loop on the slots read from the head, without the modular arithmetic.\<close>

function bubble :: "('a \<Rightarrow> bool) \<Rightarrow> nat \<Rightarrow> nat \<Rightarrow> 'a list \<Rightarrow> 'a list" where
  "bubble P k n ys =
     (if k < n then bubble P (Suc k) n (if P (ys ! k) then ys[k := ys ! Suc k, Suc k := ys ! k] else ys)
      else ys)"
  by pat_completeness auto
termination
  by (relation "measure (\<lambda>(P, k, n, ys). n - k)") auto

declare bubble.simps [simp del]

lemma length_bubble [simp]: "length (bubble P k n ys) = length ys"
  by (induction P k n ys rule: bubble.induct) (simp add: bubble.simps)

lemma bubble_absent:
  "\<forall>j. k \<le> j \<and> j < n \<longrightarrow> \<not> P (ys ! j) \<Longrightarrow> bubble P k n ys = ys"
  by (induction P k n ys rule: bubble.induct) (simp add: bubble.simps)

lemma bubble_skip:
  "k \<le> n \<Longrightarrow> \<forall>j<k. \<not> P (ys ! j) \<Longrightarrow> bubble P 0 n ys = bubble P k n ys"
proof (induction k)
  case (Suc k)
  then have "bubble P k n ys = bubble P (Suc k) n ys"
    by (simp add: bubble.simps[of P k n ys])
  with Suc show ?case by simp
qed simp

lemma swap_split:
  assumes "Suc k < length ys"
  shows "ys[k := ys ! Suc k, Suc k := ys ! k] =
    take k ys @ ys ! Suc k # ys ! k # drop (Suc (Suc k)) ys"
proof (rule nth_equalityI)
  fix i
  assume "i < length (ys[k := ys ! Suc k, Suc k := ys ! k])"
  moreover have "ys ! i = ys ! Suc (Suc (i - 2))" if "\<not> i \<le> Suc k"
    by (rule arg_cong[where f = "\<lambda>j. ys ! j"]) (use that in arith)
  ultimately show "ys[k := ys ! Suc k, Suc k := ys ! k] ! i =
      (take k ys @ ys ! Suc k # ys ! k # drop (Suc (Suc k)) ys) ! i"
    using assms by (auto simp: nth_list_update nth_append nth_Cons' less_Suc_eq)
qed (use assms in simp)

lemma bubble_carry:
  "k < n \<Longrightarrow> n < length ys \<Longrightarrow> P (ys ! k) \<Longrightarrow> \<forall>j. k < j \<and> j < n \<longrightarrow> \<not> P (ys ! j) \<Longrightarrow>
    bubble P k n ys = take k ys @ drop (Suc k) (take (Suc n) ys) @ ys ! k # drop (Suc n) ys"
proof (induction P k n ys rule: bubble.induct)
  case (1 P k n ys)
  let ?zs = "ys[k := ys ! Suc k, Suc k := ys ! k]"
  have zs: "?zs = take k ys @ ys ! Suc k # ys ! k # drop (Suc (Suc k)) ys"
    using "1.prems" by (intro swap_split) simp
  have step: "bubble P k n ys = bubble P (Suc k) n ?zs"
    using "1.prems" by (simp add: bubble.simps[of P k n ys])
  have tail: "take (n - k) (drop (Suc k) ys) = ys ! Suc k # take (n - Suc k) (drop (Suc (Suc k)) ys)"
    using "1.prems" by (simp add: take_Cons' flip: Cons_nth_drop_Suc)
  show ?case
  proof (cases "Suc k < n")
    case True
    have "bubble P (Suc k) n ?zs =
        take (Suc k) ?zs @ drop (Suc (Suc k)) (take (Suc n) ?zs) @ ?zs ! Suc k # drop (Suc n) ?zs"
    proof -
      have "(if P (ys ! k) then ?zs else ys) = ?zs"
        using "1.prems" by simp
      with "1.IH" "1.prems" True show ?thesis by simp
    qed
    also have "\<dots> = take k ys @ drop (Suc k) (take (Suc n) ys) @ ys ! k # drop (Suc n) ys"
      using "1.prems" True by (simp add: zs nth_append take_Cons' drop_Cons' drop_take tail)
    finally show ?thesis by (simp add: step)
  next
    case False
    then have n: "n = Suc k" using "1.prems" by simp
    have "bubble P (Suc k) n ?zs = ?zs"
      using n by (simp add: bubble.simps)
    with step have "bubble P k n ys = ?zs" by simp
    then show ?thesis
      using "1.prems" n tail by (simp add: zs drop_take)
  qed
qed


lemma qerase_loop_bubble:
  assumes "length arr = NPROC + 1" "h \<le> NPROC" "n \<le> NPROC" "k \<le> n" "n - k < fuel"
    and "None \<notin> set (drop k (take n (rotate h arr)))"
  shows "\<exists>arr'. qerase_loop fuel pid_of pid (int ((h + n) mod (NPROC + 1))) (int ((h + k) mod (NPROC + 1))) arr
      = Ok arr' \<and> length arr' = NPROC + 1 \<and>
      rotate h arr' = bubble (\<lambda>e. pid_of (the e) = pid) k n (rotate h arr)"
  using assms
proof (induction fuel arbitrary: k arr)
  case 0
  then show ?case by simp
next
  case (Suc fuel)
  let ?P = "\<lambda>e. pid_of (the e) = pid"
  let ?c = "(h + k) mod 65" and ?c' = "(h + Suc k) mod 65" and ?ys = "rotate h arr"
  show ?case
  proof (cases "k = n")
    case True
    then show ?thesis
      using Suc.prems by (simp add: bubble.simps)
  next
    case False
    with Suc.prems have kn: "k < n" by simp
    then have k: "k \<le> NPROC" "Suc k \<le> NPROC" using Suc.prems by auto
    have ne: "?c \<noteq> (h + n) mod 65"
      using mod_ring_inj[of k 65 n h] kn Suc.prems by simp
    have rd: "arr ! ((h + j) mod 65) = ?ys ! j" if "j \<le> NPROC" for j
      using that Suc.prems(1) by (simp add: nth_rotate)
    have wr: "rotate h (arr[(h + j) mod 65 := v]) = (rotate h arr)[j := v]"
      if "j \<le> NPROC" "length arr = 65" for j v arr
      using rotate_update[of h arr j v] that Suc.prems(2) by simp
    have "?ys ! k \<in> set (drop k (take n ?ys))"
      using kn Suc.prems by (auto simp: in_set_conv_nth intro!: exI[of _ 0])
    with Suc.prems(6) obtain p where p: "?ys ! k = Some p"
      by (cases "?ys ! k") auto
    have nxt: "(int ?c + 1) mod 65 = int ?c'"
      by (simp add: zmod_int mod_add_right_eq add.commute add.left_commute)
    define arr1 where "arr1 = (if pid_of p = pid
      then arr[?c := arr ! ?c', ?c' := arr ! ?c] else arr)"
    have len1: "length arr1 = 65"
      using Suc.prems(1) by (simp add: arr1_def)
    have rot1: "rotate h arr1 = (if ?P (?ys ! k) then ?ys[k := ?ys ! Suc k, Suc k := ?ys ! k] else ?ys)"
      using k Suc.prems(1) p by (simp add: arr1_def wr rd del: add_Suc_right)
    have step: "qerase_loop (Suc fuel) pid_of pid (int ((h + n) mod 65)) (int ?c) arr =
        qerase_loop fuel pid_of pid (int ((h + n) mod 65)) (int ?c') arr1"
      using ne nxt rd[OF k(1)] p by (simp add: arr1_def Let_def del: add_Suc_right)
    have clean: "None \<notin> set (drop (Suc k) (take n (rotate h arr1)))"
    proof
      assume "None \<in> set (drop (Suc k) (take n (rotate h arr1)))"
      then obtain i where "i < n - Suc k" "rotate h arr1 ! (Suc k + i) = None"
        using len1 Suc.prems(3) by (auto simp: in_set_conv_nth)
      then obtain j where j: "Suc k \<le> j" "j < n" "rotate h arr1 ! j = None"
        by (metis less_diff_conv add.commute le_add1)
      have "?ys ! i \<in> set (drop k (take n ?ys))" if "k \<le> i" "i < n" for i
        using that Suc.prems by (auto simp: in_set_conv_nth intro!: exI[of _ "i - k"])
      with Suc.prems(6) have "?ys ! i \<noteq> None" if "k \<le> i" "i < n" for i
        using that by metis
      moreover have "rotate h arr1 ! j = ?ys ! j \<or> rotate h arr1 ! j = ?ys ! k"
        using j(1,2) Suc.prems(1,3)
        by (cases "?P (?ys ! k)"; cases "j = Suc k") (simp_all add: rot1)
      ultimately show False
        using j kn by (metis Suc_leD order_refl)
    qed
    have "bubble ?P k n ?ys = bubble ?P (Suc k) n (rotate h arr1)"
      using kn by (simp add: bubble.simps[of _ k] rot1)
    with Suc.IH[of arr1 "Suc k"] len1 clean Suc.prems kn show ?thesis
      by (simp add: step del: qerase_loop.simps)
  qed
qed

lemma qerase_slots:
  assumes "queue_inv l" and "queue_list l \<noteq> []"
  obtains h n l' where "h \<le> NPROC" "n < NPROC" "q_head l = int h" "length (queue_list l) = Suc n"
    "queue_list l = map the (take (Suc n) (rotate h (q_array l)))"
    "None \<notin> set (take (Suc n) (rotate h (q_array l)))" "length (q_array l) = NPROC + 1"
    "qerase pid_of l pid = Ok l'" "length (q_array l') = NPROC + 1"
    "q_head l' = int h" "q_size l' = int n" "q_tail l' = int ((h + n) mod (NPROC + 1))"
    "rotate h (q_array l') = bubble (\<lambda>e. pid_of (the e) = pid) 0 (Suc n) (rotate h (q_array l))"
proof -
  from assms(1) obtain h n0 where l: "h \<le> NPROC" "n0 \<le> NPROC" "q_head l = int h" "q_size l = int n0"
    "q_tail l = int ((h + n0) mod (NPROC + 1))" "length (q_array l) = NPROC + 1"
    "None \<notin> set (take n0 (rotate h (q_array l)))"
    "queue_list l = map the (take n0 (rotate h (q_array l)))" "length (queue_list l) = n0"
    by (rule queue_invE)
  with assms(2) obtain n where n: "n0 = Suc n" by (cases n0) auto
  from qerase_loop_bubble[OF l(6,1,2), of 0 "NPROC + 2" pid_of pid] l
  obtain arr where arr: "qerase_loop (NPROC + 2) pid_of pid (q_tail l) (q_head l) (q_array l) = Ok arr"
    "length arr = NPROC + 1"
    "rotate h arr = bubble (\<lambda>e. pid_of (the e) = pid) 0 n0 (rotate h (q_array l))"
    by (auto simp del: qerase_loop.simps)
  have tl: "(if int ((h + Suc n) mod 65) - 1 < 0 then 64 else int ((h + Suc n) mod 65) - 1)
      = int ((h + n) mod 65)"
    by (simp add: mod_Suc)
  show thesis
    by (rule that[of h n "l\<lparr>q_array := arr, q_tail := int ((h + n) mod (NPROC + 1)), q_size := int n\<rparr>"])
      (use l n arr tl in \<open>auto simp: qerase_def Let_def simp del: qerase_loop.simps\<close>)
qed

text \<open>A queued process whose pid no other queued process has is erased and nothing else moves.\<close>

lemma qerase_present:
  assumes inv: "queue_inv l" and split: "queue_list l = xs @ i # ys"
    and uniq: "pid_of i = pid" "\<forall>j \<in> set xs \<union> set ys. pid_of j \<noteq> pid"
  shows "\<exists>l'. qerase pid_of l pid = Ok l' \<and> queue_inv l' \<and> queue_list l' = xs @ ys"
proof -
  from split have "queue_list l \<noteq> []" by simp
  with inv obtain h n l' where l: "h \<le> NPROC" "n < NPROC" "q_head l = int h"
    "length (queue_list l) = Suc n"
    "queue_list l = map the (take (Suc n) (rotate h (q_array l)))"
    "None \<notin> set (take (Suc n) (rotate h (q_array l)))" "length (q_array l) = NPROC + 1"
    "qerase pid_of l pid = Ok l'" "length (q_array l') = NPROC + 1"
    "q_head l' = int h" "q_size l' = int n" "q_tail l' = int ((h + n) mod (NPROC + 1))"
    "rotate h (q_array l') = bubble (\<lambda>e. pid_of (the e) = pid) 0 (Suc n) (rotate h (q_array l))"
    by (rule qerase_slots)
  let ?P = "\<lambda>e. pid_of (the e) = pid" and ?zs = "rotate h (q_array l)"
  have some: "take (Suc n) ?zs = map Some (xs @ i # ys)"
    using map_Some_the[OF l(6)] l(5) split by simp
  then obtain D where zs: "?zs = map Some xs @ Some i # map Some ys @ D"
    using append_take_drop_id[of "Suc n" ?zs] by (metis append_Cons append_assoc map_append list.simps(9))
  have len: "length xs + length ys = n"
    using l(4) split by simp
  have nth: "?zs ! j = Some ((xs @ i # ys) ! j)" if "j < Suc n" for j
    using that some l(7) by (metis length_map l(4) split nth_map nth_take)
  have before: "bubble ?P 0 (Suc n) ?zs = bubble ?P (length xs) (Suc n) ?zs"
  proof (rule bubble_skip)
    show "\<forall>j<length xs. \<not> ?P (?zs ! j)"
      using len uniq(2) by (auto simp: nth nth_append)
  qed (use len in simp)
  have "bubble ?P (length xs) (Suc n) ?zs =
      take (length xs) ?zs @ drop (Suc (length xs)) (take (Suc (Suc n)) ?zs) @
      ?zs ! length xs # drop (Suc (Suc n)) ?zs"
  proof (rule bubble_carry)
    show "\<forall>j. length xs < j \<and> j < Suc n \<longrightarrow> \<not> ?P (?zs ! j)"
      using len uniq(2) by (auto simp: nth nth_append nth_Cons')
    show "?P (?zs ! length xs)"
      using len uniq(1) by (simp add: nth nth_append)
  qed (use len l in auto)
  with before l(13) have "rotate h (q_array l') =
      map Some xs @ take (Suc (length ys)) (map Some ys @ D) @ Some i # drop (Suc (Suc n)) ?zs"
    using len unfolding zs by (simp add: drop_take nth_append)
  then have "take n (rotate h (q_array l')) = map Some (xs @ ys)"
    using len by (simp add: take_append)
  moreover from this have "None \<notin> set (take n (rotate h (q_array l')))" by auto
  ultimately show ?thesis
    using l queue_list_nat[OF l(10,11)] by (auto intro!: queue_invI[of h n])
qed


text \<open>
  Erasing a pid that is not queued drops the youngest entry: the loop swaps nothing and the
  tail still moves back.
\<close>

lemma qerase_absent:
  assumes inv: "queue_inv l" and ne: "queue_list l \<noteq> []"
    and absent: "\<forall>j \<in> set (queue_list l). pid_of j \<noteq> pid"
  shows "\<exists>l'. qerase pid_of l pid = Ok l' \<and> queue_inv l' \<and> queue_list l' = butlast (queue_list l)"
proof -
  from inv ne obtain h n l' where l: "h \<le> NPROC" "n < NPROC" "q_head l = int h"
    "length (queue_list l) = Suc n"
    "queue_list l = map the (take (Suc n) (rotate h (q_array l)))"
    "None \<notin> set (take (Suc n) (rotate h (q_array l)))" "length (q_array l) = NPROC + 1"
    "qerase pid_of l pid = Ok l'" "length (q_array l') = NPROC + 1"
    "q_head l' = int h" "q_size l' = int n" "q_tail l' = int ((h + n) mod (NPROC + 1))"
    "rotate h (q_array l') = bubble (\<lambda>e. pid_of (the e) = pid) 0 (Suc n) (rotate h (q_array l))"
    by (rule qerase_slots)
  have "pid_of (the (rotate h (q_array l) ! j)) \<noteq> pid" if "j < Suc n" for j
  proof -
    have "queue_list l ! j = the (rotate h (q_array l) ! j)"
      using that l by simp
    then show ?thesis
      using absent l(4) that nth_mem[of j "queue_list l"] by metis
  qed
  then have same: "rotate h (q_array l') = rotate h (q_array l)"
    using l(13) bubble_absent[of 0 "Suc n" "\<lambda>e. pid_of (the e) = pid" "rotate h (q_array l)"]
    by simp
  have "queue_inv l'"
    using l same by (auto intro!: queue_invI[of h n] dest: in_set_takeD_Suc)
  moreover have "queue_list l' = butlast (queue_list l)"
    using l(5,7) same queue_list_nat[OF l(10,11)] l(2)
    by (simp add: butlast_conv_take min_def take_map)
  ultimately show ?thesis using l(8) by blast
qed

subsection \<open>Properties\<close>

text \<open>
  C16. A feedback queue is first in, first out: from an empty queue, pushing any list of at most
  NPROC processes succeeds, and popping as many times returns, through \<^verbatim>\<open>front\<close> before each
  \<^verbatim>\<open>pop\<close>, exactly the pushed processes in the order of the pushes, without a panic, and leaves
  the queue empty and well formed.
\<close>

theorem queue_fifo:
  assumes "queue_inv q" and "queue_list q = []" and "length es \<le> NPROC"
  shows "\<exists>q1 q2. enq_all (\<lambda>l i. push l (Some i)) q es = Ok q1 \<and>
    deq_many front pop (length es) q1 = Ok (map Some es, q2) \<and> queue_inv q2 \<and> queue_list q2 = []"
  using assms by (rule feedback.fifo_order)

theorem queue_fifo_witness:
  "\<exists>q1 q2. enq_all (\<lambda>l i. push l (Some i)) empty_queue [3, 1, 2] = Ok q1 \<and>
    deq_many front pop 3 q1 = Ok ([Some 3, Some 1, Some 2], q2) \<and> queue_inv q2 \<and> queue_list q2 = []"
  using queue_fifo[of empty_queue "[3, 1, 2]"]
  by (simp add: numeral_3_eq_3 del: enq_all.simps deq_many.simps)

text \<open>
  C17. On a well-formed queue, \<^verbatim>\<open>qerase\<close> of a process whose pid no other entry of the queue has
  returns, removes exactly that entry, and keeps the order of all the others.
\<close>

theorem qerase_removes:
  assumes "queue_inv l" and "queue_list l = xs @ i # ys"
    and "pid_of i = pid" and "\<forall>j \<in> set xs \<union> set ys. pid_of j \<noteq> pid"
  shows "\<exists>l'. qerase pid_of l pid = Ok l' \<and> queue_inv l' \<and> queue_list l' = xs @ ys"
  using assms by (rule qerase_present)

definition example_queue :: Queue where
  "example_queue = \<lparr>q_head = 63, q_tail = 1,
     q_array = [Some 7] @ replicate 62 None @ [Some 4, Some 9], q_size = 3\<rparr>"

lemma example_queue_inv: "queue_inv example_queue" "queue_list example_queue = [4, 9, 7]"
  by code_simp+

theorem qerase_removes_witness:
  "\<exists>l'. qerase word_of_nat example_queue 9 = Ok l' \<and> queue_inv l' \<and> queue_list l' = [4, 7]"
  using qerase_removes[of example_queue "[4]" 9 "[7]" word_of_nat 9] example_queue_inv by simp

text \<open>
  C36. \<^verbatim>\<open>qerase\<close> with a pid that is not in the queue does not leave the queue alone: it removes
  the youngest entry.
\<close>

theorem qerase_absent_drops_last:
  assumes "queue_inv l" and "queue_list l \<noteq> []" and "\<forall>j \<in> set (queue_list l). pid_of j \<noteq> pid"
  shows "\<exists>l'. qerase pid_of l pid = Ok l' \<and> queue_inv l' \<and> queue_list l' = butlast (queue_list l)"
  using assms by (rule qerase_absent)

theorem qerase_absent_drops_last_witness:
  "\<exists>l'. qerase word_of_nat example_queue 5 = Ok l' \<and> queue_inv l' \<and> queue_list l' = [4, 9]"
  using qerase_absent_drops_last[of example_queue word_of_nat 5] example_queue_inv by simp

end
