(* ===== verification/Xv6_Spinlock.thy ===== *)
theory Xv6_Spinlock
  imports Xv6_Prelude
begin

section \<open>Spin locks and interrupt nesting (kernel/spinlock.c)\<close>

text \<open>
  The per-CPU state of kernel/proc.h, the matched interrupt disabling \<open>push_off\<close> and
  \<open>pop_off\<close>, and the spin lock. The sequential operations describe what one hart does on
  its own: \<open>acquire\<close> on a lock that another hart holds is \<open>Hang\<close>, since nothing
  else runs. The interleaving of several harts is the step relation \<open>lock_step\<close> below, with
  one step per load, store or swap of a field of the lock; mutual exclusion is proved for it. The other
  theories take each section between an \<open>acquire\<close> and its \<open>release\<close> as one atomic step,
  which is what mutual exclusion provides.
\<close>

subsection \<open>Per-CPU state\<close>

record kcontext =
  ctx_ra :: uint64
  ctx_sp :: uint64
  ctx_s :: "uint64 list"

text \<open>
  \<open>c_intr\<close> is the bit \<^verbatim>\<open>SSTATUS_SIE\<close> of the hart's sstatus register, which \<^verbatim>\<open>intr_on\<close>,
  \<^verbatim>\<open>intr_off\<close> and \<^verbatim>\<open>intr_get\<close> of kernel/riscv.h set, clear and read. \<open>hart\<close> is the tp register.
\<close>

record cpu =
  c_proc :: "nat option"
  c_context :: kcontext
  c_noff :: cint
  c_intena :: cint
  c_intr :: bool

record hartst =
  cpus :: "cpu list"
  hart :: nat

definition cpuid :: "'a hartst_scheme \<Rightarrow> nat" where
  "cpuid s = hart s"

definition mycpu :: "'a hartst_scheme \<Rightarrow> cpu" where
  "mycpu s = cpus s ! cpuid s"

definition upd_mycpu :: "(cpu \<Rightarrow> cpu) \<Rightarrow> 'a hartst_scheme \<Rightarrow> 'a hartst_scheme" where
  "upd_mycpu f s = s\<lparr>cpus := (cpus s)[cpuid s := f (mycpu s)]\<rparr>"

definition hart_ok :: "'a hartst_scheme \<Rightarrow> bool" where
  "hart_ok s \<longleftrightarrow> hart s < length (cpus s)"

definition intr_get :: "'a hartst_scheme \<Rightarrow> bool" where
  "intr_get s = c_intr (mycpu s)"

definition intr_on :: "'a hartst_scheme \<Rightarrow> 'a hartst_scheme" where
  "intr_on s = upd_mycpu (\<lambda>c. c\<lparr>c_intr := True\<rparr>) s"

definition intr_off :: "'a hartst_scheme \<Rightarrow> 'a hartst_scheme" where
  "intr_off s = upd_mycpu (\<lambda>c. c\<lparr>c_intr := False\<rparr>) s"

lemma hart_upd_mycpu [simp]: "hart (upd_mycpu f s) = hart s"
  by (simp add: upd_mycpu_def)

lemma length_cpus_upd_mycpu [simp]: "length (cpus (upd_mycpu f s)) = length (cpus s)"
  by (simp add: upd_mycpu_def)

lemma hart_ok_upd_mycpu [simp]: "hart_ok (upd_mycpu f s) = hart_ok s"
  by (simp add: hart_ok_def)

lemma mycpu_upd_mycpu [simp]: "hart_ok s \<Longrightarrow> mycpu (upd_mycpu f s) = f (mycpu s)"
  by (simp add: upd_mycpu_def mycpu_def cpuid_def hart_ok_def)

lemma upd_mycpu_upd_mycpu [simp]:
  "hart_ok s \<Longrightarrow> upd_mycpu g (upd_mycpu f s) = upd_mycpu (\<lambda>c. g (f c)) s"
  by (simp add: upd_mycpu_def mycpu_def cpuid_def hart_ok_def)

lemma upd_mycpu_id: "f (mycpu s) = mycpu s \<Longrightarrow> upd_mycpu f s = s"
  by (simp add: upd_mycpu_def mycpu_def)

lemma upd_mycpu_cong: "f (mycpu s) = g (mycpu s) \<Longrightarrow> upd_mycpu f s = upd_mycpu g s"
  by (simp add: upd_mycpu_def)

subsection \<open>push_off and pop_off\<close>

definition push_off :: "'a hartst_scheme \<Rightarrow> 'a hartst_scheme" where
  "push_off s =
     (let old = intr_get s;
          s1 = intr_off s;
          s2 = (if c_noff (mycpu s1) = 0
                then upd_mycpu (\<lambda>c. c\<lparr>c_intena := of_bool old\<rparr>) s1 else s1)
      in upd_mycpu (\<lambda>c. c\<lparr>c_noff := c_noff c + 1\<rparr>) s2)"

definition pop_off :: "'a hartst_scheme \<Rightarrow> 'a hartst_scheme kres" where
  "pop_off s =
     (if intr_get s then Panic ''pop_off - interruptible''
      else if sint (c_noff (mycpu s)) < 1 then Panic ''pop_off''
      else
        let s1 = upd_mycpu (\<lambda>c. c\<lparr>c_noff := c_noff c - 1\<rparr>) s
        in Ok (if c_noff (mycpu s1) = 0 \<and> c_intena (mycpu s1) \<noteq> 0 then intr_on s1 else s1))"

lemma hart_ok_push_off [simp]: "hart_ok (push_off s) = hart_ok s"
  by (simp add: push_off_def intr_off_def Let_def)

lemma push_off_eq:
  "hart_ok s \<Longrightarrow> push_off s = upd_mycpu (\<lambda>c. c\<lparr>c_intr := False, c_noff := c_noff c + 1,
      c_intena := (if c_noff c = 0 then of_bool (c_intr c) else c_intena c)\<rparr>) s"
  by (auto simp: push_off_def intr_off_def intr_get_def Let_def intro: upd_mycpu_cong)

text \<open>\<open>n\<close> nested calls, as the kernel makes them through nested lock acquisitions.\<close>

fun pop_off_n :: "nat \<Rightarrow> 'a hartst_scheme \<Rightarrow> 'a hartst_scheme kres" where
  "pop_off_n 0 s = Ok s"
| "pop_off_n (Suc n) s = kbind (pop_off s) (pop_off_n n)"

lemma push_off_n:
  assumes "hart_ok s" and "c_noff (mycpu s) = 0" and "0 < n" and "n < 2 ^ 31"
  shows "(push_off ^^ n) s = upd_mycpu (\<lambda>c. c\<lparr>c_intr := False, c_noff := word_of_nat n,
      c_intena := of_bool (c_intr c)\<rparr>) s"
  using assms(3,4)
proof (induction n)
  case 0
  then show ?case by simp
next
  case (Suc n)
  show ?case
  proof (cases "n = 0")
    case True
    then show ?thesis
      using assms(1,2) by (auto simp: push_off_eq intro: upd_mycpu_cong)
  next
    case False
    then have IH: "(push_off ^^ n) s = upd_mycpu (\<lambda>c. c\<lparr>c_intr := False, c_noff := word_of_nat n,
        c_intena := of_bool (c_intr c)\<rparr>) s"
      using Suc by simp
    have "(word_of_nat n :: cint) \<noteq> 0"
      using False Suc.prems by (auto simp: word_of_nat_eq_0_iff dest: dvd_imp_le)
    then show ?thesis
      using assms(1) IH by (simp add: push_off_eq add.commute)
  qed
qed

lemma pop_off_n:
  assumes "hart_ok s" and "\<not> c_intr (mycpu s)" and "c_noff (mycpu s) = word_of_nat n"
    and "0 < n" and "n < 2 ^ 31"
  shows "pop_off_n n s = Ok (upd_mycpu (\<lambda>c. c\<lparr>c_intr := (c_intena c \<noteq> 0), c_noff := 0\<rparr>) s)"
  using assms
proof (induction n arbitrary: s)
  case 0
  then show ?case by simp
next
  case (Suc n)
  have pos: "sint (word_of_nat (Suc n) :: cint) = int (Suc n)"
    using Suc.prems(5) by (intro sint_word_of_nat) simp
  show ?case
  proof (cases "n = 0")
    case True
    then show ?thesis
      using Suc.prems by (auto simp: pop_off_def intr_on_def intr_get_def Let_def intro: upd_mycpu_cong)
  next
    case False
    let ?s = "upd_mycpu (\<lambda>c. c\<lparr>c_noff := c_noff c - 1\<rparr>) s"
    have ne: "(word_of_nat n :: cint) \<noteq> 0"
      using False Suc.prems by (auto simp: word_of_nat_eq_0_iff dest: dvd_imp_le)
    have "pop_off s = Ok ?s"
      using Suc.prems pos ne by (simp add: pop_off_def intr_get_def Let_def)
    moreover have "pop_off_n n ?s =
        Ok (upd_mycpu (\<lambda>c. c\<lparr>c_intr := (c_intena c \<noteq> 0), c_noff := 0\<rparr>) ?s)"
      by (rule Suc.IH) (use Suc.prems False in simp_all)
    ultimately show ?thesis
      using Suc.prems by simp
  qed
qed


subsection \<open>The lock\<close>

record spinlock =
  lk_locked :: uint
  lk_name :: string
  lk_cpu :: "nat option"

definition initlock :: "spinlock \<Rightarrow> string \<Rightarrow> spinlock" where
  "initlock lk name = lk\<lparr>lk_name := name, lk_locked := 0, lk_cpu := None\<rparr>"

definition holding :: "spinlock \<Rightarrow> 'a hartst_scheme \<Rightarrow> bool" where
  "holding lk s \<longleftrightarrow> lk_locked lk \<noteq> 0 \<and> lk_cpu lk = Some (cpuid s)"

definition acquire :: "spinlock \<Rightarrow> 'a hartst_scheme \<Rightarrow> (spinlock \<times> 'a hartst_scheme) kres" where
  "acquire lk s =
     (let s1 = push_off s
      in if holding lk s1 then Panic ''acquire''
         else if lk_locked lk \<noteq> 0 then Hang
         else Ok (lk\<lparr>lk_locked := 1, lk_cpu := Some (cpuid s1)\<rparr>, s1))"

definition release :: "spinlock \<Rightarrow> 'a hartst_scheme \<Rightarrow> (spinlock \<times> 'a hartst_scheme) kres" where
  "release lk s =
     (if \<not> holding lk s then Panic ''release''
      else
        let lk1 = lk\<lparr>lk_cpu := None, lk_locked := 0\<rparr>
        in kbind (pop_off s) (\<lambda>s1. Ok (lk1, s1)))"

text \<open>
  \<open>sched\<close> of kernel/proc.c up to the context switch: the four checks, and the saved
  \<^verbatim>\<open>intena\<close> that is written back when the process runs again (\<open>sched_resume\<close>). \<open>running\<close> says
  whether \<^verbatim>\<open>p->state == RUNNING\<close>.
\<close>

definition sched_check :: "spinlock \<Rightarrow> bool \<Rightarrow> 'a hartst_scheme \<Rightarrow> cint kres" where
  "sched_check p_lock running s =
     (if \<not> holding p_lock s then Panic ''sched p->lock''
      else if c_noff (mycpu s) \<noteq> 1 then Panic ''sched locks''
      else if running then Panic ''sched running''
      else if intr_get s then Panic ''sched interruptible''
      else Ok (c_intena (mycpu s)))"

definition sched_resume :: "cint \<Rightarrow> 'a hartst_scheme \<Rightarrow> 'a hartst_scheme" where
  "sched_resume intena s = upd_mycpu (\<lambda>c. c\<lparr>c_intena := intena\<rparr>) s"

lemma hart_push_off [simp]: "hart (push_off s) = hart s"
  by (simp add: push_off_def intr_off_def Let_def)

lemma acquire_free:
  "lk_locked lk = 0 \<Longrightarrow> acquire lk s = Ok (lk\<lparr>lk_locked := 1, lk_cpu := Some (hart s)\<rparr>, push_off s)"
  by (simp add: acquire_def holding_def cpuid_def Let_def)

subsection \<open>Interleaved harts\<close>

text \<open>
  Any number of harts share one lock, and each may call \<open>acquire\<close> or \<open>release\<close> at any time, in any order, whether it holds the
  lock or not. A step is one access of one hart to \<^verbatim>\<open>lk->locked\<close> or \<^verbatim>\<open>lk->cpu\<close>: \<open>holding\<close> is a load of the lock
  word and, if it is set, a load of \<^verbatim>\<open>lk->cpu\<close>; \<open>acquire\<close> goes on with atomic swaps until one returns 0 and a store of
  \<^verbatim>\<open>lk->cpu\<close>; \<open>release\<close> with a store of \<^verbatim>\<open>lk->cpu\<close> and a swap that clears the lock word. Between two steps of a
  hart the others may take any number of theirs. The order of the accesses of one hart is the one of the source, which its
  fences ask for.

  The program points are \<open>Idle\<close> (in neither function), \<open>AcqCpu\<close> and \<open>RelCpu\<close> (\<open>holding\<close> found the lock word set, \<^verbatim>\<open>lk->cpu\<close> not yet
  loaded), \<open>Spinning\<close> (before a swap), \<open>Swapped\<close> (the swap returned 0, \<^verbatim>\<open>lk->cpu\<close> not yet stored), \<open>RelStore\<close>
  (the check of \<open>release\<close> has passed), \<open>Cleared\<close> (\<^verbatim>\<open>lk->cpu = 0\<close> done, the lock word not yet cleared), and \<open>AcqPanic\<close> and \<open>RelPanic\<close>,
  where a hart stays after a panic. \<open>ls_holds\<close> is an auxiliary variable that no step reads: a hart holds the lock from the swap of its
  \<open>acquire\<close> that returned 0 until the swap of its \<open>release\<close>.
\<close>

datatype lock_pc = Idle | AcqCpu | Spinning | Swapped | RelCpu | RelStore | Cleared | AcqPanic | RelPanic

record lock_sys =
  ls_lock :: spinlock
  ls_pc :: "nat \<Rightarrow> lock_pc"
  ls_holds :: "nat \<Rightarrow> bool"

definition goto_pc :: "nat \<Rightarrow> lock_pc \<Rightarrow> lock_sys \<Rightarrow> lock_sys" where
  "goto_pc h l s = s\<lparr>ls_pc := (ls_pc s)(h := l)\<rparr>"

definition set_lock :: "(spinlock \<Rightarrow> spinlock) \<Rightarrow> lock_sys \<Rightarrow> lock_sys" where
  "set_lock f s = s\<lparr>ls_lock := f (ls_lock s)\<rparr>"

definition set_holds :: "nat \<Rightarrow> bool \<Rightarrow> lock_sys \<Rightarrow> lock_sys" where
  "set_holds h v s = s\<lparr>ls_holds := (ls_holds s)(h := v)\<rparr>"

inductive lock_step :: "lock_sys \<Rightarrow> lock_sys \<Rightarrow> bool" where
  acq_load_free: "ls_pc s h = Idle \<Longrightarrow> lk_locked (ls_lock s) = 0 \<Longrightarrow> lock_step s (goto_pc h Spinning s)"
| acq_load_set: "ls_pc s h = Idle \<Longrightarrow> lk_locked (ls_lock s) \<noteq> 0 \<Longrightarrow> lock_step s (goto_pc h AcqCpu s)"
| acq_load_other: "ls_pc s h = AcqCpu \<Longrightarrow> lk_cpu (ls_lock s) \<noteq> Some h \<Longrightarrow> lock_step s (goto_pc h Spinning s)"
| acq_load_mine: "ls_pc s h = AcqCpu \<Longrightarrow> lk_cpu (ls_lock s) = Some h \<Longrightarrow> lock_step s (goto_pc h AcqPanic s)"
| acq_swap_busy: "ls_pc s h = Spinning \<Longrightarrow> lk_locked (ls_lock s) \<noteq> 0 \<Longrightarrow>
     lock_step s (set_lock (\<lambda>lk. lk\<lparr>lk_locked := 1\<rparr>) s)"
| acq_swap_free: "ls_pc s h = Spinning \<Longrightarrow> lk_locked (ls_lock s) = 0 \<Longrightarrow>
     lock_step s (set_holds h True (goto_pc h Swapped (set_lock (\<lambda>lk. lk\<lparr>lk_locked := 1\<rparr>) s)))"
| acq_store: "ls_pc s h = Swapped \<Longrightarrow> lock_step s (goto_pc h Idle (set_lock (\<lambda>lk. lk\<lparr>lk_cpu := Some h\<rparr>) s))"
| rel_load_free: "ls_pc s h = Idle \<Longrightarrow> lk_locked (ls_lock s) = 0 \<Longrightarrow> lock_step s (goto_pc h RelPanic s)"
| rel_load_set: "ls_pc s h = Idle \<Longrightarrow> lk_locked (ls_lock s) \<noteq> 0 \<Longrightarrow> lock_step s (goto_pc h RelCpu s)"
| rel_load_other: "ls_pc s h = RelCpu \<Longrightarrow> lk_cpu (ls_lock s) \<noteq> Some h \<Longrightarrow> lock_step s (goto_pc h RelPanic s)"
| rel_load_mine: "ls_pc s h = RelCpu \<Longrightarrow> lk_cpu (ls_lock s) = Some h \<Longrightarrow> lock_step s (goto_pc h RelStore s)"
| rel_store: "ls_pc s h = RelStore \<Longrightarrow> lock_step s (goto_pc h Cleared (set_lock (\<lambda>lk. lk\<lparr>lk_cpu := None\<rparr>) s))"
| rel_swap: "ls_pc s h = Cleared \<Longrightarrow>
     lock_step s (set_holds h False (goto_pc h Idle (set_lock (\<lambda>lk. lk\<lparr>lk_locked := 0\<rparr>) s)))"

lemmas lock_upd_defs = goto_pc_def set_lock_def set_holds_def

definition lock_init :: lock_sys where
  "lock_init = \<lparr>ls_lock = initlock \<lparr>lk_locked = 0, lk_name = [], lk_cpu = None\<rparr> [], ls_pc = (\<lambda>_. Idle), ls_holds = (\<lambda>_. False)\<rparr>"

inductive lock_reachable :: "lock_sys \<Rightarrow> bool" where
  lock_start: "lock_reachable lock_init"
| lock_next: "lock_reachable s \<Longrightarrow> lock_step s t \<Longrightarrow> lock_reachable t"

text \<open>
  The invariant, with \<open>ow\<close> the hart that holds the lock, if there is one: the lock word is set exactly while there is one; \<^verbatim>\<open>lk->cpu\<close> names
  it except right after its swap and right before its unlock; only it is at the points behind a successful check of \<open>release\<close>
  or a failed one of \<open>acquire\<close>, and it is never in the spinning loop.
\<close>

definition owner_points :: "lock_pc set" where
  "owner_points = {Swapped, RelStore, Cleared, AcqPanic}"

definition lock_at :: "nat option \<Rightarrow> lock_sys \<Rightarrow> bool" where
  "lock_at ow s \<longleftrightarrow>
     (\<forall>h. ls_holds s h \<longleftrightarrow> ow = Some h) \<and>
     (\<forall>h. ow \<noteq> Some h \<longrightarrow> ls_pc s h \<notin> owner_points) \<and>
     (\<forall>h. ow = Some h \<longrightarrow> ls_pc s h \<notin> {Spinning, RelPanic}) \<and>
     (lk_locked (ls_lock s) = 0 \<longleftrightarrow> ow = None) \<and>
     lk_cpu (ls_lock s) =
       (case ow of None \<Rightarrow> None | Some h \<Rightarrow> if ls_pc s h \<in> {Swapped, Cleared} then None else Some h)"

definition lock_inv :: "lock_sys \<Rightarrow> bool" where
  "lock_inv s \<longleftrightarrow> (\<exists>ow. lock_at ow s)"

lemma lock_inv_init: "lock_inv lock_init"
  by (auto simp: lock_inv_def lock_at_def lock_init_def initlock_def owner_points_def intro: exI[of _ None])

lemma lock_at_points:
  "lock_at ow s \<Longrightarrow> ls_pc s h \<in> owner_points \<Longrightarrow> ow = Some h"
  "lock_at ow s \<Longrightarrow> ls_pc s h \<in> {Spinning, RelPanic} \<Longrightarrow> ow \<noteq> Some h"
  "lock_at ow s \<Longrightarrow> ls_pc s h \<in> {Idle, AcqCpu, RelCpu} \<Longrightarrow> lk_cpu (ls_lock s) = Some h \<longleftrightarrow> ow = Some h"
  "lock_at ow s \<Longrightarrow> lk_locked (ls_lock s) = 0 \<longleftrightarrow> ow = None"
  by (auto simp: lock_at_def split: option.splits if_splits)

text \<open>A step that only moves a hart to another point.\<close>

lemma lock_at_goto:
  assumes "lock_at ow s" "ls_pc s h \<notin> {Swapped, Cleared}" "l \<notin> {Swapped, Cleared}"
    and "l \<in> owner_points \<Longrightarrow> ow = Some h" "l \<in> {Spinning, RelPanic} \<Longrightarrow> ow \<noteq> Some h"
  shows "lock_at ow (goto_pc h l s)"
  using assms by (auto simp: lock_at_def goto_pc_def split: option.split)

lemma lock_step_at:
  assumes "lock_step s t" and at: "lock_at ow s"
  shows "\<exists>ow'. lock_at ow' t"
  using assms(1)
proof (cases rule: lock_step.cases)
  case (acq_swap_busy h)
  then have "lock_at ow t" using at by (auto simp: lock_at_def lock_upd_defs)
  then show ?thesis by blast
next
  case (acq_swap_free h)
  then have "ow = None" using lock_at_points(4)[OF at] by simp
  then have "lock_at (Some h) t" using acq_swap_free at by (auto simp: lock_at_def lock_upd_defs owner_points_def)
  then show ?thesis by blast
next
  case (acq_store h)
  then have "ow = Some h" by (intro lock_at_points(1)[OF at]) (simp add: owner_points_def)
  then have "lock_at ow t" using acq_store at by (auto simp: lock_at_def lock_upd_defs)
  then show ?thesis by blast
next
  case (rel_store h)
  then have "ow = Some h" by (intro lock_at_points(1)[OF at]) (simp add: owner_points_def)
  then have "lock_at ow t" using rel_store at by (auto simp: lock_at_def lock_upd_defs)
  then show ?thesis by blast
next
  case (rel_swap h)
  then have "ow = Some h" by (intro lock_at_points(1)[OF at]) (simp add: owner_points_def)
  then have "lock_at None t" using rel_swap at by (auto simp: lock_at_def lock_upd_defs owner_points_def)
  then show ?thesis by blast
qed (use at in \<open>auto simp: owner_points_def lock_at_points(3,4)[OF at] intro!: exI[of _ ow] lock_at_goto\<close>)

lemma lock_step_inv: "lock_step s t \<Longrightarrow> lock_inv s \<Longrightarrow> lock_inv t"
  using lock_step_at[of s t] by (auto simp: lock_inv_def)

lemma lock_reachable_inv: "lock_reachable s \<Longrightarrow> lock_inv s"
  by (induction rule: lock_reachable.induct) (auto intro: lock_inv_init lock_step_inv)

text \<open>The sequential operations are runs of the interleaved ones without interference.\<close>

lemma acquire_by_steps:
  assumes "ls_pc s (hart k) = Idle" and "acquire (ls_lock s) k = Ok (lk, k')"
  shows "lock_step\<^sup>*\<^sup>* s (set_lock (\<lambda>_. lk) (set_holds (hart k) True s))"
proof -
  let ?h = "hart k"
  from assms(2) have free: "lk_locked (ls_lock s) = 0"
    and lk: "lk = (ls_lock s)\<lparr>lk_locked := 1, lk_cpu := Some ?h\<rparr>"
    by (auto simp: acquire_def Let_def cpuid_def split: if_splits)
  let ?s1 = "goto_pc ?h Spinning s"
  let ?s2 = "set_holds ?h True (goto_pc ?h Swapped (set_lock (\<lambda>lk. lk\<lparr>lk_locked := 1\<rparr>) ?s1))"
  let ?s3 = "goto_pc ?h Idle (set_lock (\<lambda>lk. lk\<lparr>lk_cpu := Some ?h\<rparr>) ?s2)"
  have "lock_step s ?s1" by (rule acq_load_free) (use assms(1) free in simp_all)
  moreover have "lock_step ?s1 ?s2" by (rule acq_swap_free) (use free in \<open>simp_all add: lock_upd_defs\<close>)
  moreover have "lock_step ?s2 ?s3" by (rule acq_store) (simp add: lock_upd_defs)
  ultimately have "lock_step\<^sup>*\<^sup>* s ?s3"
    by (rule converse_rtranclp_into_rtranclp[OF _ converse_rtranclp_into_rtranclp[OF _ r_into_rtranclp]])
  moreover have "(ls_pc s)(?h := Idle) = ls_pc s" using assms(1) by auto
  ultimately show ?thesis by (simp add: lk lock_upd_defs)
qed

lemma release_by_steps:
  assumes "ls_pc s (hart k) = Idle" and "release (ls_lock s) k = Ok (lk, k')"
  shows "lock_step\<^sup>*\<^sup>* s (set_holds (hart k) False (set_lock (\<lambda>_. lk) s))"
proof -
  let ?h = "hart k"
  from assms(2) have held: "lk_locked (ls_lock s) \<noteq> 0" "lk_cpu (ls_lock s) = Some ?h"
    and lk: "lk = (ls_lock s)\<lparr>lk_cpu := None, lk_locked := 0\<rparr>"
    by (auto simp: release_def holding_def Let_def cpuid_def split: if_splits)
  let ?s1 = "goto_pc ?h RelCpu s"
  let ?s2 = "goto_pc ?h RelStore ?s1"
  let ?s3 = "goto_pc ?h Cleared (set_lock (\<lambda>lk. lk\<lparr>lk_cpu := None\<rparr>) ?s2)"
  let ?s4 = "set_holds ?h False (goto_pc ?h Idle (set_lock (\<lambda>lk. lk\<lparr>lk_locked := 0\<rparr>) ?s3))"
  have "lock_step s ?s1" by (rule rel_load_set) (use assms(1) held in simp_all)
  moreover have "lock_step ?s1 ?s2" by (rule rel_load_mine) (use held in \<open>simp_all add: lock_upd_defs\<close>)
  moreover have "lock_step ?s2 ?s3" by (rule rel_store) (simp add: lock_upd_defs)
  moreover have "lock_step ?s3 ?s4" by (rule rel_swap) (simp add: lock_upd_defs)
  ultimately have "lock_step\<^sup>*\<^sup>* s ?s4" by (meson converse_rtranclp_into_rtranclp r_into_rtranclp)
  moreover have "(ls_pc s)(?h := Idle) = ls_pc s" using assms(1) by auto
  ultimately show ?thesis by (simp add: lk lock_upd_defs)
qed

subsection \<open>Properties\<close>

text \<open>
  C15. Mutual exclusion of the spin lock: however any number of harts call \<^verbatim>\<open>acquire\<close> and \<^verbatim>\<open>release\<close> and however their single
  loads, stores and swaps of the lock interleave, at most one hart holds the lock, and the lock word is set exactly while one does. The
  \<^verbatim>\<open>holding\<close> checks are right although they read two words in two steps: \<^verbatim>\<open>acquire\<close> panics only on a hart that
  holds the lock and such a hart never spins on it; \<^verbatim>\<open>release\<close> panics only on a hart that does not hold it, and
  only the holder clears \<^verbatim>\<open>lk->cpu\<close> and the lock word.
\<close>

theorem spinlock_mutual_exclusion:
  assumes "lock_reachable s"
  shows "(ls_holds s h \<and> ls_holds s k \<longrightarrow> h = k) \<and> (lk_locked (ls_lock s) \<noteq> 0 \<longleftrightarrow> (\<exists>h. ls_holds s h)) \<and>
    (ls_pc s h = AcqPanic \<longrightarrow> ls_holds s h) \<and> (ls_pc s h = Spinning \<longrightarrow> \<not> ls_holds s h) \<and>
    (ls_pc s h = RelPanic \<longrightarrow> \<not> ls_holds s h) \<and> (ls_pc s h \<in> {RelStore, Cleared} \<longrightarrow> ls_holds s h)"
proof -
  from lock_reachable_inv[OF assms] obtain ow where at: "lock_at ow s" by (auto simp: lock_inv_def)
  then have "ls_holds s h \<longleftrightarrow> ow = Some h" for h by (simp add: lock_at_def)
  then show ?thesis using lock_at_points[OF at] by (cases ow) (auto simp: owner_points_def)
qed

text \<open>
  A run with three harts: hart 1 calls \<^verbatim>\<open>acquire\<close> and finds the lock word clear, hart 0 takes the lock, hart 1 swaps in vain,
  hart 2 calls \<^verbatim>\<open>release\<close> without the lock and panics.
\<close>

definition example_race :: lock_sys where
  "example_race = goto_pc 2 RelPanic (goto_pc 2 RelCpu (set_lock (\<lambda>lk. lk\<lparr>lk_locked := 1\<rparr>)
     (goto_pc 0 Idle (set_lock (\<lambda>lk. lk\<lparr>lk_cpu := Some 0\<rparr>)
       (set_holds 0 True (goto_pc 0 Swapped (set_lock (\<lambda>lk. lk\<lparr>lk_locked := 1\<rparr>)
         (goto_pc 0 Spinning (goto_pc 1 Spinning lock_init)))))))))"

lemma example_race_reachable: "lock_reachable example_race"
proof -
  let ?s1 = "goto_pc 1 Spinning lock_init"
  let ?s2 = "goto_pc 0 Spinning ?s1"
  let ?s3 = "set_holds 0 True (goto_pc 0 Swapped (set_lock (\<lambda>lk. lk\<lparr>lk_locked := 1\<rparr>) ?s2))"
  let ?s4 = "goto_pc 0 Idle (set_lock (\<lambda>lk. lk\<lparr>lk_cpu := Some 0\<rparr>) ?s3)"
  let ?s5 = "set_lock (\<lambda>lk. lk\<lparr>lk_locked := 1\<rparr>) ?s4"
  let ?s6 = "goto_pc 2 RelCpu ?s5"
  note defs = lock_upd_defs lock_init_def initlock_def
  have "lock_reachable ?s1" by (rule lock_next[OF lock_start acq_load_free]) (simp_all add: defs)
  then have "lock_reachable ?s2" by (rule lock_next[OF _ acq_load_free]) (simp_all add: defs)
  then have "lock_reachable ?s3" by (rule lock_next[OF _ acq_swap_free]) (simp_all add: defs)
  then have "lock_reachable ?s4" by (rule lock_next[OF _ acq_store]) (simp_all add: defs)
  then have "lock_reachable ?s5" by (rule lock_next[OF _ acq_swap_busy[of _ 1]]) (simp_all add: defs)
  then have "lock_reachable ?s6" by (rule lock_next[OF _ rel_load_set]) (simp_all add: defs)
  then have "lock_reachable (goto_pc 2 RelPanic ?s6)" by (rule lock_next[OF _ rel_load_other]) (simp_all add: defs)
  then show ?thesis by (simp only: example_race_def)
qed

theorem spinlock_mutual_exclusion_witness:
  "ls_holds example_race 0 \<and> \<not> ls_holds example_race 1 \<and> \<not> ls_holds example_race 2 \<and>
   ls_pc example_race 1 = Spinning \<and> ls_pc example_race 2 = RelPanic \<and> lk_locked (ls_lock example_race) \<noteq> 0"
proof -
  have "ls_pc example_race 1 = Spinning" "ls_pc example_race 2 = RelPanic" "ls_holds example_race 0"
    by (simp_all add: example_race_def lock_upd_defs lock_init_def)
  then show ?thesis
    using spinlock_mutual_exclusion[OF example_race_reachable, of 0 1] spinlock_mutual_exclusion[OF example_race_reachable, of 2 0] by auto
qed

text \<open>
  C31. Matched nesting: after any number of \<^verbatim>\<open>push_off\<close> calls on a hart with no \<^verbatim>\<open>push_off\<close>
  outstanding, the same number of \<^verbatim>\<open>pop_off\<close> calls succeeds, and the interrupt-enable bit is back
  to what it was before the first one, with the nesting depth at zero.
\<close>

theorem push_pop_restores:
  assumes "hart_ok s" and "c_noff (mycpu s) = 0" and "0 < n" and "n < 2 ^ 31"
  shows "\<exists>t. pop_off_n n ((push_off ^^ n) s) = Ok t \<and> intr_get t = intr_get s \<and>
    c_noff (mycpu t) = 0 \<and> \<not> intr_get ((push_off ^^ n) s)"
proof -
  note p = push_off_n[OF assms]
  have "pop_off_n n ((push_off ^^ n) s) =
      Ok (upd_mycpu (\<lambda>c. c\<lparr>c_intr := (c_intena c \<noteq> 0), c_noff := 0\<rparr>) ((push_off ^^ n) s))"
    by (rule pop_off_n) (use assms in \<open>simp_all add: p\<close>)
  then show ?thesis using assms(1) by (simp add: p intr_get_def)
qed

definition example_hart :: hartst where
  "example_hart = \<lparr>cpus = [\<lparr>c_proc = None, c_context = \<lparr>ctx_ra = 0, ctx_sp = 0, ctx_s = []\<rparr>,
     c_noff = 0, c_intena = 0, c_intr = True\<rparr>], hart = 0\<rparr>"

theorem push_pop_restores_witness:
  "\<exists>t. pop_off_n 3 ((push_off ^^ 3) example_hart) = Ok t \<and> intr_get t \<and> c_noff (mycpu t) = 0"
  using push_pop_restores[of example_hart 3]
  by (auto simp: example_hart_def hart_ok_def mycpu_def cpuid_def intr_get_def)

end
