(* ===== verification/Xv6_Printf.thy ===== *)
theory Xv6_Printf
  imports Xv6_Prelude
begin

section \<open>Kernel formatted output (kernel/printf.c)\<close>

text \<open>
  \<open>printint\<close>, \<open>printptr\<close> and \<open>printf\<close> return the characters they hand to \<^verbatim>\<open>consputc\<close>, in
  order; the kernel state keeps them in a log of its console output. The varargs list is a
  list of raw 64-bit argument registers and strings; an argument that is not there reads as 0,
  a value that the source leaves undefined. \<^verbatim>\<open>panic\<close> is the result \<open>Panic\<close>.
\<close>

definition digits :: string where
  "digits = ''0123456789abcdef''"

text \<open>
  The do-while loop of \<open>printint\<close>: the digits of \<^verbatim>\<open>x\<close>, least significant first, as they
  stand in \<^verbatim>\<open>buf\<close>. The source calls it with the bases 10 and 16 only; the test of the base
  is there for termination.
\<close>

function printint_loop :: "uint \<Rightarrow> uint \<Rightarrow> string" where
  "printint_loop base x =
     digits ! unat (x mod base) #
     (if x div base = 0 \<or> unat base < 2 then [] else printint_loop base (x div base))"
  by pat_completeness auto
termination
proof (relation "measure (\<lambda>(base, x). unat x)")
  fix base x :: uint
  assume "\<not> (x div base = 0 \<or> unat base < 2)"
  then have "unat x \<noteq> 0" "1 < unat base" by (auto simp: unat_eq_0)
  then show "((base, x div base), (base, x)) \<in> measure (\<lambda>(base, x). unat x)"
    by (simp add: unat_div)
qed simp

declare printint_loop.simps [simp del]

definition printint :: "cint \<Rightarrow> uint \<Rightarrow> bool \<Rightarrow> string" where
  "printint xx base sign =
     (let neg = sign \<and> sint xx < 0;
          x = (if neg then - xx else xx);
          buf = printint_loop base x;
          buf' = (if neg then buf @ ''-'' else buf)
      in rev buf')"

primrec printptr_loop :: "nat \<Rightarrow> uint64 \<Rightarrow> string" where
  "printptr_loop 0 x = []"
| "printptr_loop (Suc n) x = digits ! unat (drop_bit 60 x) # printptr_loop n (push_bit 4 x)"

definition printptr :: "uint64 \<Rightarrow> string" where
  "printptr x = ''0x'' @ printptr_loop 16 x"

datatype printarg = ArgWord uint64 | ArgStr "string option"

fun arg_int :: "printarg list \<Rightarrow> cint" where
  "arg_int (ArgWord w # _) = ucast w"
| "arg_int _ = 0"

fun arg_uint64 :: "printarg list \<Rightarrow> uint64" where
  "arg_uint64 (ArgWord w # _) = w"
| "arg_uint64 _ = 0"

fun arg_str :: "printarg list \<Rightarrow> string" where
  "arg_str (ArgStr (Some s) # _) = s"
| "arg_str _ = ''(null)''"

text \<open>
  A format string holds no null character, so its end is the end of the list. The second
  equation is the \<^verbatim>\<open>break\<close> at a lone percent sign.
\<close>

fun printf :: "string \<Rightarrow> printarg list \<Rightarrow> string" where
  "printf [] ap = []"
| "printf [c] ap = (if c = CHR ''%'' then [] else [c])"
| "printf (c # d # fmt) ap =
     (if c \<noteq> CHR ''%'' then c # printf (d # fmt) ap
      else if d = CHR ''d'' then printint (arg_int ap) 10 True @ printf fmt (tl ap)
      else if d = CHR ''x'' then printint (arg_int ap) 16 True @ printf fmt (tl ap)
      else if d = CHR ''p'' then printptr (arg_uint64 ap) @ printf fmt (tl ap)
      else if d = CHR ''s'' then arg_str ap @ printf fmt (tl ap)
      else if d = CHR ''%'' then CHR ''%'' # printf fmt ap
      else CHR ''%'' # d # printf fmt ap)"

declare printf.simps [simp del]

abbreviation newline :: string where "newline \<equiv> [CHR 0x0A]"

subsection \<open>Printed integers read back\<close>

text \<open>The value of a digit and of a string of digits in a base, most significant first.\<close>

definition digit_value :: "char \<Rightarrow> nat" where
  "digit_value c = length (takeWhile (\<lambda>d. d \<noteq> c) digits)"

definition digits_value :: "nat \<Rightarrow> string \<Rightarrow> nat" where
  "digits_value base cs = foldl (\<lambda>v c. v * base + digit_value c) 0 cs"

text \<open>Reading a signed numeral: an optional minus sign, then digits.\<close>

definition numeral_value :: "nat \<Rightarrow> string \<Rightarrow> int" where
  "numeral_value base cs =
     (case cs of CHR ''-'' # ds \<Rightarrow> - int (digits_value base ds) | _ \<Rightarrow> int (digits_value base cs))"

lemma digit_value_nth: "k < 16 \<Longrightarrow> digit_value (digits ! k) = k"
proof -
  have "\<forall>k \<in> set [0..<16]. digit_value (digits ! k) = k"
    by code_simp
  then show "k < 16 \<Longrightarrow> digit_value (digits ! k) = k" by simp
qed

lemma digits_not_minus: "k < 16 \<Longrightarrow> digits ! k \<noteq> CHR ''-''"
proof -
  have "\<forall>k \<in> set [0..<16]. digits ! k \<noteq> CHR ''-''"
    by code_simp
  then show "k < 16 \<Longrightarrow> digits ! k \<noteq> CHR ''-''" by simp
qed

lemma digits_value_snoc: "digits_value b (cs @ [c]) = digits_value b cs * b + digit_value c"
  by (simp add: digits_value_def)

lemma digits_value_printint_loop:
  "2 \<le> unat base \<Longrightarrow> unat base \<le> 16 \<Longrightarrow>
    digits_value (unat base) (rev (printint_loop base x)) = unat x"
proof (induction base x rule: printint_loop.induct)
  case (1 base x)
  have "unat x mod unat base < 16"
    using "1.prems" mod_less_divisor[of "unat base" "unat x"] by linarith
  then have d: "digit_value (digits ! unat (x mod base)) = unat x mod unat base"
    by (simp add: unat_mod digit_value_nth)
  show ?case
  proof (cases "x div base = 0")
    case True
    then have "unat x div unat base = 0" using unat_div[of x base] by simp
    then have "unat x mod unat base = unat x" using "1.prems" by (simp add: div_eq_0_iff)
    with True d show ?thesis
      by (simp add: printint_loop.simps[of base x] digits_value_def)
  next
    case False
    with 1 have "digits_value (unat base) (rev (printint_loop base (x div base))) = unat x div unat base"
      by (simp add: unat_div)
    with False d "1.prems" show ?thesis
      by (simp add: printint_loop.simps[of base x] digits_value_snoc)
  qed
qed

lemma set_printint_loop:
  "2 \<le> unat base \<Longrightarrow> unat base \<le> 16 \<Longrightarrow> set (printint_loop base x) \<subseteq> (!) digits ` {..<unat base}"
proof (induction base x rule: printint_loop.induct)
  case (1 base x)
  then have "unat (x mod base) < unat base" by (simp add: unat_mod)
  with 1 show ?case by (subst printint_loop.simps) auto
qed

lemma printint_loop_not_Nil [simp]: "printint_loop base x \<noteq> []"
  by (simp add: printint_loop.simps)

lemma printint_value:
  assumes "2 \<le> unat base" and "unat base \<le> 16"
  shows "numeral_value (unat base) (printint xx base True) = sint xx"
proof (cases "sint xx < 0")
  case True
  then have "printint xx base True = CHR ''-'' # rev (printint_loop base (- xx))"
    by (simp add: printint_def)
  then show ?thesis
    using digits_value_printint_loop[OF assms, of "- xx"] sint_neg_unat[OF True]
    by (simp add: numeral_value_def)
next
  case False
  then have p: "printint xx base True = rev (printint_loop base xx)"
    by (simp add: printint_def)
  have "hd (rev (printint_loop base xx)) \<in> set (printint_loop base xx)"
    by (metis hd_in_set printint_loop_not_Nil rev_is_Nil_conv set_rev)
  then have "hd (rev (printint_loop base xx)) \<noteq> CHR ''-''"
    using set_printint_loop[OF assms, of xx] digits_not_minus assms by fastforce
  then have "numeral_value (unat base) (rev (printint_loop base xx)) =
      int (digits_value (unat base) (rev (printint_loop base xx)))"
    by (cases "rev (printint_loop base xx)") (auto simp: numeral_value_def split: char.split bool.split)
  then show ?thesis
    using digits_value_printint_loop[OF assms, of xx] sint_nonneg_unat[of xx] False
    by (simp add: p)
qed

subsection \<open>Properties\<close>

text \<open>
  C35. Printing an \<^verbatim>\<open>int\<close> in decimal or hexadecimal loses nothing: reading the printed characters
  as a signed numeral of that base gives the printed value back, for every 32-bit value,
  including the smallest one, whose negation overflows.
\<close>

theorem printint_roundtrip:
  assumes "base \<in> {10, 16}"
  shows "numeral_value (unat base) (printint xx base True) = sint xx"
  using assms by (intro printint_value) auto

theorem printint_roundtrip_witness:
  "numeral_value 10 (printint (- (2 ^ 31)) 10 True) = - (2 ^ 31)"
  using printint_roundtrip[of 10 "- (2 ^ 31)"] by simp

end
