(* ===== verification/Xv6_Proc.thy ===== *)
theory Xv6_Proc
  imports Xv6_Queue Xv6_Spinlock Xv6_Printf Xv6_Layout
begin

section \<open>The process table (kernel/proc.h, kernel/proc.c)\<close>

text \<open>
  \<^verbatim>\<open>struct proc\<close>, the globals of kernel/proc.c and kernel/trap.c that the scheduler uses, and
  the operations that touch the process table only: pids, sleeping and waking, killing,
  reparenting, priorities and time accounting. A pointer \<^verbatim>\<open>&proc[i]\<close> is the index \<open>i\<close>, a null
  pointer \<open>None\<close>. Loops over the table visit the indices in order; the section under
  \<^verbatim>\<open>p->lock\<close> is one atomic step.
\<close>

datatype procstate = UNUSED | USED | SLEEPING | RUNNABLE | RUNNING | ZOMBIE

text \<open>
  Sleep channels are addresses of kernel objects. The constructors are the objects that the
  kernel passes to \<open>sleep\<close> and \<open>wakeup\<close>; distinct objects have distinct addresses.
\<close>

datatype chan =
    ChanProc nat
  | ChanTicks
  | ChanLog
  | ChanBuf nat
  | ChanBufLock nat
  | ChanInodeLock nat
  | ChanPipeRead uint64
  | ChanPipeWrite uint64
  | ChanCons
  | ChanUart
  | ChanDiskFree

abbreviation (input) NMLFQ :: nat where "NMLFQ \<equiv> 5"
abbreviation (input) AGETICK :: uint where "AGETICK \<equiv> 128"

record proc =
  p_state :: procstate
  p_chan :: "chan option"
  p_killed :: cint
  p_xstate :: cint
  p_pid :: cint
  p_parent :: "nat option"
  p_kstack :: uint64
  p_sz :: uint64
  p_pagetable :: uint64
  p_trapframe :: uint64
  p_context :: kcontext
  p_ofile :: "nat option list"
  p_cwd :: "nat option"
  p_name :: "uchar list"
  p_mask :: cint
  p_ctime :: cint
  p_etime :: cint
  p_rtime :: cint
  p_sleep_time :: cint
  p_niceness :: cint
  p_static_priority :: cint
  p_dynamic_priority :: cint
  p_level :: cint
  p_in_queue :: cint
  p_change_queue :: cint
  p_n_run :: cint
  p_q_enter :: cint
  p_q :: "cint list"

record kproc = hartst +
  procs :: "proc list"
  initproc :: "nat option"
  mlfq :: "Queue list"
  nextpid :: cint
  alpha :: cint
  ticks :: uint
  kout :: string

text \<open>
  \<open>kout\<close> is what the kernel has written to its console with \<^verbatim>\<open>printf\<close>; nothing reads it back.
\<close>

definition kprintf :: "string \<Rightarrow> printarg list \<Rightarrow> 'a kproc_scheme \<Rightarrow> 'a kproc_scheme" where
  "kprintf fmt args s = s\<lparr>kout := kout s @ printf fmt args\<rparr>"

subsection \<open>Reading and writing the table\<close>

definition proc_at :: "'a kproc_scheme \<Rightarrow> nat \<Rightarrow> proc" where
  "proc_at s i = procs s ! i"

definition upd_proc :: "nat \<Rightarrow> (proc \<Rightarrow> proc) \<Rightarrow> 'a kproc_scheme \<Rightarrow> 'a kproc_scheme" where
  "upd_proc i f s = s\<lparr>procs := (procs s)[i := f (procs s ! i)]\<rparr>"

text \<open>A loop \<^verbatim>\<open>for(p = proc; p < &proc[NPROC]; p++)\<close> whose body changes only \<^verbatim>\<open>*p\<close>.\<close>

definition for_procs :: "(nat \<Rightarrow> proc \<Rightarrow> proc) \<Rightarrow> 'a kproc_scheme \<Rightarrow> 'a kproc_scheme" where
  "for_procs f s = fold (\<lambda>i. upd_proc i (f i)) [0..<NPROC] s"

definition kproc_ok :: "'a kproc_scheme \<Rightarrow> bool" where
  "kproc_ok s \<longleftrightarrow> length (procs s) = NPROC \<and> hart_ok s"

lemma length_procs_upd_proc [simp]: "length (procs (upd_proc i f s)) = length (procs s)"
  by (simp add: upd_proc_def)

lemma proc_at_upd_proc [simp]:
  "j < length (procs s) \<Longrightarrow> proc_at (upd_proc i f s) j = (if i = j then f (proc_at s j) else proc_at s j)"
  by (auto simp: proc_at_def upd_proc_def)

lemma upd_proc_frame [simp]:
  "cpus (upd_proc i f s) = cpus s" "hart (upd_proc i f s) = hart s"
  "initproc (upd_proc i f s) = initproc s" "mlfq (upd_proc i f s) = mlfq s"
  "nextpid (upd_proc i f s) = nextpid s" "alpha (upd_proc i f s) = alpha s"
  "ticks (upd_proc i f s) = ticks s" "kout (upd_proc i f s) = kout s" "kproc.more (upd_proc i f s) = kproc.more s"
  by (simp_all add: upd_proc_def)

lemma kproc_ok_upd_proc [simp]: "kproc_ok (upd_proc i f s) = kproc_ok s"
  by (simp add: kproc_ok_def hart_ok_def)

lemma for_procs_prefix:
  "n \<le> length (procs s) \<Longrightarrow> fold (\<lambda>i. upd_proc i (f i)) [0..<n] s =
    s\<lparr>procs := map (\<lambda>i. if i < n then f i (procs s ! i) else procs s ! i) [0..<length (procs s)]\<rparr>"
proof (induction n)
  case 0
  show ?case by (simp add: map_nth)
next
  case (Suc n)
  let ?m = "\<lambda>n. map (\<lambda>i. if i < n then f i (procs s ! i) else procs s ! i) [0..<length (procs s)]"
  have IH: "fold (\<lambda>i. upd_proc i (f i)) [0..<n] s = s\<lparr>procs := ?m n\<rparr>"
    using Suc by simp
  have "(?m n)[n := f n (?m n ! n)] = ?m (Suc n)"
    using Suc.prems by (intro nth_equalityI) (auto simp: nth_list_update)
  then have "upd_proc n (f n) (s\<lparr>procs := ?m n\<rparr>) = s\<lparr>procs := ?m (Suc n)\<rparr>"
    by (simp add: upd_proc_def)
  with IH show ?case by simp
qed

lemma procs_for_procs:
  assumes "kproc_ok s"
  shows "for_procs f s = s\<lparr>procs := map (\<lambda>i. f i (procs s ! i)) [0..<NPROC]\<rparr>"
proof -
  have len: "length (procs s) = NPROC"
    using assms by (simp add: kproc_ok_def)
  have "map (\<lambda>i. if i < NPROC then f i (procs s ! i) else procs s ! i) [0..<NPROC] =
      map (\<lambda>i. f i (procs s ! i)) [0..<NPROC]"
    by (rule map_cong) simp_all
  with for_procs_prefix[of NPROC s f] len show ?thesis
    by (simp add: for_procs_def)
qed

lemma proc_at_for_procs:
  "kproc_ok s \<Longrightarrow> i < NPROC \<Longrightarrow> proc_at (for_procs f s) i = f i (proc_at s i)"
  by (simp add: procs_for_procs proc_at_def)

lemma for_procs_frame [simp]:
  assumes "kproc_ok s"
  shows "cpus (for_procs f s) = cpus s" "hart (for_procs f s) = hart s"
    "initproc (for_procs f s) = initproc s" "mlfq (for_procs f s) = mlfq s"
    "nextpid (for_procs f s) = nextpid s" "alpha (for_procs f s) = alpha s"
    "ticks (for_procs f s) = ticks s" "kout (for_procs f s) = kout s" "kproc.more (for_procs f s) = kproc.more s"
    "length (procs (for_procs f s)) = NPROC" "kproc_ok (for_procs f s)"
  using assms by (simp_all add: procs_for_procs kproc_ok_def hart_ok_def)

subsection \<open>The table at boot\<close>

text \<open>
  The globals as the C start-up code leaves them: zero but for \<^verbatim>\<open>nextpid\<close>, with \<open>n\<close> harts.
  \<open>procinit\<close> then sets the kernel stacks (its \<^verbatim>\<open>initlock\<close> calls act on the locks, which this
  theory leaves out).
\<close>

definition context_zero :: kcontext where
  "context_zero = \<lparr>ctx_ra = 0, ctx_sp = 0, ctx_s = replicate 12 0\<rparr>"

definition proc_zero :: proc where
  "proc_zero = \<lparr>p_state = UNUSED, p_chan = None, p_killed = 0, p_xstate = 0, p_pid = 0,
     p_parent = None, p_kstack = 0, p_sz = 0, p_pagetable = 0, p_trapframe = 0,
     p_context = context_zero, p_ofile = replicate 16 None, p_cwd = None, p_name = replicate 16 0,
     p_mask = 0, p_ctime = 0, p_etime = 0, p_rtime = 0, p_sleep_time = 0, p_niceness = 0,
     p_static_priority = 0, p_dynamic_priority = 0, p_level = 0, p_in_queue = 0,
     p_change_queue = 0, p_n_run = 0, p_q_enter = 0, p_q = replicate NMLFQ 0\<rparr>"

definition cpu_zero :: cpu where
  "cpu_zero = \<lparr>c_proc = None, c_context = context_zero, c_noff = 0, c_intena = 0, c_intr = False\<rparr>"

definition kproc_boot :: "nat \<Rightarrow> kproc" where
  "kproc_boot n = \<lparr>cpus = replicate n cpu_zero, hart = 0, procs = replicate NPROC proc_zero,
     initproc = None, mlfq = replicate NMLFQ empty_queue, nextpid = 1, alpha = 0, ticks = 0,
     kout = []\<rparr>"

definition procinit :: "'a kproc_scheme \<Rightarrow> 'a kproc_scheme" where
  "procinit s = for_procs (\<lambda>i pr. pr\<lparr>p_kstack := KSTACK i\<rparr>) s"

subsection \<open>Current process and pids\<close>

definition myproc :: "'a kproc_scheme \<Rightarrow> nat option" where
  "myproc s = c_proc (mycpu s)"

definition allocpid :: "'a kproc_scheme \<Rightarrow> cint \<times> 'a kproc_scheme" where
  "allocpid s = (nextpid s, s\<lparr>nextpid := nextpid s + 1\<rparr>)"

subsection \<open>Sleeping and waking\<close>

text \<open>
  \<open>sleep_begin\<close> is \<open>sleep\<close> up to the switch to the scheduler, \<open>sleep_end\<close> what
  runs when the process is dispatched again.
\<close>

definition sleep_begin :: "nat \<Rightarrow> chan \<Rightarrow> 'a kproc_scheme \<Rightarrow> 'a kproc_scheme" where
  "sleep_begin p ch s = upd_proc p (\<lambda>pr. pr\<lparr>p_chan := Some ch, p_state := SLEEPING\<rparr>) s"

definition sleep_end :: "nat \<Rightarrow> 'a kproc_scheme \<Rightarrow> 'a kproc_scheme" where
  "sleep_end p s = upd_proc p (\<lambda>pr. pr\<lparr>p_chan := None\<rparr>) s"

definition wakeup :: "chan option \<Rightarrow> 'a kproc_scheme \<Rightarrow> 'a kproc_scheme" where
  "wakeup ch s =
     for_procs (\<lambda>i pr. if Some i \<noteq> myproc s \<and> p_state pr = SLEEPING \<and> p_chan pr = ch
                        then pr\<lparr>p_state := RUNNABLE\<rparr> else pr) s"

definition yield :: "nat \<Rightarrow> 'a kproc_scheme \<Rightarrow> 'a kproc_scheme" where
  "yield p s = upd_proc p (\<lambda>pr. pr\<lparr>p_state := RUNNABLE\<rparr>) s"

definition kill :: "cint \<Rightarrow> 'a kproc_scheme \<Rightarrow> cint \<times> 'a kproc_scheme" where
  "kill pid s =
     (case find (\<lambda>i. p_pid (proc_at s i) = pid) [0..<NPROC] of
        None \<Rightarrow> (-1, s)
      | Some i \<Rightarrow>
          (0, upd_proc i (\<lambda>pr. let pr1 = pr\<lparr>p_killed := 1\<rparr>
                               in if p_state pr1 = SLEEPING then pr1\<lparr>p_state := RUNNABLE\<rparr> else pr1) s))"

subsection \<open>Parents\<close>

text \<open>The loop wakes \<^verbatim>\<open>initproc\<close> once for each child it moves.\<close>

definition reparent_one :: "nat \<Rightarrow> nat \<Rightarrow> 'a kproc_scheme \<Rightarrow> 'a kproc_scheme" where
  "reparent_one p pp s =
     (if p_parent (proc_at s pp) = Some p
      then wakeup (map_option ChanProc (initproc s)) (upd_proc pp (\<lambda>pr. pr\<lparr>p_parent := initproc s\<rparr>) s)
      else s)"

definition reparent :: "nat \<Rightarrow> 'a kproc_scheme \<Rightarrow> 'a kproc_scheme" where
  "reparent p s = fold (reparent_one p) [0..<NPROC] s"

subsection \<open>Priorities and time accounting\<close>

definition actually_set_priority :: "cint \<Rightarrow> cint \<Rightarrow> 'a kproc_scheme \<Rightarrow> cint \<times> 'a kproc_scheme" where
  "actually_set_priority new_priority pid s =
     (case find (\<lambda>i. p_pid (proc_at s i) = pid) [0..<NPROC] of
        None \<Rightarrow> (-1, s)
      | Some i \<Rightarrow>
          (p_static_priority (proc_at s i),
           upd_proc i (\<lambda>pr. pr\<lparr>p_static_priority := new_priority, p_niceness := 5, p_sleep_time := 0\<rparr>) s))"

definition update_time :: "'a kproc_scheme \<Rightarrow> 'a kproc_scheme" where
  "update_time s =
     for_procs (\<lambda>i pr. if p_state pr = RUNNING then pr\<lparr>p_rtime := p_rtime pr + 1\<rparr> else pr) s"

end
