(* ===== verification/Xv6_Memory.thy ===== *)
theory Xv6_Memory
  imports Xv6_Layout
begin

section \<open>Bytes in memory and in objects (kernel/string.c)\<close>

text \<open>
  Physical memory is a function from addresses to bytes; a 64-bit or 32-bit access is eight or
  four bytes, least significant first. \<open>memset\<close> and \<open>memmove\<close> are the loops of
  kernel/string.c on it. The functions that the kernel applies to its own character arrays
  (\<open>memcmp\<close>, \<open>strncmp\<close>, \<open>strncpy\<close>, \<open>safestrcpy\<close>, \<open>strlen\<close>) work on the list of bytes from a
  pointer to the end of its object; a byte past the end reads as 0.
\<close>

type_synonym mem = "uint64 \<Rightarrow> uchar"

definition load_bytes :: "mem \<Rightarrow> uint64 \<Rightarrow> nat \<Rightarrow> uchar list" where
  "load_bytes m a n = map (\<lambda>i. m (a + word_of_nat i)) [0..<n]"

definition store_bytes :: "uint64 \<Rightarrow> uchar list \<Rightarrow> mem \<Rightarrow> mem" where
  "store_bytes a bs m = (\<lambda>x. if unat (x - a) < length bs then bs ! unat (x - a) else m x)"

text \<open>Little-endian encoding of a word in \<open>n\<close> bytes.\<close>

definition le_bytes :: "nat \<Rightarrow> 'a::len word \<Rightarrow> uchar list" where
  "le_bytes n v = map (\<lambda>i. ucast (drop_bit (8 * i) v)) [0..<n]"

fun le_word :: "uchar list \<Rightarrow> 'a::len word" where
  "le_word [] = 0"
| "le_word (b # bs) = ucast b OR push_bit 8 (le_word bs)"

definition load64 :: "mem \<Rightarrow> uint64 \<Rightarrow> uint64" where
  "load64 m a = le_word (load_bytes m a 8)"

definition store64 :: "uint64 \<Rightarrow> uint64 \<Rightarrow> mem \<Rightarrow> mem" where
  "store64 a v m = store_bytes a (le_bytes 8 v) m"

subsection \<open>memset and memmove\<close>

definition memset :: "uint64 \<Rightarrow> cint \<Rightarrow> uint \<Rightarrow> mem \<Rightarrow> mem" where
  "memset dst c n m = fold (\<lambda>i m. m(dst + word_of_nat i := ucast c)) [0..<unat n] m"

definition copy_byte :: "uint64 \<Rightarrow> uint64 \<Rightarrow> nat \<Rightarrow> mem \<Rightarrow> mem" where
  "copy_byte dst src i m = m(dst + word_of_nat i := m (src + word_of_nat i))"

definition memmove :: "uint64 \<Rightarrow> uint64 \<Rightarrow> uint \<Rightarrow> mem \<Rightarrow> mem" where
  "memmove dst src n m =
     (if n = 0 then m
      else if src < dst \<and> dst < src + ucast n
      then fold (copy_byte dst src) (rev [0..<unat n]) m
      else fold (copy_byte dst src) [0..<unat n] m)"

subsection \<open>Strings and byte arrays of the kernel\<close>

definition byte0 :: "uchar list \<Rightarrow> uchar" where
  "byte0 bs = (case bs of [] \<Rightarrow> 0 | b # _ \<Rightarrow> b)"

fun memcmp :: "uchar list \<Rightarrow> uchar list \<Rightarrow> nat \<Rightarrow> cint" where
  "memcmp s1 s2 0 = 0"
| "memcmp s1 s2 (Suc n) =
     (if byte0 s1 \<noteq> byte0 s2 then ucast (byte0 s1) - ucast (byte0 s2)
      else memcmp (tl s1) (tl s2) n)"

fun strncmp :: "uchar list \<Rightarrow> uchar list \<Rightarrow> nat \<Rightarrow> cint" where
  "strncmp p q 0 = 0"
| "strncmp p q (Suc n) =
     (if byte0 p \<noteq> 0 \<and> byte0 p = byte0 q then strncmp (tl p) (tl q) n
      else ucast (byte0 p) - ucast (byte0 q))"

text \<open>
  \<open>strncpy t n\<close> and \<open>safestrcpy t n\<close> are the bytes that the C functions write to the start of
  the destination; \<open>overlay\<close> puts them into the old contents.
\<close>

fun strncpy :: "uchar list \<Rightarrow> nat \<Rightarrow> uchar list" where
  "strncpy t 0 = []"
| "strncpy t (Suc n) = byte0 t # (if byte0 t = 0 then replicate n 0 else strncpy (tl t) n)"

fun safestrcpy :: "uchar list \<Rightarrow> nat \<Rightarrow> uchar list" where
  "safestrcpy t 0 = []"
| "safestrcpy t (Suc 0) = [0]"
| "safestrcpy t (Suc (Suc n)) = byte0 t # (if byte0 t = 0 then [0] else safestrcpy (tl t) (Suc n))"

definition overlay :: "uchar list \<Rightarrow> uchar list \<Rightarrow> uchar list" where
  "overlay new old = new @ drop (length new) old"

fun strlen :: "uchar list \<Rightarrow> nat" where
  "strlen [] = 0"
| "strlen (b # bs) = (if b = 0 then 0 else Suc (strlen bs))"

definition cstring :: "uchar list \<Rightarrow> uchar list" where
  "cstring bs = takeWhile (\<lambda>b. b \<noteq> 0) bs"

subsection \<open>Loads and stores\<close>

lemma length_load_bytes [simp]: "length (load_bytes m a n) = n"
  by (simp add: load_bytes_def)

lemma load_bytes_nth: "i < n \<Longrightarrow> load_bytes m a n ! i = m (a + word_of_nat i)"
  by (simp add: load_bytes_def)

lemma load_bytes_cong:
  "(\<And>i. i < n \<Longrightarrow> m (a + word_of_nat i) = m' (a + word_of_nat i)) \<Longrightarrow> load_bytes m a n = load_bytes m' a n"
  by (simp add: load_bytes_def)

lemma unat_offset: "i < 2 ^ 64 \<Longrightarrow> unat (a + word_of_nat i - a) = i" for a :: uint64
  by simp

lemma store_bytes_in:
  "i < length bs \<Longrightarrow> length bs \<le> 2 ^ 64 \<Longrightarrow> store_bytes a bs m (a + word_of_nat i) = bs ! i"
  by (simp add: store_bytes_def)

lemma load_store_bytes_same:
  "length bs \<le> 2 ^ 64 \<Longrightarrow> load_bytes (store_bytes a bs m) a (length bs) = bs"
  by (rule nth_equalityI) (simp_all add: load_bytes_nth store_bytes_in)

text \<open>Two ranges of addresses with no common byte.\<close>

definition disjoint_range :: "uint64 \<Rightarrow> nat \<Rightarrow> uint64 \<Rightarrow> nat \<Rightarrow> bool" where
  "disjoint_range a n b k \<longleftrightarrow> (\<forall>i<n. k \<le> unat (a + word_of_nat i - b))"

lemma store_bytes_out:
  "disjoint_range a n b (length bs) \<Longrightarrow> i < n \<Longrightarrow>
    store_bytes b bs m (a + word_of_nat i) = m (a + word_of_nat i)"
  using not_le by (fastforce simp: store_bytes_def disjoint_range_def)

lemma load_store_bytes_disjoint:
  "disjoint_range a n b (length bs) \<Longrightarrow> load_bytes (store_bytes b bs m) a n = load_bytes m a n"
  by (rule load_bytes_cong) (simp add: store_bytes_out)

lemma length_le_bytes [simp]: "length (le_bytes n v) = n"
  by (simp add: le_bytes_def)

lemma le_word_le_bytes: "le_word (le_bytes n v) = take_bit (8 * n) v"
proof (induction n arbitrary: v)
  case 0
  then show ?case by (simp add: le_bytes_def)
next
  case (Suc n)
  have "le_bytes (Suc n) v = ucast v # le_bytes n (drop_bit 8 v)"
    by (simp add: le_bytes_def upt_conv_Cons[of 0] map_Suc_upt[symmetric] add.commute del: upt_Suc)
  with Suc.IH[of "drop_bit 8 v"] show ?case
    by (simp, intro bit_word_eqI) (auto simp: bit_simps)
qed

lemma le_word_le_bytes_64 [simp]: "le_word (le_bytes 8 v) = v" for v :: uint64
  by (simp add: le_word_le_bytes take_bit_word_eq_self)

lemma le_word_le_bytes_32 [simp]: "le_word (le_bytes 4 v) = v" for v :: uint
  by (simp add: le_word_le_bytes take_bit_word_eq_self)

lemma le_word_le_bytes_16 [simp]: "le_word (le_bytes 2 v) = v" for v :: ushort
  by (simp add: le_word_le_bytes take_bit_word_eq_self)

lemma load64_store64 [simp]: "load64 (store64 a v m) a = v"
proof -
  have "load_bytes (store_bytes a (le_bytes 8 v) m) a 8 = le_bytes 8 v"
    using load_store_bytes_same[of "le_bytes 8 v" a m] by simp
  then show ?thesis by (simp add: load64_def store64_def)
qed

lemma load64_cong: "load_bytes m a 8 = load_bytes m' a 8 \<Longrightarrow> load64 m a = load64 m' a"
  by (simp add: load64_def)

lemma load64_store_disjoint:
  "disjoint_range a 8 b (length bs) \<Longrightarrow> load64 (store_bytes b bs m) a = load64 m a"
  by (rule load64_cong) (rule load_store_bytes_disjoint)

subsection \<open>memset and memmove write what they should\<close>

lemma word_of_nat_diff_offset:
  "i < n \<Longrightarrow> n \<le> 2 ^ 64 \<Longrightarrow> (x = a + word_of_nat i) \<longleftrightarrow> unat (x - a) = i" for x a :: uint64
proof
  assume "i < n" "n \<le> 2 ^ 64" "unat (x - a) = i"
  then have "word_of_nat (unat (x - a)) = (word_of_nat i :: uint64)" by simp
  then have "x - a = word_of_nat i" by simp
  then show "x = a + word_of_nat i" by (simp add: algebra_simps)
qed simp

lemma fold_upd_bytes:
  assumes "n \<le> 2 ^ 64"
  shows "fold (\<lambda>i m. m(a + word_of_nat i := f i)) [0..<n] m = store_bytes a (map f [0..<n]) m"
  using assms
proof (induction n)
  case 0
  then show ?case by (simp add: store_bytes_def)
next
  case (Suc n)
  then have IH: "fold (\<lambda>i m. m(a + word_of_nat i := f i)) [0..<n] m = store_bytes a (map f [0..<n]) m"
    by (simp only: Suc_leD)
  show ?case
  proof
    fix x
    have "x = a + word_of_nat n \<longleftrightarrow> unat (x - a) = n"
      using Suc.prems by (intro word_of_nat_diff_offset[of n "Suc n"]) auto
    then show "fold (\<lambda>i m. m(a + word_of_nat i := f i)) [0..<Suc n] m x =
        store_bytes a (map f [0..<Suc n]) m x"
      unfolding upt_Suc_append[OF le0] fold_append comp_apply IH
      by (auto simp: store_bytes_def nth_append less_Suc_eq)
  qed
qed

lemma memset_bytes: "memset dst c n m = store_bytes dst (replicate (unat n) (ucast c)) m"
proof -
  have "unat n < 2 ^ 64"
    using unat_lt[of n] by simp
  then show ?thesis
    unfolding memset_def by (subst fold_upd_bytes) (simp_all add: map_replicate_const)
qed

text \<open>
  \<open>memmove\<close> copies the old bytes of the source even when the ranges overlap, provided that
  neither range wraps around the end of the address space.
\<close>

lemma copy_forward:
  assumes "k \<le> n" "n \<le> 2 ^ 64" and "\<And>i j. i < j \<Longrightarrow> j < n \<Longrightarrow> src + word_of_nat j \<noteq> dst + word_of_nat i"
  shows "fold (copy_byte dst src) [0..<k] m = store_bytes dst (map (\<lambda>i. m (src + word_of_nat i)) [0..<k]) m"
  using assms(1)
proof (induction k)
  case 0
  then show ?case by (simp add: store_bytes_def)
next
  case (Suc k)
  let ?m = "store_bytes dst (map (\<lambda>i. m (src + word_of_nat i)) [0..<k]) m"
  have IH: "fold (copy_byte dst src) [0..<k] m = ?m"
    using Suc by simp
  have rd: "?m (src + word_of_nat k) = m (src + word_of_nat k)"
  proof (cases "unat (src + word_of_nat k - dst) < k")
    case True
    have "src + word_of_nat k = dst + word_of_nat (unat (src + word_of_nat k - dst))" by simp
    with assms(3)[OF True] Suc.prems show ?thesis by simp
  qed (simp add: store_bytes_def)
  have at: "x = dst + word_of_nat k \<longleftrightarrow> unat (x - dst) = k" for x
    using Suc.prems assms(2) by (intro word_of_nat_diff_offset[of k n]) auto
  show ?case
  proof
    fix x
    show "fold (copy_byte dst src) [0..<Suc k] m x =
        store_bytes dst (map (\<lambda>i. m (src + word_of_nat i)) [0..<Suc k]) m x"
      unfolding upt_Suc_append[OF le0] fold_append comp_apply IH
      using rd at[of x] by (auto simp: copy_byte_def store_bytes_def nth_append less_Suc_eq)
  qed
qed

lemma copy_backward:
  assumes "k \<le> n" "n \<le> 2 ^ 64" and "\<And>i j. i < j \<Longrightarrow> j < n \<Longrightarrow> src + word_of_nat i \<noteq> dst + word_of_nat j"
  shows "fold (copy_byte dst src) (rev [k..<n]) m =
    (\<lambda>x. if k \<le> unat (x - dst) \<and> unat (x - dst) < n then m (src + word_of_nat (unat (x - dst))) else m x)"
  using assms(1)
proof (induction "n - k" arbitrary: k)
  case 0
  then have "k = n" by simp
  then show ?case by (auto simp: fun_eq_iff)
next
  case (Suc d)
  let ?m = "\<lambda>x. if Suc k \<le> unat (x - dst) \<and> unat (x - dst) < n
    then m (src + word_of_nat (unat (x - dst))) else m x"
  have k: "k < n" using Suc.hyps(2) by simp
  have IH: "fold (copy_byte dst src) (rev [Suc k..<n]) m = ?m"
    using Suc.hyps(1)[of "Suc k"] Suc.hyps(2) k by simp
  have rd: "?m (src + word_of_nat k) = m (src + word_of_nat k)"
  proof (cases "Suc k \<le> unat (src + word_of_nat k - dst) \<and> unat (src + word_of_nat k - dst) < n")
    case True
    have "src + word_of_nat k = dst + word_of_nat (unat (src + word_of_nat k - dst))" by simp
    with assms(3)[of k "unat (src + word_of_nat k - dst)"] True show ?thesis by simp
  next
    case False
    then show ?thesis by (simp only: if_False)
  qed
  have at: "x = dst + word_of_nat k \<longleftrightarrow> unat (x - dst) = k" for x
    using k assms(2) by (rule word_of_nat_diff_offset)
  have "fold (copy_byte dst src) (rev [k..<n]) m = copy_byte dst src k ?m"
    unfolding upt_conv_Cons[OF k] rev.simps fold_append comp_apply IH by simp
  also have "\<dots> = (\<lambda>x. if k \<le> unat (x - dst) \<and> unat (x - dst) < n
      then m (src + word_of_nat (unat (x - dst))) else m x)"
  proof
    fix x
    show "copy_byte dst src k ?m x = (if k \<le> unat (x - dst) \<and> unat (x - dst) < n
        then m (src + word_of_nat (unat (x - dst))) else m x)"
      using rd at[of x] k by (cases "unat (x - dst) = k") (auto simp: copy_byte_def)
  qed
  finally show ?case .
qed

lemma unat_add_offset: "unat a + i < 2 ^ 64 \<Longrightarrow> unat (a + word_of_nat i) = unat a + i" for a :: uint64
  by (simp add: unat_word_ariths)

lemma memmove_bytes:
  assumes "unat src + unat n < 2 ^ 64" and "unat dst + unat n < 2 ^ 64"
  shows "memmove dst src n m = store_bytes dst (load_bytes m src (unat n)) m"
proof -
  have n: "unat n \<le> 2 ^ 64" using assms(1) by linarith
  have off: "unat (src + word_of_nat i) = unat src + i" "unat (dst + word_of_nat i) = unat dst + i"
    if "i < unat n" for i
    using that assms by (auto intro!: unat_add_offset)
  have neq: "src + word_of_nat i \<noteq> dst + word_of_nat j"
    if "i < unat n" "j < unat n" "unat src + i \<noteq> unat dst + j" for i j
    using off[of i] off[of j] that by metis
  have top: "unat (src + ucast n) = unat src + unat n"
    using assms(1) unat_add_offset[of src "unat n"] by simp
  consider "n = 0" | "n \<noteq> 0" "src < dst" "dst < src + ucast n" | "n \<noteq> 0" "dst \<le> src \<or> src + ucast n \<le> dst"
    by fastforce
  then show ?thesis
  proof cases
    case 1
    then show ?thesis by (simp add: memmove_def store_bytes_def)
  next
    case 2
    have "fold (copy_byte dst src) (rev [0..<unat n]) m =
        (\<lambda>x. if 0 \<le> unat (x - dst) \<and> unat (x - dst) < unat n
          then m (src + word_of_nat (unat (x - dst))) else m x)"
      using 2 n by (intro copy_backward neq) (auto simp: word_less_nat_alt)
    then show ?thesis
      using 2 by (auto simp: memmove_def store_bytes_def load_bytes_def)
  next
    case 3
    have "fold (copy_byte dst src) [0..<unat n] m =
        store_bytes dst (map (\<lambda>i. m (src + word_of_nat i)) [0..<unat n]) m"
      using 3 n top by (intro copy_forward[of _ "unat n"] neq) (auto simp: word_le_nat_alt)
    then show ?thesis
      using 3 by (auto simp: memmove_def load_bytes_def)
  qed
qed

subsection \<open>String functions\<close>

lemma length_strncpy [simp]: "length (strncpy t n) = n"
  by (induction t n rule: strncpy.induct) auto

lemma strlen_cstring: "strlen bs = length (cstring bs)"
  by (induction bs rule: strlen.induct) (auto simp: cstring_def)

text \<open>\<open>safestrcpy\<close> with a positive size always leaves a null-terminated string.\<close>

lemma length_safestrcpy: "length (safestrcpy t n) \<le> n"
  by (induction t n rule: safestrcpy.induct) auto

lemma cstring_safestrcpy:
  "0 < n \<Longrightarrow> cstring (safestrcpy t n @ rest) = take (n - 1) (cstring t)"
proof (induction t n rule: safestrcpy.induct)
  case (3 t n)
  then show ?case by (cases t) (auto simp: byte0_def cstring_def)
qed (auto simp: cstring_def)

text \<open>
  \<open>strncmp\<close> is zero exactly for strings that agree up to their end or to the first \<open>n\<close> bytes.
\<close>

lemma ucast_uchar_eq [simp]: "(ucast a :: cint) = ucast b \<longleftrightarrow> a = b" for a b :: uchar
proof
  have narrow: "(ucast (ucast x :: cint) :: uchar) = x" for x :: uchar
    by (intro bit_word_eqI) (simp add: bit_simps)
  assume "(ucast a :: cint) = ucast b"
  then show "a = b" by (metis narrow)
qed simp

lemma ucast_uchar_zero [simp]: "(ucast a :: cint) = 0 \<longleftrightarrow> a = 0" for a :: uchar
  using ucast_uchar_eq[of a 0] by simp

lemma strncmp_zero:
  "strncmp p q n = 0 \<longleftrightarrow> take n (cstring p) = take n (cstring q)"
proof (induction p q n rule: strncmp.induct)
  case (2 p q n)
  then show ?case
    by (cases p; cases q) (auto simp: byte0_def cstring_def)
qed simp

lemma memcmp_zero:
  "n \<le> length s1 \<Longrightarrow> n \<le> length s2 \<Longrightarrow> memcmp s1 s2 n = 0 \<longleftrightarrow> take n s1 = take n s2"
proof (induction s1 s2 n rule: memcmp.induct)
  case (2 s1 s2 n)
  then show ?case
    by (cases s1; cases s2) (auto simp: byte0_def)
qed simp

end
