(* ===== verification/Xv6_Kalloc.thy ===== *)
theory Xv6_Kalloc
  imports Xv6_Memory
begin

section \<open>The physical page allocator (kernel/kalloc.c)\<close>

text \<open>
  The free pages form a linked list through their own first eight bytes. \<open>kmem\<close> is the RAM
  with the head of that list; the symbols that kernel.ld defines (\<^verbatim>\<open>end\<close>, \<^verbatim>\<open>etext\<close>,
  \<^verbatim>\<open>trampoline\<close>) are read-only fields of it, since their values come from the link. The
  contract of the allocator is the interface \<open>page_allocator\<close>, over the list of free pages.
\<close>

record kmem =
  ram :: mem
  freelist :: uint64
  sym_end :: uint64
  sym_etext :: uint64
  sym_trampoline :: uint64

definition kfree :: "uint64 \<Rightarrow> kmem \<Rightarrow> kmem kres" where
  "kfree pa s =
     (if pa mod PGSIZE \<noteq> 0 \<or> pa < sym_end s \<or> PHYSTOP \<le> pa then Panic ''kfree''
      else
        let m1 = memset pa 1 4096 (ram s);
            m2 = store64 pa (freelist s) m1
        in Ok (s\<lparr>ram := m2, freelist := pa\<rparr>))"

definition kalloc :: "kmem \<Rightarrow> uint64 \<times> kmem" where
  "kalloc s =
     (let r = freelist s;
          s1 = (if r \<noteq> 0 then s\<lparr>freelist := load64 (ram s) r\<rparr> else s);
          s2 = (if r \<noteq> 0 then s1\<lparr>ram := memset r 5 4096 (ram s1)\<rparr> else s1)
      in (r, s2))"

text \<open>
  The loop of \<open>freerange\<close>; the number of pages below the end of the range bounds its
  iterations.
\<close>

fun freerange_loop :: "nat \<Rightarrow> uint64 \<Rightarrow> uint64 \<Rightarrow> kmem \<Rightarrow> kmem kres" where
  "freerange_loop 0 p pa_end s = Hang"
| "freerange_loop (Suc fuel) p pa_end s =
     (if p + PGSIZE \<le> pa_end
      then kbind (kfree p s) (freerange_loop fuel (p + PGSIZE) pa_end)
      else Ok s)"

definition freerange :: "uint64 \<Rightarrow> uint64 \<Rightarrow> kmem \<Rightarrow> kmem kres" where
  "freerange pa_start pa_end s =
     freerange_loop (unat pa_end div PGBYTES + 1) (PGROUNDUP pa_start) pa_end s"

definition kinit :: "kmem \<Rightarrow> kmem kres" where
  "kinit s = freerange (sym_end s) PHYSTOP s"

subsection \<open>Pages\<close>

definition aligned :: "uint64 \<Rightarrow> bool" where
  "aligned p \<longleftrightarrow> p mod PGSIZE = 0"

lemma aligned_uint: "aligned p \<longleftrightarrow> 4096 dvd uint p"
  by (simp add: aligned_def word_uint_eq_iff uint_mod dvd_eq_mod_eq_0)

lemma aligned_diff: "aligned p \<Longrightarrow> aligned q \<Longrightarrow> aligned (p - q)"
  unfolding aligned_uint uint_word_ariths by (intro dvd_mod dvd_diff) simp_all

lemma aligned_add: "aligned p \<Longrightarrow> aligned q \<Longrightarrow> aligned (p + q)"
  unfolding aligned_uint uint_word_ariths by (intro dvd_mod dvd_add) simp_all

lemma aligned_unat: "aligned p \<longleftrightarrow> unat p mod PGBYTES = 0"
  by (simp add: aligned_def word_unat_eq_iff unat_mod)

lemma page_multiple:
  fixes d :: nat
  assumes "d mod 4096 = 0" "d \<noteq> 0" "d < 2 ^ 64"
  shows "4096 \<le> d" and "d + 4096 \<le> 2 ^ 64"
proof -
  from assms(1) have "4096 dvd d" by (simp add: mod_eq_0_iff_dvd)
  then obtain k where k: "d = 4096 * k" by (elim dvdE)
  show "4096 \<le> d" using k assms(2) by simp
  have "k < 4503599627370496" using k assms(3) by simp
  then show "d + 4096 \<le> 2 ^ 64" using k by simp
qed

lemma page_disjoint:
  assumes "aligned p" "aligned q" "p \<noteq> q" "off + n \<le> PGBYTES"
  shows "disjoint_range (p + word_of_nat off) n q PGBYTES"
  unfolding disjoint_range_def
proof (intro allI impI)
  fix i
  assume i: "i < n"
  let ?d = "unat (p - q)"
  have "?d mod 4096 = 0" using aligned_diff[OF assms(1,2)] by (simp add: aligned_unat)
  moreover have "?d \<noteq> 0" using assms(3) by (simp add: unat_eq_0)
  moreover have "?d < 2 ^ 64" using unat_lt[of "p - q"] by simp
  ultimately have d: "4096 \<le> ?d" "?d + 4096 \<le> 2 ^ 64"
    by (rule page_multiple)+
  have eq: "p + word_of_nat off + word_of_nat i - q = (p - q) + word_of_nat (off + i)"
    by (simp add: algebra_simps)
  have "unat ((p - q) + word_of_nat (off + i)) = ?d + (off + i)"
    using d i assms(4) by (intro unat_add_offset) linarith
  then show "4096 \<le> unat (p + word_of_nat off + word_of_nat i - q)"
    unfolding eq using d(1) by linarith
qed

text \<open>Writes within one page leave every other page alone.\<close>

definition same_page :: "uint64 \<Rightarrow> mem \<Rightarrow> mem \<Rightarrow> bool" where
  "same_page p m m' \<longleftrightarrow> load_bytes m' p PGBYTES = load_bytes m p PGBYTES"

lemma same_page_refl [simp]: "same_page p m m"
  by (simp add: same_page_def)

lemma same_page_trans: "same_page p m1 m2 \<Longrightarrow> same_page p m2 m3 \<Longrightarrow> same_page p m1 m3"
  by (simp add: same_page_def)

lemma same_page_byte: "same_page p m m' \<Longrightarrow> i < PGBYTES \<Longrightarrow> m' (p + word_of_nat i) = m (p + word_of_nat i)"
  unfolding same_page_def by (metis load_bytes_nth)

lemma same_page_load64:
  assumes "same_page p m m'" "off + 8 \<le> PGBYTES"
  shows "load64 m' (p + word_of_nat off) = load64 m (p + word_of_nat off)"
proof (rule load64_cong, rule load_bytes_cong)
  fix i :: nat
  assume "i < 8"
  with assms(2) have "off + i < PGBYTES" by simp
  from same_page_byte[OF assms(1) this]
  show "m' (p + word_of_nat off + word_of_nat i) = m (p + word_of_nat off + word_of_nat i)"
    by (simp add: add.assoc)
qed

lemma disjoint_range_shift:
  assumes "disjoint_range a n b k" and "off + j \<le> k" and "k \<le> 2 ^ 64"
  shows "disjoint_range a n (b + word_of_nat off) j"
  unfolding disjoint_range_def
proof (intro allI impI)
  fix i
  assume "i < n"
  with assms(1) have k: "k \<le> unat (a + word_of_nat i - b)" by (simp add: disjoint_range_def)
  have eq: "a + word_of_nat i - (b + word_of_nat off) = (a + word_of_nat i - b) - word_of_nat off"
    by (simp add: algebra_simps)
  have "off < 2 ^ 64 \<or> off = 2 ^ 64" using assms(2,3) by linarith
  then have "unat (word_of_nat off :: uint64) \<le> unat (a + word_of_nat i - b)"
    using k assms(2) by (auto simp: unat_of_nat)
  then have "unat ((a + word_of_nat i - b) - word_of_nat off) =
      unat (a + word_of_nat i - b) - unat (word_of_nat off :: uint64)"
    by (simp add: unat_sub word_le_nat_alt)
  with k assms(2) show "j \<le> unat (a + word_of_nat i - (b + word_of_nat off))"
    using \<open>off < 2 ^ 64 \<or> off = 2 ^ 64\<close> by (auto simp: eq unat_of_nat)
qed

lemma same_page_store:
  assumes "aligned p" "aligned q" "p \<noteq> q" "off + length bs \<le> PGBYTES"
  shows "same_page p m (store_bytes (q + word_of_nat off) bs m)"
proof -
  have "disjoint_range (p + word_of_nat 0) PGBYTES q PGBYTES"
    using assms(1-3) by (intro page_disjoint) simp_all
  then have "disjoint_range p PGBYTES (q + word_of_nat off) (length bs)"
    using assms(4) by (intro disjoint_range_shift[where k = PGBYTES]) simp_all
  then show ?thesis
    unfolding same_page_def by (rule load_store_bytes_disjoint)
qed

subsection \<open>The free list\<close>

fun free_chain :: "mem \<Rightarrow> uint64 \<Rightarrow> uint64 list \<Rightarrow> bool" where
  "free_chain m p [] \<longleftrightarrow> p = 0"
| "free_chain m p (x # xs) \<longleftrightarrow> p = x \<and> x \<noteq> 0 \<and> free_chain m (load64 m x) xs"

definition page_ok :: "kmem \<Rightarrow> uint64 \<Rightarrow> bool" where
  "page_ok s p \<longleftrightarrow> aligned p \<and> sym_end s \<le> p \<and> p < PHYSTOP"

definition kmem_inv :: "kmem \<Rightarrow> uint64 list \<Rightarrow> bool" where
  "kmem_inv s ps \<longleftrightarrow> free_chain (ram s) (freelist s) ps \<and> distinct ps \<and>
     (\<forall>p\<in>set ps. page_ok s p) \<and> KERNBASE \<le> sym_end s"

definition same_syms :: "kmem \<Rightarrow> kmem \<Rightarrow> bool" where
  "same_syms s t \<longleftrightarrow> sym_end t = sym_end s \<and> sym_etext t = sym_etext s \<and> sym_trampoline t = sym_trampoline s"

lemma same_syms_refl [simp]: "same_syms s s"
  by (simp add: same_syms_def)

lemma same_syms_trans: "same_syms s t \<Longrightarrow> same_syms t u \<Longrightarrow> same_syms s u"
  by (simp add: same_syms_def)

lemma page_ok_same_syms: "same_syms s t \<Longrightarrow> page_ok t p = page_ok s p"
  by (simp add: same_syms_def page_ok_def)

lemma kmem_invD:
  assumes "kmem_inv s ps"
  shows "free_chain (ram s) (freelist s) ps" "distinct ps" "\<And>p. p \<in> set ps \<Longrightarrow> page_ok s p"
    "KERNBASE \<le> sym_end s"
  using assms by (simp_all add: kmem_inv_def)

lemma page_ok_nonzero: "page_ok s p \<Longrightarrow> KERNBASE \<le> sym_end s \<Longrightarrow> p \<noteq> 0"
  by (auto simp: page_ok_def)

lemma page_ok_aligned: "page_ok s p \<Longrightarrow> aligned p"
  by (simp add: page_ok_def)

lemma free_chain_same:
  "\<forall>x\<in>set ps. same_page x m m' \<Longrightarrow> free_chain m p ps \<Longrightarrow> free_chain m' p ps"
proof (induction ps arbitrary: p)
  case (Cons x ps)
  have "load64 m' (x + word_of_nat 0) = load64 m (x + word_of_nat 0)"
    by (rule same_page_load64) (use Cons.prems in simp_all)
  with Cons show ?case by simp
qed simp

lemma kmem_inv_same:
  assumes "kmem_inv s ps" "freelist t = freelist s" "same_syms s t"
    and "\<And>p. p \<in> set ps \<Longrightarrow> same_page p (ram s) (ram t)"
  shows "kmem_inv t ps"
  using assms free_chain_same[of ps "ram s" "ram t" "freelist s"]
  by (simp add: kmem_inv_def page_ok_same_syms same_syms_def page_ok_def)

lemma same_page_memset:
  "aligned p \<Longrightarrow> aligned q \<Longrightarrow> p \<noteq> q \<Longrightarrow> same_page p m (memset q c 4096 m)"
  using same_page_store[of p q 0 "replicate 4096 (ucast c)" m] by (simp add: memset_bytes)

lemma same_page_store64:
  "aligned p \<Longrightarrow> aligned q \<Longrightarrow> p \<noteq> q \<Longrightarrow> off + 8 \<le> PGBYTES \<Longrightarrow>
    same_page p m (store64 (q + word_of_nat off) v m)"
  unfolding store64_def by (rule same_page_store) simp_all

lemma kfree_ok:
  assumes inv: "kmem_inv s ps" and p: "page_ok s p" "p \<notin> set ps"
  shows "\<exists>t. kfree p s = Ok t \<and> kmem_inv t (p # ps) \<and> same_syms s t \<and>
    (\<forall>q. aligned q \<longrightarrow> q \<noteq> p \<longrightarrow> same_page q (ram s) (ram t))"
proof -
  let ?m = "store64 p (freelist s) (memset p 1 4096 (ram s))"
  let ?t = "s\<lparr>ram := ?m, freelist := p\<rparr>"
  have other: "same_page q (ram s) ?m" if "aligned q" "q \<noteq> p" for q
    using that page_ok_aligned[OF p(1)] same_page_memset[of q p "ram s" 1]
      same_page_store64[of q p 0 "memset p 1 4096 (ram s)" "freelist s"]
    by (auto intro: same_page_trans)
  have "\<forall>x\<in>set ps. same_page x (ram s) ?m"
  proof
    fix x
    assume "x \<in> set ps"
    with p(2) kmem_invD(3)[OF inv] show "same_page x (ram s) ?m"
      by (intro other) (auto dest: page_ok_aligned)
  qed
  from free_chain_same[OF this kmem_invD(1)[OF inv]] have "free_chain ?m (freelist s) ps" .
  then have "kmem_inv ?t (p # ps)"
    using kmem_invD[OF inv] p page_ok_nonzero[OF p(1)] by (simp add: kmem_inv_def page_ok_def)
  moreover have "kfree p s = Ok ?t"
    using p(1) by (auto simp: kfree_def page_ok_def aligned_def Let_def)
  ultimately show ?thesis using other by (auto simp: same_syms_def)
qed

lemma kalloc_ok:
  assumes inv: "kmem_inv s (p # ps)"
  shows "\<exists>t. kalloc s = (p, t) \<and> kmem_inv t ps \<and> same_syms s t \<and>
    load_bytes (ram t) p PGBYTES = replicate PGBYTES 5 \<and>
    (\<forall>q. aligned q \<longrightarrow> q \<noteq> p \<longrightarrow> same_page q (ram s) (ram t))"
proof -
  note D = kmem_invD[OF inv]
  have p: "page_ok s p" "freelist s = p" "p \<noteq> 0" using D(1,3) by auto
  let ?m = "memset p 5 4096 (ram s)"
  let ?t = "s\<lparr>freelist := load64 (ram s) p, ram := ?m\<rparr>"
  have other: "same_page q (ram s) ?m" if "aligned q" "q \<noteq> p" for q
    using that page_ok_aligned[OF p(1)] by (intro same_page_memset) auto
  have "\<forall>x\<in>set ps. same_page x (ram s) ?m"
  proof
    fix x
    assume "x \<in> set ps"
    with D(2,3) show "same_page x (ram s) ?m"
      by (intro other) (auto dest: page_ok_aligned)
  qed
  from free_chain_same[OF this, of "load64 (ram s) p"] D(1) have "free_chain ?m (load64 (ram s) p) ps"
    by simp
  then have "kmem_inv ?t ps"
    using D by (simp add: kmem_inv_def page_ok_def)
  moreover have "kalloc s = (p, ?t)"
    using p by (simp add: kalloc_def Let_def)
  moreover have "load_bytes ?m p PGBYTES = replicate PGBYTES 5"
    using load_store_bytes_same[of "replicate PGBYTES 5" p "ram s"] by (simp add: memset_bytes)
  ultimately show ?thesis using other by (auto simp: same_syms_def)
qed

lemma kalloc_empty: "kmem_inv s [] \<Longrightarrow> kalloc s = (0, s)"
  by (simp add: kalloc_def kmem_inv_def)

lemma kfree_panics: "\<not> page_ok s p \<Longrightarrow> kfree p s = Panic ''kfree''"
  by (auto simp: kfree_def page_ok_def aligned_def not_le not_less)

subsection \<open>The interface of a page allocator\<close>

text \<open>
  What the clients of the allocator rely on. \<open>inv s ps\<close> says that the free pages of \<open>s\<close> are the list
  \<open>ps\<close>. The lemmas follow a client that allocates and gives back pages in any order: \<open>run_pages\<close>
  keeps the list of the pages it holds.
\<close>

datatype page_op = AllocPage | FreeHeld nat

fun run_pages ::
    "('s \<Rightarrow> 'p \<times> 's) \<Rightarrow> ('p \<Rightarrow> 's \<Rightarrow> 's kres) \<Rightarrow> 'p \<Rightarrow> page_op list \<Rightarrow> 'p list \<Rightarrow> 's \<Rightarrow> ('p list \<times> 's) kres"
    where
  "run_pages alloc free null [] held s = Ok (held, s)"
| "run_pages alloc free null (AllocPage # ops) held s =
     (let (p, t) = alloc s
      in run_pages alloc free null ops (if p = null then held else p # held) t)"
| "run_pages alloc free null (FreeHeld k # ops) held s =
     (if k < length held
      then kbind (free (held ! k) s)
             (\<lambda>t. run_pages alloc free null ops (take k held @ drop (Suc k) held) t)
      else run_pages alloc free null ops held s)"

locale page_allocator =
  fixes alloc :: "'s \<Rightarrow> 'p \<times> 's"
    and free :: "'p \<Rightarrow> 's \<Rightarrow> 's kres"
    and inv :: "'s \<Rightarrow> 'p list \<Rightarrow> bool"
    and ok :: "'s \<Rightarrow> 'p \<Rightarrow> bool"
    and null :: 'p
  assumes alloc_some: "inv s (p # ps) \<Longrightarrow> \<exists>t. alloc s = (p, t) \<and> inv t ps \<and> ok t = ok s"
    and alloc_none: "inv s [] \<Longrightarrow> alloc s = (null, s)"
    and free_page: "inv s ps \<Longrightarrow> ok s p \<Longrightarrow> p \<notin> set ps \<Longrightarrow>
      \<exists>t. free p s = Ok t \<and> inv t (p # ps) \<and> ok t = ok s"
    and inv_distinct: "inv s ps \<Longrightarrow> distinct ps"
    and inv_pages: "inv s ps \<Longrightarrow> p \<in> set ps \<Longrightarrow> ok s p \<and> p \<noteq> null"
begin

lemma run_pages_ok:
  assumes "inv s ps" "distinct (held @ ps)" "\<forall>p\<in>set held. ok s p"
  shows "\<exists>held' t ps'. run_pages alloc free null ops held s = Ok (held', t) \<and> inv t ps' \<and>
    distinct (held' @ ps') \<and> set held' \<union> set ps' = set held \<union> set ps \<and> (\<forall>p\<in>set held'. ok t p)"
  using assms
proof (induction ops arbitrary: held s ps)
  case Nil
  then show ?case by auto
next
  case (Cons op ops)
  show ?case
  proof (cases op)
    case AllocPage
    show ?thesis
    proof (cases ps)
      case Nil
      with Cons.IH[OF Cons.prems] Cons.prems(1) AllocPage alloc_none[of s] show ?thesis by simp
    next
      case (Cons p qs)
      then obtain t where t: "alloc s = (p, t)" "inv t qs" "ok t = ok s"
        using alloc_some[of s p qs] Cons.prems(1) by auto
      have p: "ok s p" "p \<noteq> null" using inv_pages[OF Cons.prems(1), of p] Cons by auto
      have "\<exists>held' t' ps'. run_pages alloc free null ops (p # held) t = Ok (held', t') \<and> inv t' ps' \<and>
        distinct (held' @ ps') \<and> set held' \<union> set ps' = set (p # held) \<union> set qs \<and> (\<forall>p\<in>set held'. ok t' p)"
        using Cons.IH[OF t(2), of "p # held"] Cons.prems Cons t(3) p(1) by auto
      with t(1) p(2) AllocPage Cons show ?thesis by auto
    qed
  next
    case (FreeHeld k)
    show ?thesis
    proof (cases "k < length held")
      case False
      with Cons FreeHeld show ?thesis by simp
    next
      case True
      let ?p = "held ! k" and ?rest = "take k held @ drop (Suc k) held"
      have split: "held = take k held @ ?p # drop (Suc k) held"
        using True by (rule id_take_nth_drop)
      have mem: "set held = insert ?p (set ?rest)"
        by (subst split) auto
      have dist: "distinct (?rest @ ?p # ps)"
        using Cons.prems(2) by (subst (asm) split) auto
      have "?p \<in> set held" using True by simp
      then obtain t where t: "free ?p s = Ok t" "inv t (?p # ps)" "ok t = ok s"
        using free_page[OF Cons.prems(1), of ?p] Cons.prems(2,3) by auto
      from Cons.IH[OF t(2) dist] Cons.prems(3) t(3) mem obtain held' t' ps' where
        "run_pages alloc free null ops ?rest t = Ok (held', t')" "inv t' ps'"
        "distinct (held' @ ps')" "set held' \<union> set ps' = set ?rest \<union> set (?p # ps)"
        "\<forall>p\<in>set held'. ok t' p"
        by auto
      with t(1) True FreeHeld mem show ?thesis by auto
    qed
  qed
qed

end

interpretation kpages: page_allocator kalloc kfree kmem_inv page_ok 0
proof unfold_locales
  fix s p ps
  show "\<exists>t. kalloc s = (p, t) \<and> kmem_inv t ps \<and> page_ok t = page_ok s" if "kmem_inv s (p # ps)"
    using kalloc_ok[OF that] by (auto simp: fun_eq_iff page_ok_same_syms)
  show "\<exists>t. kfree p s = Ok t \<and> kmem_inv t (p # ps) \<and> page_ok t = page_ok s"
    if "kmem_inv s ps" "page_ok s p" "p \<notin> set ps"
    using kfree_ok[OF that] by (auto simp: fun_eq_iff page_ok_same_syms)
  show "page_ok s p \<and> p \<noteq> 0" if "kmem_inv s ps" "p \<in> set ps"
    using kmem_invD(3,4)[OF that(1)] that(2) page_ok_nonzero by blast
qed (simp_all add: kalloc_empty kmem_invD(2))

subsection \<open>The list at boot\<close>

lemma aligned_next:
  assumes "aligned p" "aligned q" "p < q"
  shows "unat p + PGBYTES \<le> unat q"
proof -
  have "4096 dvd unat p" "4096 dvd unat q"
    using assms(1,2) by (simp_all add: aligned_unat mod_eq_0_iff_dvd)
  then obtain a b where "unat p = 4096 * a" "unat q = 4096 * b" by (elim dvdE)
  moreover have "unat p < unat q"
    using assms(3) by (simp add: word_less_nat_alt)
  ultimately show ?thesis by simp
qed

lemma unat_next_page:
  assumes "p < PHYSTOP"
  shows "unat (p + PGSIZE) = unat p + PGBYTES"
  using unat_add_offset[of p 4096] assms by (simp add: word_less_nat_alt)

lemma freerange_loop_ok:
  assumes "kmem_inv s ps" "aligned p" "sym_end s \<le> p" "p \<le> PHYSTOP" "\<forall>q\<in>set ps. q < p"
    and "unat PHYSTOP div PGBYTES - unat p div PGBYTES < fuel"
  shows "\<exists>t ps'. freerange_loop fuel p PHYSTOP s = Ok t \<and> kmem_inv t ps' \<and> same_syms s t \<and>
    set ps' = set ps \<union> {q. aligned q \<and> p \<le> q \<and> q < PHYSTOP}"
  using assms
proof (induction fuel arbitrary: p s ps)
  case 0
  then show ?case by simp
next
  case (Suc fuel)
  have top: "aligned PHYSTOP" by (simp add: aligned_def)
  show ?case
  proof (cases "p < PHYSTOP")
    case False
    then have "p = PHYSTOP" using Suc.prems(4) by simp
    moreover from this have "{q. aligned q \<and> p \<le> q \<and> q < PHYSTOP} = {}" by auto
    ultimately show ?thesis using Suc.prems(1) by auto
  next
    case True
    note nx = unat_next_page[OF True]
    have le: "p + PGSIZE \<le> PHYSTOP"
      using aligned_next[OF Suc.prems(2) top True] by (simp add: word_le_nat_alt nx)
    have lt: "p < p + PGSIZE" by (simp add: word_less_nat_alt nx)
    have fresh: "p \<notin> set ps" using Suc.prems(5) by auto
    from kfree_ok[OF Suc.prems(1) _ fresh] Suc.prems(2,3) True obtain s1 where
      s1: "kfree p s = Ok s1" "kmem_inv s1 (p # ps)" "same_syms s s1"
      by (auto simp: page_ok_def)
    have "\<exists>t ps'. freerange_loop fuel (p + PGSIZE) PHYSTOP s1 = Ok t \<and> kmem_inv t ps' \<and> same_syms s1 t \<and>
        set ps' = set (p # ps) \<union> {q. aligned q \<and> p + PGSIZE \<le> q \<and> q < PHYSTOP}"
    proof (rule Suc.IH[OF s1(2)])
      show "aligned (p + PGSIZE)" using Suc.prems(2) by (intro aligned_add) (simp_all add: aligned_def)
      show "sym_end s1 \<le> p + PGSIZE" using Suc.prems(3) lt s1(3) by (simp add: same_syms_def)
      show "\<forall>q\<in>set (p # ps). q < p + PGSIZE" using Suc.prems(5) lt by (auto intro: less_trans)
      show "unat PHYSTOP div PGBYTES - unat (p + PGSIZE) div PGBYTES < fuel"
        using Suc.prems(6) le True by (simp add: nx word_le_nat_alt word_less_nat_alt)
    qed (rule le)
    then obtain t ps' where t: "freerange_loop fuel (p + PGSIZE) PHYSTOP s1 = Ok t" "kmem_inv t ps'"
      "same_syms s1 t" "set ps' = set (p # ps) \<union> {q. aligned q \<and> p + PGSIZE \<le> q \<and> q < PHYSTOP}"
      by blast
    have "{q. aligned q \<and> p \<le> q \<and> q < PHYSTOP} =
        insert p {q. aligned q \<and> p + PGSIZE \<le> q \<and> q < PHYSTOP}" (is "?A = insert p ?B")
    proof (intro equalityI subsetI)
      fix q
      assume q: "q \<in> ?A"
      then have "p < q" if "q \<noteq> p" using that by (simp add: order.strict_iff_order)
      then show "q \<in> insert p ?B"
        using q aligned_next[OF Suc.prems(2), of q] by (auto simp: word_le_nat_alt nx)
    next
      fix q
      assume "q \<in> insert p ?B"
      then show "q \<in> ?A" using Suc.prems(2) True lt by auto
    qed
    with t s1 le show ?thesis by (auto intro: same_syms_trans)
  qed
qed

lemma aligned_PGROUNDDOWN [simp]: "aligned (PGROUNDDOWN a)"
  by (simp add: aligned_unat unat_PGROUNDDOWN)

lemma aligned_PGROUNDUP [simp]: "aligned (PGROUNDUP a)"
  by (simp add: PGROUNDUP_eq)

lemma PGROUNDUP_least:
  assumes "unat a + 4095 < 2 ^ 64"
  shows "a \<le> PGROUNDUP a" and "aligned q \<Longrightarrow> a \<le> q \<Longrightarrow> PGROUNDUP a \<le> q"
proof -
  have "(unat a + 4095) div 4096 * 4096 + (unat a + 4095) mod 4096 = unat a + 4095"
    by (rule div_mult_mod_eq)
  moreover have "(unat a + 4095) mod 4096 < 4096" by simp
  ultimately have "unat a \<le> (unat a + 4095) div 4096 * 4096" by linarith
  then show "a \<le> PGROUNDUP a"
    by (simp add: word_le_nat_alt unat_PGROUNDUP[OF assms])
  assume q: "aligned q" "a \<le> q"
  then obtain k where k: "unat q = 4096 * k"
    by (auto simp: aligned_unat mod_eq_0_iff_dvd elim: dvdE)
  with q(2) have "unat a + 4095 < Suc k * 4096" by (simp add: word_le_nat_alt)
  then have "(unat a + 4095) div 4096 < Suc k" by (rule less_mult_imp_div_less)
  then show "PGROUNDUP a \<le> q"
    by (simp add: word_le_nat_alt unat_PGROUNDUP[OF assms] k)
qed

lemma kinit_ok:
  assumes "KERNBASE \<le> sym_end s" "sym_end s \<le> PHYSTOP" "freelist s = 0"
  shows "\<exists>t ps. kinit s = Ok t \<and> kmem_inv t ps \<and> same_syms s t \<and>
    set ps = {q. aligned q \<and> sym_end s \<le> q \<and> q < PHYSTOP}"
proof -
  have small: "unat (sym_end s) + 4095 < 2 ^ 64"
    using assms(2) by (simp add: word_le_nat_alt)
  note up = PGROUNDUP_least[OF small]
  have "\<exists>t ps'. freerange_loop (unat PHYSTOP div PGBYTES + 1) (PGROUNDUP (sym_end s)) PHYSTOP s = Ok t \<and>
    kmem_inv t ps' \<and> same_syms s t \<and>
    set ps' = set [] \<union> {q. aligned q \<and> PGROUNDUP (sym_end s) \<le> q \<and> q < PHYSTOP}"
  proof (rule freerange_loop_ok)
    show "kmem_inv s []" using assms by (simp add: kmem_inv_def)
    show "PGROUNDUP (sym_end s) \<le> PHYSTOP"
      using up(2)[OF _ assms(2)] by (simp add: aligned_def)
  qed (use up(1) in simp_all)
  moreover have "{q. aligned q \<and> PGROUNDUP (sym_end s) \<le> q \<and> q < PHYSTOP} =
      {q. aligned q \<and> sym_end s \<le> q \<and> q < PHYSTOP}"
    using up by (auto intro: order_trans)
  ultimately show ?thesis by (auto simp: kinit_def freerange_def)
qed

subsection \<open>Properties\<close>

text \<open>
  C11. The page allocator never hands out a page twice: in any sequence of allocations and
  frees in which a client frees only pages it holds, no call panics, the pages held and the pages
  on the free list are distinct and disjoint, and together they are always the pages of the
  start.
\<close>

theorem kalloc_conserves_pages:
  assumes "kmem_inv s ps"
  shows "\<exists>held t ps'. run_pages kalloc kfree 0 ops [] s = Ok (held, t) \<and> kmem_inv t ps' \<and>
    distinct (held @ ps') \<and> set held \<union> set ps' = set ps"
  using kpages.run_pages_ok[OF assms, of "[]" ops] kmem_invD(2)[OF assms] by auto

text \<open>A kernel that ends at 0x80001000.\<close>

definition example_kmem :: kmem where
  "example_kmem = \<lparr>ram = (\<lambda>_. 0), freelist = 0, sym_end = 0x80001000, sym_etext = 0x80000800,
     sym_trampoline = 0x80000000\<rparr>"

theorem kalloc_conserves_pages_witness:
  "\<exists>s ps held t ps'. kinit example_kmem = Ok s \<and> set ps = {q. aligned q \<and> 0x80001000 \<le> q \<and> q < PHYSTOP} \<and>
    run_pages kalloc kfree 0 [AllocPage, AllocPage, FreeHeld 1, AllocPage] [] s = Ok (held, t) \<and>
    kmem_inv t ps' \<and> distinct (held @ ps') \<and> set held \<union> set ps' = set ps"
proof -
  from kinit_ok[of example_kmem] obtain s ps where
    s: "kinit example_kmem = Ok s" "kmem_inv s ps" "set ps = {q. aligned q \<and> 0x80001000 \<le> q \<and> q < PHYSTOP}"
    by (auto simp: example_kmem_def)
  from kalloc_conserves_pages[OF s(2), of "[AllocPage, AllocPage, FreeHeld 1, AllocPage]"] s(1,3)
  show ?thesis by blast
qed

text \<open>
  C12. After \<^verbatim>\<open>kinit\<close> the free list holds exactly the page-aligned addresses from the end of the
  kernel to PHYSTOP, each once, and the initialisation does not panic.
\<close>

theorem kinit_frees_all_memory:
  assumes "KERNBASE \<le> sym_end s" and "sym_end s \<le> PHYSTOP" and "freelist s = 0"
  shows "\<exists>t ps. kinit s = Ok t \<and> kmem_inv t ps \<and>
    set ps = {q. aligned q \<and> sym_end s \<le> q \<and> q < PHYSTOP}"
  using kinit_ok[OF assms] by blast

theorem kinit_frees_all_memory_witness:
  "\<exists>t ps. kinit example_kmem = Ok t \<and> kmem_inv t ps \<and> 0x80003000 \<in> set ps"
proof -
  from kinit_frees_all_memory[of example_kmem] obtain t ps where
    "kinit example_kmem = Ok t" "kmem_inv t ps" "set ps = {q. aligned q \<and> 0x80001000 \<le> q \<and> q < PHYSTOP}"
    by (auto simp: example_kmem_def)
  then show ?thesis by (auto simp: aligned_def)
qed

end
