(* ===== verification/Xv6_Vm.thy ===== *)
theory Xv6_Vm
  imports Xv6_Kalloc
begin

section \<open>Page tables and user memory (kernel/vm.c)\<close>

text \<open>
  The Sv39 page tables live in the byte memory of \<open>kmem\<close>; every function of kernel/vm.c is
  translated on it. A pointer to a page-table entry is its address, 0 the null pointer. A
  kernel buffer that is not part of the page memory (a local variable, a table entry, a disk
  buffer) is the list of its bytes: \<open>copyout\<close> takes the bytes to copy, \<open>copyin\<close> and \<open>copyinstr\<close>
  return the bytes they have written to the destination, also when they fail half way.
\<close>

definition pte_addr :: "uint64 \<Rightarrow> nat \<Rightarrow> uint64 \<Rightarrow> uint64" where
  "pte_addr pagetable level va = pagetable + 8 * PX level va"

text \<open>One iteration of the loop in \<open>walk\<close>: the next page-table page, or none to return 0.\<close>

definition walk_step :: "nat \<Rightarrow> uint64 \<Rightarrow> uint64 \<Rightarrow> bool \<Rightarrow> kmem \<Rightarrow> uint64 option \<times> kmem" where
  "walk_step level pagetable va alloc s =
     (let pte = pte_addr pagetable level va in
      if load64 (ram s) pte AND PTE_V \<noteq> 0 then (Some (PTE2PA (load64 (ram s) pte)), s)
      else if \<not> alloc then (None, s)
      else
        let (pg, s1) = kalloc s in
        if pg = 0 then (None, s1)
        else
          let m1 = memset pg 0 4096 (ram s1);
              m2 = store64 pte (PA2PTE pg OR PTE_V) m1
          in (Some pg, s1\<lparr>ram := m2\<rparr>))"

definition walk :: "uint64 \<Rightarrow> uint64 \<Rightarrow> bool \<Rightarrow> kmem \<Rightarrow> (uint64 \<times> kmem) kres" where
  "walk pagetable va alloc s =
     (if MAXVA \<le> va then Panic ''walk''
      else case walk_step 2 pagetable va alloc s of
        (None, s1) \<Rightarrow> Ok (0, s1)
      | (Some pt1, s1) \<Rightarrow>
          (case walk_step 1 pt1 va alloc s1 of
             (None, s2) \<Rightarrow> Ok (0, s2)
           | (Some pt0, s2) \<Rightarrow> Ok (pte_addr pt0 0 va, s2)))"

definition walkaddr :: "uint64 \<Rightarrow> uint64 \<Rightarrow> kmem \<Rightarrow> uint64 kres" where
  "walkaddr pagetable va s =
     (if MAXVA \<le> va then Ok 0
      else kbind (walk pagetable va False s)
        (\<lambda>(pte, s1).
           if pte = 0 then Ok 0
           else if load64 (ram s1) pte AND PTE_V = 0 then Ok 0
           else if load64 (ram s1) pte AND PTE_U = 0 then Ok 0
           else Ok (PTE2PA (load64 (ram s1) pte))))"

text \<open>
  The loop of \<open>mappages\<close> adds a page to \<^verbatim>\<open>a\<close> until it equals \<^verbatim>\<open>last\<close>; both are page aligned, so
  the wrapping difference divided by the page size is the number of additions.
\<close>

fun mappages_loop ::
    "nat \<Rightarrow> uint64 \<Rightarrow> uint64 \<Rightarrow> uint64 \<Rightarrow> uint64 \<Rightarrow> uint64 \<Rightarrow> kmem \<Rightarrow> (cint \<times> kmem) kres" where
  "mappages_loop 0 pagetable a lastva pa perm s = Hang"
| "mappages_loop (Suc fuel) pagetable a lastva pa perm s =
     kbind (walk pagetable a True s)
       (\<lambda>(pte, s1).
          if pte = 0 then Ok (-1, s1)
          else if load64 (ram s1) pte AND PTE_V \<noteq> 0 then Panic ''mappages: remap''
          else
            let s2 = s1\<lparr>ram := store64 pte (PA2PTE pa OR perm OR PTE_V) (ram s1)\<rparr> in
            if a = lastva then Ok (0, s2)
            else mappages_loop fuel pagetable (a + PGSIZE) lastva (pa + PGSIZE) perm s2)"

definition mappages ::
    "uint64 \<Rightarrow> uint64 \<Rightarrow> uint64 \<Rightarrow> uint64 \<Rightarrow> uint64 \<Rightarrow> kmem \<Rightarrow> (cint \<times> kmem) kres" where
  "mappages pagetable va len pa perm s =
     (if len = 0 then Panic ''mappages: size''
      else
        let a = PGROUNDDOWN va;
            lastva = PGROUNDDOWN (va + len - 1)
        in mappages_loop (unat (lastva - a) div PGBYTES + 1) pagetable a lastva pa perm s)"

definition kvmmap :: "uint64 \<Rightarrow> uint64 \<Rightarrow> uint64 \<Rightarrow> uint64 \<Rightarrow> uint64 \<Rightarrow> kmem \<Rightarrow> kmem kres" where
  "kvmmap kpgtbl va pa sz perm s =
     kbind (mappages kpgtbl va sz pa perm s)
       (\<lambda>(r, s1). if r \<noteq> 0 then Panic ''kvmmap'' else Ok s1)"

definition proc_mapstacks_one :: "uint64 \<Rightarrow> nat \<Rightarrow> kmem \<Rightarrow> kmem kres" where
  "proc_mapstacks_one kpgtbl p s =
     (let (pa, s1) = kalloc s in
      if pa = 0 then Panic ''kalloc''
      else kvmmap kpgtbl (KSTACK p) pa PGSIZE (PTE_R OR PTE_W) s1)"

definition proc_mapstacks :: "uint64 \<Rightarrow> kmem \<Rightarrow> kmem kres" where
  "proc_mapstacks kpgtbl s = kfold (proc_mapstacks_one kpgtbl) [0..<64] s"

definition kvmmake :: "kmem \<Rightarrow> (uint64 \<times> kmem) kres" where
  "kvmmake s =
     (let (kpgtbl, s0) = kalloc s;
          s1 = s0\<lparr>ram := memset kpgtbl 0 4096 (ram s0)\<rparr>
      in
      kbind (kvmmap kpgtbl UART0 UART0 PGSIZE (PTE_R OR PTE_W) s1) (\<lambda>s2.
      kbind (kvmmap kpgtbl VIRTIO0 VIRTIO0 PGSIZE (PTE_R OR PTE_W) s2) (\<lambda>s3.
      kbind (kvmmap kpgtbl PLIC PLIC 0x400000 (PTE_R OR PTE_W) s3) (\<lambda>s4.
      kbind (kvmmap kpgtbl KERNBASE KERNBASE (sym_etext s4 - KERNBASE) (PTE_R OR PTE_X) s4) (\<lambda>s5.
      kbind (kvmmap kpgtbl (sym_etext s5) (sym_etext s5) (PHYSTOP - sym_etext s5) (PTE_R OR PTE_W) s5) (\<lambda>s6.
      kbind (kvmmap kpgtbl TRAMPOLINE (sym_trampoline s6) PGSIZE (PTE_R OR PTE_X) s6) (\<lambda>s7.
      kbind (proc_mapstacks kpgtbl s7) (\<lambda>s8. Ok (kpgtbl, s8)))))))))"

text \<open>The loop of \<open>uvmunmap\<close> runs once per page of the range.\<close>

fun uvmunmap_loop :: "nat \<Rightarrow> uint64 \<Rightarrow> uint64 \<Rightarrow> uint64 \<Rightarrow> bool \<Rightarrow> kmem \<Rightarrow> kmem kres" where
  "uvmunmap_loop 0 pagetable a stop do_free s = Hang"
| "uvmunmap_loop (Suc fuel) pagetable a stop do_free s =
     (if \<not> a < stop then Ok s
      else kbind (walk pagetable a False s)
        (\<lambda>(pte, s1).
           if pte = 0 then Panic ''uvmunmap: walk''
           else
             let v = load64 (ram s1) pte in
             if v AND PTE_V = 0 then Panic ''uvmunmap: not mapped''
             else if PTE_FLAGS v = PTE_V then Panic ''uvmunmap: not a leaf''
             else kbind (if do_free then kfree (PTE2PA v) s1 else Ok s1)
               (\<lambda>s2. uvmunmap_loop fuel pagetable (a + PGSIZE) stop do_free
                        (s2\<lparr>ram := store64 pte 0 (ram s2)\<rparr>))))"

definition uvmunmap :: "uint64 \<Rightarrow> uint64 \<Rightarrow> uint64 \<Rightarrow> bool \<Rightarrow> kmem \<Rightarrow> kmem kres" where
  "uvmunmap pagetable va npages do_free s =
     (if va mod PGSIZE \<noteq> 0 then Panic ''uvmunmap: not aligned''
      else uvmunmap_loop (unat npages + 1) pagetable va (va + npages * PGSIZE) do_free s)"

definition uvmcreate :: "kmem \<Rightarrow> uint64 \<times> kmem" where
  "uvmcreate s =
     (let (pagetable, s1) = kalloc s in
      if pagetable = 0 then (0, s1)
      else (pagetable, s1\<lparr>ram := memset pagetable 0 4096 (ram s1)\<rparr>))"

definition uvminit :: "uint64 \<Rightarrow> uchar list \<Rightarrow> kmem \<Rightarrow> kmem kres" where
  "uvminit pagetable src s =
     (if PGBYTES \<le> length src then Panic ''inituvm: more than a page''
      else
        let (pg, s1) = kalloc s;
            s2 = s1\<lparr>ram := memset pg 0 4096 (ram s1)\<rparr>
        in kbind (mappages pagetable 0 PGSIZE pg (PTE_W OR PTE_R OR PTE_X OR PTE_U) s2)
             (\<lambda>(_, s3). Ok (s3\<lparr>ram := store_bytes pg src (ram s3)\<rparr>)))"

definition uvmdealloc :: "uint64 \<Rightarrow> uint64 \<Rightarrow> uint64 \<Rightarrow> kmem \<Rightarrow> (uint64 \<times> kmem) kres" where
  "uvmdealloc pagetable oldsz newsz s =
     (if oldsz \<le> newsz then Ok (oldsz, s)
      else if PGROUNDUP newsz < PGROUNDUP oldsz then
        let npages = ucast ((PGROUNDUP oldsz - PGROUNDUP newsz) div PGSIZE) :: cint
        in kbind (uvmunmap pagetable (PGROUNDUP newsz) (scast npages) True s)
             (\<lambda>s1. Ok (newsz, s1))
      else Ok (newsz, s))"

fun uvmalloc_loop ::
    "nat \<Rightarrow> uint64 \<Rightarrow> uint64 \<Rightarrow> uint64 \<Rightarrow> uint64 \<Rightarrow> kmem \<Rightarrow> (uint64 \<times> kmem) kres" where
  "uvmalloc_loop 0 pagetable oldsz newsz a s = Hang"
| "uvmalloc_loop (Suc fuel) pagetable oldsz newsz a s =
     (if \<not> a < newsz then Ok (newsz, s)
      else
        let (pg, s1) = kalloc s in
        if pg = 0 then kbind (uvmdealloc pagetable a oldsz s1) (\<lambda>(_, s2). Ok (0, s2))
        else
          let s2 = s1\<lparr>ram := memset pg 0 4096 (ram s1)\<rparr> in
          kbind (mappages pagetable a PGSIZE pg (PTE_W OR PTE_X OR PTE_R OR PTE_U) s2)
            (\<lambda>(r, s3).
               if r \<noteq> 0 then
                 kbind (kfree pg s3) (\<lambda>s4.
                 kbind (uvmdealloc pagetable a oldsz s4) (\<lambda>(_, s5). Ok (0, s5)))
               else uvmalloc_loop fuel pagetable oldsz newsz (a + PGSIZE) s3))"

definition uvmalloc :: "uint64 \<Rightarrow> uint64 \<Rightarrow> uint64 \<Rightarrow> kmem \<Rightarrow> (uint64 \<times> kmem) kres" where
  "uvmalloc pagetable oldsz newsz s =
     (if newsz < oldsz then Ok (oldsz, s)
      else
        let old1 = PGROUNDUP oldsz
        in uvmalloc_loop (unat (newsz - old1) div PGBYTES + 2) pagetable old1 newsz old1 s)"

text \<open>
  \<open>freewalk\<close> recurses into the tables below; a page-table tree has three levels. The fuel counts
  the nesting of the calls.
\<close>

fun freewalk :: "nat \<Rightarrow> uint64 \<Rightarrow> kmem \<Rightarrow> kmem kres" where
  "freewalk 0 pagetable s = Hang"
| "freewalk (Suc depth) pagetable s =
     kbind
       (kfold (\<lambda>i s.
          let pte = load64 (ram s) (pagetable + 8 * word_of_nat i) in
          if pte AND PTE_V \<noteq> 0 \<and> pte AND (PTE_R OR PTE_W OR PTE_X) = 0 then
            kbind (freewalk depth (PTE2PA pte) s)
              (\<lambda>s1. Ok (s1\<lparr>ram := store64 (pagetable + 8 * word_of_nat i) 0 (ram s1)\<rparr>))
          else if pte AND PTE_V \<noteq> 0 then Panic ''freewalk: leaf''
          else Ok s) [0..<512] s)
       (kfree pagetable)"

definition uvmfree :: "uint64 \<Rightarrow> uint64 \<Rightarrow> kmem \<Rightarrow> kmem kres" where
  "uvmfree pagetable sz s =
     kbind (if 0 < sz then uvmunmap pagetable 0 (PGROUNDUP sz div PGSIZE) True s else Ok s)
       (freewalk 4 pagetable)"

text \<open>\<open>uvmcopy_err\<close> is the code after the label \<^verbatim>\<open>err\<close>, reached with the current value of \<^verbatim>\<open>i\<close>.\<close>

definition uvmcopy_err :: "uint64 \<Rightarrow> uint64 \<Rightarrow> kmem \<Rightarrow> (cint \<times> kmem) kres" where
  "uvmcopy_err new i s = kbind (uvmunmap new 0 (i div PGSIZE) True s) (\<lambda>s1. Ok (-1, s1))"

fun uvmcopy_loop :: "nat \<Rightarrow> uint64 \<Rightarrow> uint64 \<Rightarrow> uint64 \<Rightarrow> uint64 \<Rightarrow> kmem \<Rightarrow> (cint \<times> kmem) kres" where
  "uvmcopy_loop 0 old new sz i s = Hang"
| "uvmcopy_loop (Suc fuel) old new sz i s =
     (if \<not> i < sz then Ok (0, s)
      else kbind (walk old i False s)
        (\<lambda>(pte, s1).
           if pte = 0 then Panic ''uvmcopy: pte should exist''
           else
             let v = load64 (ram s1) pte in
             if v AND PTE_V = 0 then Panic ''uvmcopy: page not present''
             else
               let (pg, s2) = kalloc s1 in
               if pg = 0 then uvmcopy_err new i s2
               else
                 let s3 = s2\<lparr>ram := memmove pg (PTE2PA v) 4096 (ram s2)\<rparr> in
                 kbind (mappages new i PGSIZE pg (PTE_FLAGS v) s3)
                   (\<lambda>(r, s4).
                      if r \<noteq> 0 then kbind (kfree pg s4) (uvmcopy_err new i)
                      else uvmcopy_loop fuel old new sz (i + PGSIZE) s4)))"

definition uvmcopy :: "uint64 \<Rightarrow> uint64 \<Rightarrow> uint64 \<Rightarrow> kmem \<Rightarrow> (cint \<times> kmem) kres" where
  "uvmcopy old new sz s = uvmcopy_loop (unat sz div PGBYTES + 2) old new sz 0 s"

definition uvmclear :: "uint64 \<Rightarrow> uint64 \<Rightarrow> kmem \<Rightarrow> kmem kres" where
  "uvmclear pagetable va s =
     kbind (walk pagetable va False s)
       (\<lambda>(pte, s1).
          if pte = 0 then Panic ''uvmclear''
          else Ok (s1\<lparr>ram := store64 pte (load64 (ram s1) pte AND NOT PTE_U) (ram s1)\<rparr>))"

subsection \<open>Copying between kernel and user\<close>

lemma offset_in_page: "unat (va - PGROUNDDOWN va) = unat va mod 4096"
proof -
  have "unat (PGROUNDDOWN va) \<le> unat va"
    by (simp add: unat_PGROUNDDOWN)
  then have "unat (va - PGROUNDDOWN va) = unat va - unat va div 4096 * 4096"
    by (simp add: unat_sub word_le_nat_alt unat_PGROUNDDOWN)
  then show ?thesis by (simp add: minus_div_mult_eq_mod)
qed

lemma chunk_positive: "0 < unat (PGSIZE - (va - PGROUNDDOWN va))"
proof -
  have "unat (va - PGROUNDDOWN va) < 4096" by (simp add: offset_in_page)
  then show ?thesis by (simp add: unat_sub word_le_nat_alt)
qed

text \<open>The size of the next piece: up to the end of the page, and at most what is left.\<close>

definition chunk :: "uint64 \<Rightarrow> nat \<Rightarrow> nat" where
  "chunk va len =
     (let n = unat (PGSIZE - (va - PGROUNDDOWN va)) in if len < n then len else n)"

lemma chunk_bounds: "0 < len \<Longrightarrow> 0 < chunk va len" "chunk va len \<le> len"
  using chunk_positive[of va] by (auto simp: chunk_def Let_def)

function copyout :: "uint64 \<Rightarrow> uint64 \<Rightarrow> uchar list \<Rightarrow> kmem \<Rightarrow> (cint \<times> kmem) kres" where
  "copyout pagetable dstva src s =
     (if length src = 0 then Ok (0, s)
      else
        let va0 = PGROUNDDOWN dstva in
        kbind (walkaddr pagetable va0 s)
          (\<lambda>pa0.
             if pa0 = 0 then Ok (-1, s)
             else
               let n = chunk dstva (length src) in
               copyout pagetable (va0 + PGSIZE) (drop n src)
                 (s\<lparr>ram := store_bytes (pa0 + (dstva - va0)) (take n src) (ram s)\<rparr>)))"
  by pat_completeness auto
termination
  by (relation "measure (\<lambda>(_, _, src, _). length src)") (auto simp: chunk_bounds)

declare copyout.simps [simp del]

function copyin :: "uint64 \<Rightarrow> uint64 \<Rightarrow> nat \<Rightarrow> kmem \<Rightarrow> (cint \<times> uchar list) kres" where
  "copyin pagetable srcva len s =
     (if len = 0 then Ok (0, [])
      else
        let va0 = PGROUNDDOWN srcva in
        kbind (walkaddr pagetable va0 s)
          (\<lambda>pa0.
             if pa0 = 0 then Ok (-1, [])
             else
               let n = chunk srcva len in
               kbind (copyin pagetable (va0 + PGSIZE) (len - n) s)
                 (\<lambda>(r, bs). Ok (r, load_bytes (ram s) (pa0 + (srcva - va0)) n @ bs))))"
  by pat_completeness auto
termination
  by (relation "measure (\<lambda>(_, _, len, _). len)") (auto simp: chunk_bounds)

declare copyin.simps [simp del]

text \<open>The inner loop of \<open>copyinstr\<close>: the bytes copied from one page and whether the null was seen.\<close>

fun copyinstr_page :: "mem \<Rightarrow> uint64 \<Rightarrow> nat \<Rightarrow> uchar list \<times> bool" where
  "copyinstr_page m p 0 = ([], False)"
| "copyinstr_page m p (Suc n) =
     (if m p = 0 then ([0], True)
      else let (bs, got_null) = copyinstr_page m (p + 1) n in (m p # bs, got_null))"

function copyinstr :: "uint64 \<Rightarrow> uint64 \<Rightarrow> nat \<Rightarrow> kmem \<Rightarrow> (cint \<times> uchar list) kres" where
  "copyinstr pagetable srcva limit s =
     (if limit = 0 then Ok (-1, [])
      else
        let va0 = PGROUNDDOWN srcva in
        kbind (walkaddr pagetable va0 s)
          (\<lambda>pa0.
             if pa0 = 0 then Ok (-1, [])
             else
               let n = chunk srcva limit;
                   (bs, got_null) = copyinstr_page (ram s) (pa0 + (srcva - va0)) n
               in if got_null then Ok (0, bs)
                  else kbind (copyinstr pagetable (va0 + PGSIZE) (limit - n) s)
                         (\<lambda>(r, bs'). Ok (r, bs @ bs'))))"
  by pat_completeness auto
termination
  by (relation "measure (\<lambda>(_, _, limit, _). limit)") (auto simp: chunk_bounds)

declare copyinstr.simps [simp del]

end
