(* ===== verification/Xv6_State.thy ===== *)
theory Xv6_State
  imports Xv6_Proc Xv6_Vm
begin

section \<open>The kernel state above the process table\<close>

text \<open>
  The state of the memory, file-system and file layers, added to the process table of
  \<open>Xv6_Proc\<close> one layer at a time: \<open>kvm\<close> with the physical memory, \<open>kcons\<close> with the console and
  the UART, \<open>kfs\<close> with the disk, the buffer cache, the log, the super block and the inode table,
  \<open>kfile\<close> with the open files and the pipes. An operation of a layer is polymorphic in the layers above it.

  The spin locks that protect these structures are left out: each section under a spin lock is
  one atomic step. Sleep locks are kept, since they are held across such sections.
\<close>

text \<open>
  An index outside an array has no defined effect in C. Where the source does not exclude it, the
  model stops there with \<open>Panic ''array index''\<close>.
\<close>

definition arr_get :: "'b list \<Rightarrow> nat \<Rightarrow> 'b kres" where
  "arr_get xs i = (if i < length xs then Ok (xs ! i) else Panic ''array index'')"

definition arr_set :: "'b list \<Rightarrow> nat \<Rightarrow> 'b \<Rightarrow> 'b list kres" where
  "arr_set xs i v = (if i < length xs then Ok (xs[i := v]) else Panic ''array index'')"

subsection \<open>Memory\<close>

text \<open>The addresses of kernel code that the kernel stores somewhere are fields, as the linker sets them.\<close>

record kvm = kproc +
  km :: kmem
  kernel_pagetable :: uint64
  sym_forkret :: uint64
  sym_usertrap :: uint64
  sym_uservec :: uint64
  sym_userret :: uint64
  sym_kernelvec :: uint64

definition on_mem :: "(kmem \<Rightarrow> ('r \<times> kmem) kres) \<Rightarrow> ('a kvm_scheme, 'r) kop" where
  "on_mem f s = kbind (f (km s)) (\<lambda>(r, m). Ok (r, s\<lparr>km := m\<rparr>))"

definition on_mem_u :: "(kmem \<Rightarrow> kmem kres) \<Rightarrow> ('a kvm_scheme, unit) kop" where
  "on_mem_u f s = kbind (f (km s)) (\<lambda>m. Ok ((), s\<lparr>km := m\<rparr>))"

definition on_mem_t :: "(kmem \<Rightarrow> 'r \<times> kmem) \<Rightarrow> ('a kvm_scheme, 'r) kop" where
  "on_mem_t f s = (let (r, m) = f (km s) in Ok (r, s\<lparr>km := m\<rparr>))"

definition read_mem :: "(kmem \<Rightarrow> 'r kres) \<Rightarrow> ('a kvm_scheme, 'r) kop" where
  "read_mem f s = kbind (f (km s)) (\<lambda>r. Ok (r, s))"

text \<open>
  \<^verbatim>\<open>myproc()\<close> where the source dereferences it at once: a null pointer faults in the kernel and
  ends in \<^verbatim>\<open>panic("kerneltrap")\<close>.
\<close>

definition curproc :: "('a kproc_scheme, nat) kop" where
  "curproc s = (case myproc s of None \<Rightarrow> Panic ''kerneltrap'' | Some i \<Rightarrow> Ok (i, s))"

definition set_proc :: "nat \<Rightarrow> (proc \<Rightarrow> proc) \<Rightarrow> ('a kproc_scheme, unit) kop" where
  "set_proc i f = kmod (upd_proc i f)"

definition kvminit :: "('a kvm_scheme, unit) kop" where
  "kvminit s = kbind (kvmmake (km s)) (\<lambda>(kpgtbl, m). Ok ((), s\<lparr>km := m, kernel_pagetable := kpgtbl\<rparr>))"

text \<open>
  A destination of a copy is a user address, a kernel address in the page memory, or a kernel
  variable outside it, whose new contents the caller keeps. A source is a user address or the
  bytes of a kernel variable.
\<close>

datatype kdst = DstUser uint64 | DstPage uint64 | DstVar
datatype ksrc = SrcUser uint64 | SrcVar "uchar list"

fun dst_add :: "kdst \<Rightarrow> nat \<Rightarrow> kdst" where
  "dst_add (DstUser a) m = DstUser (a + of_nat m)"
| "dst_add (DstPage a) m = DstPage (a + of_nat m)"
| "dst_add DstVar m = DstVar"

fun src_add :: "ksrc \<Rightarrow> nat \<Rightarrow> ksrc" where
  "src_add (SrcUser a) m = SrcUser (a + of_nat m)"
| "src_add (SrcVar bs) m = SrcVar (drop m bs)"

fun either_copyout :: "kdst \<Rightarrow> uchar list \<Rightarrow> ('a kvm_scheme, cint) kop" where
  "either_copyout (DstUser dst) src s =
     kbind (curproc s) (\<lambda>(p, s). on_mem (copyout (p_pagetable (proc_at s p)) dst src) s)"
| "either_copyout (DstPage dst) src s = Ok (0, s\<lparr>km := (km s)\<lparr>ram := store_bytes dst src (ram (km s))\<rparr>\<rparr>)"
| "either_copyout DstVar src s = Ok (0, s)"

fun either_copyin :: "ksrc \<Rightarrow> nat \<Rightarrow> ('a kvm_scheme, cint \<times> uchar list) kop" where
  "either_copyin (SrcUser src) len s =
     kbind (curproc s) (\<lambda>(p, s). read_mem (copyin (p_pagetable (proc_at s p)) src len) s)"
| "either_copyin (SrcVar bs) len s = Ok ((0, take len bs), s)"

subsection \<open>Console and UART\<close>

text \<open>
  \<open>uart\<close> is the device as the driver sees it through its registers: the characters received and
  not yet read from RHR, how many more characters the transmitter takes before LSR reports it
  busy, and the characters it has been given. \<open>devsw\<close> has an entry for each major number, set for
  the console only.
\<close>

abbreviation (input) INPUT_BUF :: nat where "INPUT_BUF \<equiv> 128"
abbreviation (input) UART_TX_BUF_SIZE :: nat where "UART_TX_BUF_SIZE \<equiv> 32"
abbreviation (input) NDEV :: nat where "NDEV \<equiv> 10"

record uart_dev =
  rhr :: "uchar list"
  thr_room :: nat
  thr_sent :: "uchar list"

datatype devfns = ConsoleDev

record kcons = kvm +
  cons_buf :: "uchar list"
  cons_r :: uint
  cons_w :: uint
  cons_e :: uint
  uart_tx_buf :: "uchar list"
  uart_tx_w :: uint64
  uart_tx_r :: uint64
  uart :: uart_dev
  devsw :: "devfns option list"

subsection \<open>Disk, buffer cache, log and inodes\<close>

abbreviation (input) BSIZE :: nat where "BSIZE \<equiv> 1024"
abbreviation (input) NBUF :: nat where "NBUF \<equiv> 30"
abbreviation (input) LOGSIZE :: nat where "LOGSIZE \<equiv> 30"
abbreviation (input) MAXOPBLOCKS :: nat where "MAXOPBLOCKS \<equiv> 10"
abbreviation (input) NINODE :: nat where "NINODE \<equiv> 50"
abbreviation (input) NDIRECT :: nat where "NDIRECT \<equiv> 12"
abbreviation (input) NINDIRECT :: nat where "NINDIRECT \<equiv> 256"
abbreviation (input) ROOTDEV :: uint where "ROOTDEV \<equiv> 1"
abbreviation (input) ROOTINO :: uint where "ROOTINO \<equiv> 1"
abbreviation (input) DIRSIZ :: nat where "DIRSIZ \<equiv> 14"

record sleeplock =
  sl_locked :: uint
  sl_name :: string
  sl_pid :: cint

text \<open>Links of the buffer list are indices of \<^verbatim>\<open>bcache.buf\<close>; the index NBUF is \<^verbatim>\<open>bcache.head\<close>.\<close>

record buf =
  b_valid :: bool
  b_disk :: bool
  b_dev :: uint
  b_blockno :: uint
  b_lock :: sleeplock
  b_refcnt :: uint
  b_prev :: nat
  b_next :: nat
  b_data :: "uchar list"

record logheader =
  lh_n :: cint
  lh_block :: "cint list"

record log =
  l_start :: cint
  l_size :: cint
  l_outstanding :: cint
  l_committing :: bool
  l_dev :: cint
  l_lh :: logheader

record superblock =
  sb_magic :: uint
  sb_size :: uint
  sb_nblocks :: uint
  sb_ninodes :: uint
  sb_nlog :: uint
  sb_logstart :: uint
  sb_inodestart :: uint
  sb_bmapstart :: uint

record dinode =
  d_type :: ushort
  d_major :: ushort
  d_minor :: ushort
  d_nlink :: ushort
  d_size :: uint
  d_addrs :: "uint list"

record inode =
  i_dev :: uint
  i_inum :: uint
  i_ref :: cint
  i_lock :: sleeplock
  i_valid :: bool
  i_type :: ushort
  i_major :: ushort
  i_minor :: ushort
  i_nlink :: ushort
  i_size :: uint
  i_addrs :: "uint list"

text \<open>
  The state of the disk driver. An address in a descriptor is one of the objects that the driver
  shares with the device: a command header, the data of a buffer, a status byte.
\<close>

abbreviation (input) VNUM :: nat where "VNUM \<equiv> 8"

datatype vaddr = VNull | VOps nat | VData nat | VStatus nat

record virtq_desc =
  vd_addr :: vaddr
  vd_len :: uint
  vd_flags :: ushort
  vd_next :: ushort

record virtio_blk_req =
  vr_type :: uint
  vr_sector :: uint64

record vdisk =
  v_desc :: "virtq_desc list"
  v_avail_idx :: ushort
  v_avail_ring :: "ushort list"
  v_used_ridx :: ushort
  v_used_ring :: "uint list"
  v_free :: "bool list"
  v_used_idx :: ushort
  v_info_b :: "nat option list"
  v_info_status :: "uchar list"
  v_ops :: "virtio_blk_req list"

text \<open>
  The disk is a function from block numbers to blocks; \<open>dtrace\<close> is the history of the writes the
  disk has performed, oldest first, which is what a crash can cut off anywhere.
\<close>

record kfs = kcons +
  disk :: "uint \<Rightarrow> uchar list"
  dtrace :: "(uint \<times> uchar list) list"
  bufs :: "buf list"
  klog :: log
  sb :: superblock
  itable :: "inode list"
  vdisk :: vdisk

subsection \<open>Files and pipes\<close>

abbreviation (input) NFILE :: nat where "NFILE \<equiv> 100"
abbreviation (input) NOFILE :: nat where "NOFILE \<equiv> 16"
abbreviation (input) PIPESIZE :: nat where "PIPESIZE \<equiv> 512"

datatype filetype = FD_NONE | FD_PIPE | FD_INODE | FD_DEVICE

record kfilerec =
  f_type :: filetype
  f_ref :: cint
  f_readable :: bool
  f_writable :: bool
  f_pipe :: uint64
  f_ip :: nat
  f_off :: uint
  f_major :: ushort

record pipe =
  pi_data :: "uchar list"
  pi_nread :: uint
  pi_nwrite :: uint
  pi_readopen :: bool
  pi_writeopen :: bool

text \<open>A pipe lives in a page of its own; \<open>pipes\<close> reads that page as a \<^verbatim>\<open>struct pipe\<close>.\<close>

record kfile = kfs +
  ftable :: "kfilerec list"
  pipes :: "uint64 \<Rightarrow> pipe"


subsection \<open>Waking processes leaves the layers above the process table alone\<close>

lemma more_for_procs: "kproc.more (for_procs f s) = kproc.more s"
proof -
  have "kproc.more (fold (\<lambda>i. upd_proc i (f i)) xs s) = kproc.more s" for xs
    by (induction xs arbitrary: s) simp_all
  then show ?thesis by (simp add: for_procs_def)
qed

lemma more_wakeup: "kproc.more (wakeup ch s) = kproc.more s"
  unfolding wakeup_def by (rule more_for_procs)

lemma wakeup_kcons [simp]:
  "km (wakeup ch s) = km s" "cons_buf (wakeup ch s) = cons_buf s" "cons_r (wakeup ch s) = cons_r s"
  "cons_w (wakeup ch s) = cons_w s" "cons_e (wakeup ch s) = cons_e s"
  "uart_tx_buf (wakeup ch s) = uart_tx_buf s" "uart_tx_w (wakeup ch s) = uart_tx_w s"
  "uart_tx_r (wakeup ch s) = uart_tx_r s" "uart (wakeup ch s) = uart s" "devsw (wakeup ch s) = devsw s"
  for s :: "'a kcons_scheme"
  using more_wakeup[of ch s] by (cases "wakeup ch s"; cases s; simp)+

lemma wakeup_kfs [simp]:
  "disk (wakeup ch s) = disk s" "dtrace (wakeup ch s) = dtrace s" "bufs (wakeup ch s) = bufs s"
  "klog (wakeup ch s) = klog s" "sb (wakeup ch s) = sb s" "itable (wakeup ch s) = itable s"
  "vdisk (wakeup ch s) = vdisk s"
  for s :: "'a kfs_scheme"
  using more_wakeup[of ch s] by (cases "wakeup ch s"; cases s; simp)+

lemma wakeup_kfile [simp]:
  "ftable (wakeup ch s) = ftable s" "pipes (wakeup ch s) = pipes s"
  for s :: "'a kfile_scheme"
  using more_wakeup[of ch s] by (cases "wakeup ch s"; cases s; simp)+

lemma wakeup_kproc [simp]:
  assumes "kproc_ok s"
  shows "kproc_ok (wakeup ch s)" "myproc (wakeup ch s) = myproc s" "cpus (wakeup ch s) = cpus s"
    "i < NPROC \<Longrightarrow> p_pid (proc_at (wakeup ch s) i) = p_pid (proc_at s i)"
  using assms by (simp_all add: wakeup_def myproc_def mycpu_def cpuid_def proc_at_for_procs)

end
