(* ===== verification/Xv6_Bio.thy ===== *)
theory Xv6_Bio
  imports Xv6_State
begin

section \<open>Sleep locks and the buffer cache (kernel/sleeplock.c, kernel/bio.c)\<close>

text \<open>
  The operations are those of one process from its system call's start to its end: where the
  source sleeps until another process acts, the result is \<open>Hang\<close>. The buffers are the array
  \<^verbatim>\<open>bcache.buf\<close> with \<^verbatim>\<open>bcache.head\<close> as the element NBUF, doubly linked through \<open>b_prev\<close> and
  \<open>b_next\<close> as in the source. A disk transfer is the effect of \<^verbatim>\<open>virtio_disk_rw\<close> once the device
  has completed the request; a write is also recorded in \<open>dtrace\<close>.
\<close>

subsection \<open>Sleep locks\<close>

definition initsleeplock :: "string \<Rightarrow> sleeplock \<Rightarrow> sleeplock" where
  "initsleeplock name lk = lk\<lparr>sl_name := name, sl_locked := 0, sl_pid := 0\<rparr>"

definition acquiresleep :: "sleeplock \<Rightarrow> ('a kproc_scheme, sleeplock) kop" where
  "acquiresleep lk s =
     (if sl_locked lk \<noteq> 0 then Hang
      else kbind (curproc s) (\<lambda>(p, s).
        Ok (lk\<lparr>sl_locked := 1, sl_pid := p_pid (proc_at s p)\<rparr>, s)))"

definition releasesleep :: "chan \<Rightarrow> sleeplock \<Rightarrow> ('a kproc_scheme, sleeplock) kop" where
  "releasesleep ch lk s = Ok (lk\<lparr>sl_locked := 0, sl_pid := 0\<rparr>, wakeup (Some ch) s)"

definition holdingsleep :: "sleeplock \<Rightarrow> ('a kproc_scheme, bool) kop" where
  "holdingsleep lk s =
     (if sl_locked lk = 0 then Ok (False, s)
      else kbind (curproc s) (\<lambda>(p, s). Ok (sl_pid lk = p_pid (proc_at s p), s)))"

subsection \<open>The buffer list\<close>

definition buf_at :: "'a kfs_scheme \<Rightarrow> nat \<Rightarrow> buf" where
  "buf_at s b = bufs s ! b"

definition upd_buf :: "nat \<Rightarrow> (buf \<Rightarrow> buf) \<Rightarrow> 'a kfs_scheme \<Rightarrow> 'a kfs_scheme" where
  "upd_buf b f s = s\<lparr>bufs := (bufs s)[b := f (bufs s ! b)]\<rparr>"

text \<open>Both \<open>binit\<close> and \<open>brelse\<close> put a buffer in front of the list with these four assignments.\<close>

definition bufs_push_front :: "nat \<Rightarrow> 'a kfs_scheme \<Rightarrow> 'a kfs_scheme" where
  "bufs_push_front b s =
     (let s1 = upd_buf b (\<lambda>x. x\<lparr>b_next := b_next (buf_at s NBUF), b_prev := NBUF\<rparr>) s;
          s2 = upd_buf (b_next (buf_at s1 NBUF)) (\<lambda>x. x\<lparr>b_prev := b\<rparr>) s1
      in upd_buf NBUF (\<lambda>x. x\<lparr>b_next := b\<rparr>) s2)"

definition binit :: "'a kfs_scheme \<Rightarrow> 'a kfs_scheme" where
  "binit s =
     fold (\<lambda>b t. bufs_push_front b (upd_buf b (\<lambda>x. x\<lparr>b_lock := initsleeplock ''buffer'' (b_lock x)\<rparr>) t))
       [0..<NBUF] (upd_buf NBUF (\<lambda>x. x\<lparr>b_prev := NBUF, b_next := NBUF\<rparr>) s)"

text \<open>
  The two loops of \<open>bget\<close>: the first buffer from \<open>b\<close> on that satisfies \<open>P\<close>, following \<^verbatim>\<open>next\<close> or
  \<^verbatim>\<open>prev\<close> up to the head. A list that does not come back to the head within its NBUF + 1 nodes
  is followed for ever.
\<close>

fun bfind :: "nat \<Rightarrow> (buf \<Rightarrow> nat) \<Rightarrow> (buf \<Rightarrow> bool) \<Rightarrow> nat \<Rightarrow> 'a kfs_scheme \<Rightarrow> nat option kres" where
  "bfind 0 link P b s = Hang"
| "bfind (Suc n) link P b s =
     (if b = NBUF then Ok None
      else if P (buf_at s b) then Ok (Some b)
      else bfind n link P (link (buf_at s b)) s)"

definition buf_lock :: "nat \<Rightarrow> ('a kfs_scheme, nat) kop" where
  "buf_lock b s =
     kbind (acquiresleep (b_lock (buf_at s b)) s) (\<lambda>(lk, s).
       Ok (b, upd_buf b (\<lambda>x. x\<lparr>b_lock := lk\<rparr>) s))"

definition bget :: "uint \<Rightarrow> uint \<Rightarrow> ('a kfs_scheme, nat) kop" where
  "bget dev blockno s =
     kbind (bfind (NBUF + 1) b_next (\<lambda>x. b_dev x = dev \<and> b_blockno x = blockno)
              (b_next (buf_at s NBUF)) s) (\<lambda>hit.
       case hit of
         Some b \<Rightarrow> buf_lock b (upd_buf b (\<lambda>x. x\<lparr>b_refcnt := b_refcnt x + 1\<rparr>) s)
       | None \<Rightarrow>
           kbind (bfind (NBUF + 1) b_prev (\<lambda>x. b_refcnt x = 0) (b_prev (buf_at s NBUF)) s) (\<lambda>unused.
             case unused of
               Some b \<Rightarrow>
                 buf_lock b (upd_buf b (\<lambda>x. x\<lparr>b_dev := dev, b_blockno := blockno, b_valid := False,
                                            b_refcnt := 1\<rparr>) s)
             | None \<Rightarrow> Panic ''bget: no buffers''))"

text \<open>
  The transfer between a buffer and the disk, as the device has done it when \<^verbatim>\<open>virtio_disk_rw\<close> returns. The disk is a map from
  block numbers: the driver asks for the sector \<^verbatim>\<open>blockno * 2\<close>, a 32-bit product, which tells all blocks below 2^31 apart. The device reports
  success; the panic of \<open>virtio_disk_intr\<close> on another status is in \<open>Xv6_Virtio\<close>.
\<close>

definition disk_read :: "nat \<Rightarrow> 'a kfs_scheme \<Rightarrow> 'a kfs_scheme" where
  "disk_read b s = upd_buf b (\<lambda>x. x\<lparr>b_data := disk s (b_blockno x)\<rparr>) s"

definition disk_write :: "nat \<Rightarrow> 'a kfs_scheme \<Rightarrow> 'a kfs_scheme" where
  "disk_write b s =
     (let blk = b_blockno (buf_at s b); d = b_data (buf_at s b)
      in s\<lparr>disk := (disk s)(blk := d), dtrace := dtrace s @ [(blk, d)]\<rparr>)"

definition bread :: "uint \<Rightarrow> uint \<Rightarrow> ('a kfs_scheme, nat) kop" where
  "bread dev blockno s =
     kbind (bget dev blockno s) (\<lambda>(b, s).
       if b_valid (buf_at s b) then Ok (b, s)
       else Ok (b, upd_buf b (\<lambda>x. x\<lparr>b_valid := True\<rparr>) (disk_read b s)))"

definition bwrite :: "nat \<Rightarrow> ('a kfs_scheme, unit) kop" where
  "bwrite b s =
     kbind (holdingsleep (b_lock (buf_at s b)) s) (\<lambda>(held, s).
       if \<not> held then Panic ''bwrite'' else Ok ((), disk_write b s))"

definition brelse :: "nat \<Rightarrow> ('a kfs_scheme, unit) kop" where
  "brelse b s =
     kbind (holdingsleep (b_lock (buf_at s b)) s) (\<lambda>(held, s).
       if \<not> held then Panic ''brelse''
       else
         kbind (releasesleep (ChanBufLock b) (b_lock (buf_at s b)) s) (\<lambda>(lk, s).
           let s1 = upd_buf b (\<lambda>x. x\<lparr>b_lock := lk, b_refcnt := b_refcnt x - 1\<rparr>) s in
           if b_refcnt (buf_at s1 b) = 0 then
             let s2 = upd_buf (b_next (buf_at s1 b)) (\<lambda>x. x\<lparr>b_prev := b_prev (buf_at s1 b)\<rparr>) s1;
                 s3 = upd_buf (b_prev (buf_at s2 b)) (\<lambda>x. x\<lparr>b_next := b_next (buf_at s2 b)\<rparr>) s2
             in Ok ((), bufs_push_front b s3)
           else Ok ((), s1)))"

definition bpin :: "nat \<Rightarrow> 'a kfs_scheme \<Rightarrow> 'a kfs_scheme" where
  "bpin b s = upd_buf b (\<lambda>x. x\<lparr>b_refcnt := b_refcnt x + 1\<rparr>) s"

definition bunpin :: "nat \<Rightarrow> 'a kfs_scheme \<Rightarrow> 'a kfs_scheme" where
  "bunpin b s = upd_buf b (\<lambda>x. x\<lparr>b_refcnt := b_refcnt x - 1\<rparr>) s"

end
