(* ===== verification/Xv6_Log.thy ===== *)
theory Xv6_Log
  imports Xv6_Bio
begin

section \<open>The write-ahead log (kernel/log.c)\<close>

text \<open>
  All of kernel/log.c on the buffer cache. \<^verbatim>\<open>struct logheader\<close> is read from and written to the
  bytes of a block: \<^verbatim>\<open>n\<close> at offset 0, \<^verbatim>\<open>block[i]\<close> at offset 4 + 4i.
\<close>

definition get32 :: "uchar list \<Rightarrow> nat \<Rightarrow> uint kres" where
  "get32 bs off = (if off + 4 \<le> length bs then Ok (le_word (take 4 (drop off bs))) else Panic ''array index'')"

definition put_bytes :: "uchar list \<Rightarrow> nat \<Rightarrow> uchar list \<Rightarrow> uchar list" where
  "put_bytes bs off v = take off bs @ v @ drop (off + length v) bs"

definition put32 :: "uchar list \<Rightarrow> nat \<Rightarrow> uint \<Rightarrow> uchar list kres" where
  "put32 bs off v = (if off + 4 \<le> length bs then Ok (put_bytes bs off (le_bytes 4 v)) else Panic ''array index'')"

definition upd_log :: "(log \<Rightarrow> log) \<Rightarrow> 'a kfs_scheme \<Rightarrow> 'a kfs_scheme" where
  "upd_log f s = s\<lparr>klog := f (klog s)\<rparr>"

definition upd_lh :: "(logheader \<Rightarrow> logheader) \<Rightarrow> 'a kfs_scheme \<Rightarrow> 'a kfs_scheme" where
  "upd_lh f = upd_log (\<lambda>l. l\<lparr>l_lh := f (l_lh l)\<rparr>)"

text \<open>The indices \<open>0\<close> up to the \<^verbatim>\<open>int\<close> \<open>n\<close>, which may be negative.\<close>

definition upto_cint :: "cint \<Rightarrow> nat list" where
  "upto_cint n = [0..<nat (sint n)]"

subsection \<open>Copying between the log and the home blocks\<close>

text \<open>\<^verbatim>\<open>memmove(dst->data, src->data, BSIZE)\<close> between two buffers.\<close>

definition buf_copy :: "nat \<Rightarrow> nat \<Rightarrow> 'a kfs_scheme \<Rightarrow> 'a kfs_scheme" where
  "buf_copy dst src s = upd_buf dst (\<lambda>x. x\<lparr>b_data := b_data (buf_at s src)\<rparr>) s"

definition log_block :: "nat \<Rightarrow> ('a kfs_scheme, nat) kop" where
  "log_block tail s = bread (l_dev (klog s)) (l_start (klog s) + word_of_nat tail + 1) s"

definition home_block :: "nat \<Rightarrow> ('a kfs_scheme, nat) kop" where
  "home_block tail s =
     kbind (arr_get (lh_block (l_lh (klog s))) tail) (\<lambda>blk. bread (l_dev (klog s)) blk s)"

definition install_one :: "bool \<Rightarrow> nat \<Rightarrow> ('a kfs_scheme, unit) kop" where
  "install_one recovering tail =
     kseq (log_block tail) (\<lambda>lbuf.
     kseq (home_block tail) (\<lambda>dbuf.
     kseq (kmod (buf_copy dbuf lbuf)) (\<lambda>_.
     kseq (bwrite dbuf) (\<lambda>_.
     kseq (kwhen (\<not> recovering) (kmod (bunpin dbuf))) (\<lambda>_.
     kseq (brelse lbuf) (\<lambda>_.
     brelse dbuf))))))"

definition install_trans :: "bool \<Rightarrow> ('a kfs_scheme, unit) kop" where
  "install_trans recovering s = kforeach (install_one recovering) (upto_cint (lh_n (l_lh (klog s)))) s"

definition write_log_one :: "nat \<Rightarrow> ('a kfs_scheme, unit) kop" where
  "write_log_one tail =
     kseq (log_block tail) (\<lambda>to_b.
     kseq (home_block tail) (\<lambda>from_b.
     kseq (kmod (buf_copy to_b from_b)) (\<lambda>_.
     kseq (bwrite to_b) (\<lambda>_.
     kseq (brelse from_b) (\<lambda>_.
     brelse to_b)))))"

definition write_log :: "('a kfs_scheme, unit) kop" where
  "write_log s = kforeach write_log_one (upto_cint (lh_n (l_lh (klog s)))) s"

subsection \<open>The header block\<close>

definition read_head_one :: "nat \<Rightarrow> nat \<Rightarrow> ('a kfs_scheme, unit) kop" where
  "read_head_one b i s =
     kbind (get32 (b_data (buf_at s b)) (4 + 4 * i)) (\<lambda>blk.
     kbind (arr_set (lh_block (l_lh (klog s))) i blk) (\<lambda>blks.
     Ok ((), upd_lh (\<lambda>h. h\<lparr>lh_block := blks\<rparr>) s)))"

definition read_head :: "('a kfs_scheme, unit) kop" where
  "read_head s =
     kbind (bread (l_dev (klog s)) (l_start (klog s)) s) (\<lambda>(b, s).
     kbind (get32 (b_data (buf_at s b)) 0) (\<lambda>n.
     kseq (kmod (upd_lh (\<lambda>h. h\<lparr>lh_n := n\<rparr>))) (\<lambda>_.
     kseq (kforeach (read_head_one b) (upto_cint n)) (\<lambda>_.
     brelse b)) s))"

definition write_head_one :: "nat \<Rightarrow> nat \<Rightarrow> ('a kfs_scheme, unit) kop" where
  "write_head_one b i s =
     kbind (arr_get (lh_block (l_lh (klog s))) i) (\<lambda>blk.
     kbind (put32 (b_data (buf_at s b)) (4 + 4 * i) blk) (\<lambda>bs.
     Ok ((), upd_buf b (\<lambda>x. x\<lparr>b_data := bs\<rparr>) s)))"

definition write_head :: "('a kfs_scheme, unit) kop" where
  "write_head s =
     kbind (bread (l_dev (klog s)) (l_start (klog s)) s) (\<lambda>(b, s).
     kbind (put32 (b_data (buf_at s b)) 0 (lh_n (l_lh (klog s)))) (\<lambda>bs.
     kseq (kmod (upd_buf b (\<lambda>x. x\<lparr>b_data := bs\<rparr>))) (\<lambda>_.
     kseq (kforeach (write_head_one b) (upto_cint (lh_n (l_lh (klog s))))) (\<lambda>_.
     kseq (bwrite b) (\<lambda>_.
     brelse b))) s))"

definition recover_from_log :: "('a kfs_scheme, unit) kop" where
  "recover_from_log =
     kseq read_head (\<lambda>_.
     kseq (install_trans True) (\<lambda>_.
     kseq (kmod (upd_lh (\<lambda>h. h\<lparr>lh_n := 0\<rparr>))) (\<lambda>_.
     write_head)))"

text \<open>
  \<^verbatim>\<open>sizeof(struct logheader)\<close> is 4 + 4 * LOGSIZE = 124, less than BSIZE, so the first panic of
  \<open>initlog\<close> is dead code.
\<close>

definition initlog :: "cint \<Rightarrow> ('a kfs_scheme, unit) kop" where
  "initlog dev s =
     (if BSIZE \<le> 4 + 4 * LOGSIZE then Panic ''initlog: too big logheader''
      else recover_from_log
        (upd_log (\<lambda>l. l\<lparr>l_start := sb_logstart (sb s), l_size := sb_nlog (sb s), l_dev := dev\<rparr>) s))"

subsection \<open>Transactions\<close>

text \<open>The two waits of \<open>begin_op\<close> end only when another process calls \<open>end_op\<close>.\<close>

definition begin_op :: "('a kfs_scheme, unit) kop" where
  "begin_op s =
     (if l_committing (klog s) then Hang
      else if sint (of_nat LOGSIZE :: cint) <
              sint (lh_n (l_lh (klog s)) + (l_outstanding (klog s) + 1) * of_nat MAXOPBLOCKS)
      then Hang
      else Ok ((), upd_log (\<lambda>l. l\<lparr>l_outstanding := l_outstanding l + 1\<rparr>) s))"

definition commit :: "('a kfs_scheme, unit) kop" where
  "commit s =
     (if 0 < sint (lh_n (l_lh (klog s)))
      then
        kseq write_log (\<lambda>_.
        kseq write_head (\<lambda>_.
        kseq (install_trans False) (\<lambda>_.
        kseq (kmod (upd_lh (\<lambda>h. h\<lparr>lh_n := 0\<rparr>))) (\<lambda>_.
        write_head)))) s
      else Ok ((), s))"

definition end_op :: "('a kfs_scheme, unit) kop" where
  "end_op s =
     (let s1 = upd_log (\<lambda>l. l\<lparr>l_outstanding := l_outstanding l - 1\<rparr>) s in
      if l_committing (klog s1) then Panic ''log.committing''
      else if l_outstanding (klog s1) = 0 then
        kseq commit (\<lambda>_.
        kmod (\<lambda>t. wakeup (Some ChanLog) (upd_log (\<lambda>l. l\<lparr>l_committing := False\<rparr>) t)))
          (upd_log (\<lambda>l. l\<lparr>l_committing := True\<rparr>) s1)
      else Ok ((), wakeup (Some ChanLog) s1))"

text \<open>The first index below \<open>n\<close> whose block is \<open>blk\<close>, or \<open>n\<close>.\<close>

fun log_absorb :: "cint list \<Rightarrow> uint \<Rightarrow> nat \<Rightarrow> nat \<Rightarrow> nat kres" where
  "log_absorb blks blk i 0 = Ok i"
| "log_absorb blks blk i (Suc k) =
     kbind (arr_get blks i) (\<lambda>x. if x = blk then Ok i else log_absorb blks blk (Suc i) k)"

definition log_write :: "nat \<Rightarrow> ('a kfs_scheme, unit) kop" where
  "log_write b s =
     (let lh = l_lh (klog s); n = lh_n lh in
      if sint (of_nat LOGSIZE :: cint) \<le> sint n \<or> sint (l_size (klog s) - 1) \<le> sint n
      then Panic ''too big a transaction''
      else if sint (l_outstanding (klog s)) < 1 then Panic ''log_write outside of trans''
      else
        let blk = b_blockno (buf_at s b) in
        kbind (log_absorb (lh_block lh) blk 0 (nat (sint n))) (\<lambda>i.
        kbind (arr_set (lh_block lh) i blk) (\<lambda>blks.
        let s1 = upd_lh (\<lambda>h. h\<lparr>lh_block := blks\<rparr>) s in
        if int i = sint n then Ok ((), upd_lh (\<lambda>h. h\<lparr>lh_n := lh_n h + 1\<rparr>) (bpin b s1))
        else Ok ((), s1))))"

end
