(* ===== verification/Xv6_Fs.thy ===== *)
theory Xv6_Fs
  imports Xv6_Log
begin

section \<open>Disk blocks and inodes (kernel/fs.c)\<close>

text \<open>
  The block allocator, the inode table and the contents of inodes, with the on-disk structures
  read from and written to the bytes of a block. An inode pointer is its index in
  \<^verbatim>\<open>itable.inode\<close>.
\<close>

abbreviation (input) FSMAGIC :: uint where "FSMAGIC \<equiv> 0x10203040"
abbreviation (input) IPB :: nat where "IPB \<equiv> 16"
abbreviation (input) BPB :: nat where "BPB \<equiv> 8192"
abbreviation (input) MAXFILE :: nat where "MAXFILE \<equiv> 268"
abbreviation (input) T_DIR :: ushort where "T_DIR \<equiv> 1"
abbreviation (input) T_FILE :: ushort where "T_FILE \<equiv> 2"
abbreviation (input) T_DEVICE :: ushort where "T_DEVICE \<equiv> 3"

definition IBLOCK :: "uint \<Rightarrow> superblock \<Rightarrow> uint" where
  "IBLOCK i b = i div of_nat IPB + sb_inodestart b"

definition BBLOCK :: "uint \<Rightarrow> superblock \<Rightarrow> uint" where
  "BBLOCK bno b = bno div of_nat BPB + sb_bmapstart b"

subsection \<open>On-disk structures\<close>

definition word32_at :: "uchar list \<Rightarrow> nat \<Rightarrow> uint" where
  "word32_at bs off = le_word (take 4 (drop off bs))"

definition word16_at :: "uchar list \<Rightarrow> nat \<Rightarrow> ushort" where
  "word16_at bs off = le_word (take 2 (drop off bs))"

definition superblock_of :: "uchar list \<Rightarrow> superblock" where
  "superblock_of bs = \<lparr>sb_magic = word32_at bs 0, sb_size = word32_at bs 4, sb_nblocks = word32_at bs 8,
     sb_ninodes = word32_at bs 12, sb_nlog = word32_at bs 16, sb_logstart = word32_at bs 20,
     sb_inodestart = word32_at bs 24, sb_bmapstart = word32_at bs 28\<rparr>"

definition dinode_of :: "uchar list \<Rightarrow> dinode" where
  "dinode_of bs = \<lparr>d_type = word16_at bs 0, d_major = word16_at bs 2, d_minor = word16_at bs 4,
     d_nlink = word16_at bs 6, d_size = word32_at bs 8,
     d_addrs = map (\<lambda>i. word32_at bs (12 + 4 * i)) [0..<NDIRECT + 1]\<rparr>"

definition dinode_bytes :: "dinode \<Rightarrow> uchar list" where
  "dinode_bytes d = le_bytes 2 (d_type d) @ le_bytes 2 (d_major d) @ le_bytes 2 (d_minor d) @
     le_bytes 2 (d_nlink d) @ le_bytes 4 (d_size d) @ concat (map (le_bytes 4) (d_addrs d))"

text \<open>The slot of inode \<open>inum\<close> in its block, 64 bytes wide.\<close>

definition dinode_off :: "uint \<Rightarrow> nat" where
  "dinode_off inum = 64 * (unat inum mod IPB)"

definition dinode_at :: "uchar list \<Rightarrow> uint \<Rightarrow> dinode" where
  "dinode_at bs inum = dinode_of (take 64 (drop (dinode_off inum) bs))"

definition put_dinode :: "uchar list \<Rightarrow> uint \<Rightarrow> dinode \<Rightarrow> uchar list" where
  "put_dinode bs inum d = put_bytes bs (dinode_off inum) (dinode_bytes d)"

definition set_data :: "nat \<Rightarrow> (uchar list \<Rightarrow> uchar list) \<Rightarrow> ('a kfs_scheme, unit) kop" where
  "set_data b f = kmod (upd_buf b (\<lambda>x. x\<lparr>b_data := f (b_data x)\<rparr>))"

definition data_of :: "nat \<Rightarrow> ('a kfs_scheme, uchar list) kop" where
  "data_of b = kget (\<lambda>s. b_data (buf_at s b))"

subsection \<open>The super block\<close>

definition readsb :: "uint \<Rightarrow> ('a kfs_scheme, unit) kop" where
  "readsb dev =
     kseq (bread dev 1) (\<lambda>bp.
     kseq (data_of bp) (\<lambda>d.
     kseq (kmod (\<lambda>s. s\<lparr>sb := superblock_of d\<rparr>)) (\<lambda>_.
     brelse bp)))"

definition fsinit :: "cint \<Rightarrow> ('a kfs_scheme, unit) kop" where
  "fsinit dev =
     kseq (readsb dev) (\<lambda>_.
     kseq (kget sb) (\<lambda>b.
     if sb_magic b \<noteq> FSMAGIC then kpanic ''invalid file system'' else initlog dev))"

subsection \<open>Blocks\<close>

definition bzero :: "uint \<Rightarrow> uint \<Rightarrow> ('a kfs_scheme, unit) kop" where
  "bzero dev bno =
     kseq (bread dev bno) (\<lambda>bp.
     kseq (set_data bp (\<lambda>_. replicate BSIZE 0)) (\<lambda>_.
     kseq (log_write bp) (\<lambda>_.
     brelse bp)))"

definition bitmap_get :: "uchar list \<Rightarrow> nat \<Rightarrow> bool" where
  "bitmap_get bs bi = (bs ! (bi div 8) AND push_bit (bi mod 8) 1 \<noteq> 0)"

definition bitmap_set :: "nat \<Rightarrow> uchar list \<Rightarrow> uchar list" where
  "bitmap_set bi bs = bs[bi div 8 := bs ! (bi div 8) OR push_bit (bi mod 8) 1]"

definition bitmap_clear :: "nat \<Rightarrow> uchar list \<Rightarrow> uchar list" where
  "bitmap_clear bi bs = bs[bi div 8 := bs ! (bi div 8) AND NOT (push_bit (bi mod 8) 1)]"

text \<open>The inner loop of \<open>balloc\<close>: the first free bit of the bitmap block that starts at block \<open>b\<close>.\<close>

definition balloc_scan :: "uchar list \<Rightarrow> uint \<Rightarrow> uint \<Rightarrow> nat option" where
  "balloc_scan bs b size' =
     find (\<lambda>bi. \<not> bitmap_get bs bi) (takeWhile (\<lambda>bi. b + of_nat bi < size') [0..<BPB])"

text \<open>
  The outer loop visits the multiples of BPB below \<^verbatim>\<open>sb.size\<close>, at most 2 ^ 19 of them; past the
  last one \<^verbatim>\<open>b\<close> would wrap and the loop would start again.
\<close>

fun balloc_loop :: "nat \<Rightarrow> uint \<Rightarrow> uint \<Rightarrow> ('a kfs_scheme, uint) kop" where
  "balloc_loop 0 dev b s = Hang"
| "balloc_loop (Suc fuel) dev b s =
     (if b < sb_size (sb s) then
        kseq (bread dev (BBLOCK b (sb s))) (\<lambda>bp.
        kseq (data_of bp) (\<lambda>d.
        kseq (kget (\<lambda>s. sb_size (sb s))) (\<lambda>size'.
        case balloc_scan d b size' of
          Some bi \<Rightarrow>
            kseq (set_data bp (bitmap_set bi)) (\<lambda>_.
            kseq (log_write bp) (\<lambda>_.
            kseq (brelse bp) (\<lambda>_.
            kseq (bzero dev (b + of_nat bi)) (\<lambda>_.
            kret (b + of_nat bi)))))
        | None \<Rightarrow>
            kseq (brelse bp) (\<lambda>_.
            balloc_loop fuel dev (b + of_nat BPB))))) s
      else Panic ''balloc: out of blocks'')"

definition balloc :: "uint \<Rightarrow> ('a kfs_scheme, uint) kop" where
  "balloc dev = balloc_loop 524289 dev 0"

definition bfree :: "uint \<Rightarrow> uint \<Rightarrow> ('a kfs_scheme, unit) kop" where
  "bfree dev b =
     kseq (kget sb) (\<lambda>sblk.
     kseq (bread dev (BBLOCK b sblk)) (\<lambda>bp.
     kseq (data_of bp) (\<lambda>d.
     let bi = unat b mod BPB in
     if \<not> bitmap_get d bi then kpanic ''freeing free block''
     else
       kseq (set_data bp (bitmap_clear bi)) (\<lambda>_.
       kseq (log_write bp) (\<lambda>_.
       brelse bp)))))"

subsection \<open>The inode table\<close>

definition inode_at :: "'a kfs_scheme \<Rightarrow> nat \<Rightarrow> inode" where
  "inode_at s ip = itable s ! ip"

definition upd_inode :: "nat \<Rightarrow> (inode \<Rightarrow> inode) \<Rightarrow> 'a kfs_scheme \<Rightarrow> 'a kfs_scheme" where
  "upd_inode ip f s = s\<lparr>itable := (itable s)[ip := f (itable s ! ip)]\<rparr>"

definition iinit :: "'a kfs_scheme \<Rightarrow> 'a kfs_scheme" where
  "iinit s = fold (\<lambda>i. upd_inode i (\<lambda>x. x\<lparr>i_lock := initsleeplock ''inode'' (i_lock x)\<rparr>)) [0..<NINODE] s"

definition iget :: "uint \<Rightarrow> uint \<Rightarrow> ('a kfs_scheme, nat) kop" where
  "iget dev inum s =
     (case find (\<lambda>i. 0 < sint (i_ref (inode_at s i)) \<and> i_dev (inode_at s i) = dev \<and>
                     i_inum (inode_at s i) = inum) [0..<NINODE] of
        Some ip \<Rightarrow> Ok (ip, upd_inode ip (\<lambda>x. x\<lparr>i_ref := i_ref x + 1\<rparr>) s)
      | None \<Rightarrow>
          (case find (\<lambda>i. i_ref (inode_at s i) = 0) [0..<NINODE] of
             None \<Rightarrow> Panic ''iget: no inodes''
           | Some ip \<Rightarrow>
               Ok (ip, upd_inode ip (\<lambda>x. x\<lparr>i_dev := dev, i_inum := inum, i_ref := 1, i_valid := False\<rparr>) s)))"

definition free_dinode :: "ushort \<Rightarrow> dinode" where
  "free_dinode ty = \<lparr>d_type = ty, d_major = 0, d_minor = 0, d_nlink = 0, d_size = 0,
     d_addrs = replicate (NDIRECT + 1) 0\<rparr>"

fun ialloc_loop :: "uint \<Rightarrow> ushort \<Rightarrow> nat list \<Rightarrow> ('a kfs_scheme, nat) kop" where
  "ialloc_loop dev ty [] s = Panic ''ialloc: no inodes''"
| "ialloc_loop dev ty (i # is) s =
     (let inum = of_nat i in
      kseq (bread dev (IBLOCK inum (sb s))) (\<lambda>bp.
      kseq (data_of bp) (\<lambda>d.
      if d_type (dinode_at d inum) = 0 then
        kseq (set_data bp (\<lambda>bs. put_dinode bs inum (free_dinode ty))) (\<lambda>_.
        kseq (log_write bp) (\<lambda>_.
        kseq (brelse bp) (\<lambda>_.
        iget dev inum)))
      else
        kseq (brelse bp) (\<lambda>_.
        ialloc_loop dev ty is))) s)"

definition ialloc :: "uint \<Rightarrow> ushort \<Rightarrow> ('a kfs_scheme, nat) kop" where
  "ialloc dev ty s = ialloc_loop dev ty [1..<unat (sb_ninodes (sb s))] s"

definition inode_dinode :: "inode \<Rightarrow> dinode" where
  "inode_dinode x = \<lparr>d_type = i_type x, d_major = i_major x, d_minor = i_minor x, d_nlink = i_nlink x,
     d_size = i_size x, d_addrs = i_addrs x\<rparr>"

definition iupdate :: "nat \<Rightarrow> ('a kfs_scheme, unit) kop" where
  "iupdate ip =
     kseq (kget (\<lambda>s. (inode_at s ip, sb s))) (\<lambda>(x, sblk).
     kseq (bread (i_dev x) (IBLOCK (i_inum x) sblk)) (\<lambda>bp.
     kseq (set_data bp (\<lambda>bs. put_dinode bs (i_inum x) (inode_dinode x))) (\<lambda>_.
     kseq (log_write bp) (\<lambda>_.
     brelse bp))))"

definition idup :: "nat \<Rightarrow> ('a kfs_scheme, nat) kop" where
  "idup ip s = Ok (ip, upd_inode ip (\<lambda>x. x\<lparr>i_ref := i_ref x + 1\<rparr>) s)"

definition load_dinode :: "dinode \<Rightarrow> inode \<Rightarrow> inode" where
  "load_dinode d x = x\<lparr>i_type := d_type d, i_major := d_major d, i_minor := d_minor d,
     i_nlink := d_nlink d, i_size := d_size d, i_addrs := d_addrs d\<rparr>"

definition ilock :: "nat \<Rightarrow> ('a kfs_scheme, unit) kop" where
  "ilock ip s =
     (if sint (i_ref (inode_at s ip)) < 1 then Panic ''ilock''
      else
        kbind (acquiresleep (i_lock (inode_at s ip)) s) (\<lambda>(lk, s).
        let s1 = upd_inode ip (\<lambda>x. x\<lparr>i_lock := lk\<rparr>) s; x = inode_at s1 ip in
        if i_valid x then Ok ((), s1)
        else
          kseq (bread (i_dev x) (IBLOCK (i_inum x) (sb s1))) (\<lambda>bp.
          kseq (data_of bp) (\<lambda>d.
          kseq (kmod (upd_inode ip (load_dinode (dinode_at d (i_inum x))))) (\<lambda>_.
          kseq (brelse bp) (\<lambda>_.
          kseq (kmod (upd_inode ip (\<lambda>x. x\<lparr>i_valid := True\<rparr>))) (\<lambda>_.
          kseq (kget (\<lambda>s. i_type (inode_at s ip))) (\<lambda>ty.
          if ty = 0 then kpanic ''ilock: no type'' else kret ())))))) s1))"

definition iunlock :: "nat \<Rightarrow> ('a kfs_scheme, unit) kop" where
  "iunlock ip s =
     kbind (holdingsleep (i_lock (inode_at s ip)) s) (\<lambda>(held, s).
     if \<not> held \<or> sint (i_ref (inode_at s ip)) < 1 then Panic ''iunlock''
     else
       kbind (releasesleep (ChanInodeLock ip) (i_lock (inode_at s ip)) s) (\<lambda>(lk, s).
       Ok ((), upd_inode ip (\<lambda>x. x\<lparr>i_lock := lk\<rparr>) s)))"

subsection \<open>The contents of an inode\<close>

definition balloc_addr :: "nat \<Rightarrow> nat \<Rightarrow> ('a kfs_scheme, uint) kop" where
  "balloc_addr ip k s =
     (let x = inode_at s ip; addr = i_addrs x ! k in
      if addr = 0 then
        kseq (balloc (i_dev x)) (\<lambda>a.
        kseq (kmod (upd_inode ip (\<lambda>x. x\<lparr>i_addrs := (i_addrs x)[k := a]\<rparr>))) (\<lambda>_.
        kret a)) s
      else Ok (addr, s))"

definition bmap :: "nat \<Rightarrow> uint \<Rightarrow> ('a kfs_scheme, uint) kop" where
  "bmap ip bn0 =
     (if bn0 < of_nat NDIRECT then balloc_addr ip (unat bn0)
      else
        let bn = bn0 - of_nat NDIRECT in
        if bn < of_nat NINDIRECT then
          kseq (balloc_addr ip NDIRECT) (\<lambda>iaddr.
          kseq (kget (\<lambda>s. i_dev (inode_at s ip))) (\<lambda>dev.
          kseq (bread dev iaddr) (\<lambda>bp.
          kseq (data_of bp) (\<lambda>d.
          let addr = word32_at d (4 * unat bn) in
          if addr = 0 then
            kseq (balloc dev) (\<lambda>addr.
            kseq (set_data bp (\<lambda>bs. put_bytes bs (4 * unat bn) (le_bytes 4 addr))) (\<lambda>_.
            kseq (log_write bp) (\<lambda>_.
            kseq (brelse bp) (\<lambda>_.
            kret addr))))
          else
            kseq (brelse bp) (\<lambda>_.
            kret addr)))))
        else kpanic ''bmap: out of range'')"

definition itrunc_direct :: "nat \<Rightarrow> nat \<Rightarrow> ('a kfs_scheme, unit) kop" where
  "itrunc_direct ip i s =
     (let x = inode_at s ip in
      if i_addrs x ! i \<noteq> 0 then
        kseq (bfree (i_dev x) (i_addrs x ! i)) (\<lambda>_.
        kmod (upd_inode ip (\<lambda>x. x\<lparr>i_addrs := (i_addrs x)[i := 0]\<rparr>))) s
      else Ok ((), s))"

definition itrunc_indirect :: "uint \<Rightarrow> nat \<Rightarrow> nat \<Rightarrow> ('a kfs_scheme, unit) kop" where
  "itrunc_indirect dev bp j =
     kseq (data_of bp) (\<lambda>d.
     let a = word32_at d (4 * j) in
     kwhen (a \<noteq> 0) (bfree dev a))"

definition itrunc :: "nat \<Rightarrow> ('a kfs_scheme, unit) kop" where
  "itrunc ip =
     kseq (kforeach (itrunc_direct ip) [0..<NDIRECT]) (\<lambda>_.
     kseq (kget (\<lambda>s. inode_at s ip)) (\<lambda>x.
     kseq (kwhen (i_addrs x ! NDIRECT \<noteq> 0)
       (kseq (bread (i_dev x) (i_addrs x ! NDIRECT)) (\<lambda>bp.
        kseq (kforeach (itrunc_indirect (i_dev x) bp) [0..<NINDIRECT]) (\<lambda>_.
        kseq (brelse bp) (\<lambda>_.
        kseq (bfree (i_dev x) (i_addrs x ! NDIRECT)) (\<lambda>_.
        kmod (upd_inode ip (\<lambda>x. x\<lparr>i_addrs := (i_addrs x)[NDIRECT := 0]\<rparr>)))))))) (\<lambda>_.
     kseq (kmod (upd_inode ip (\<lambda>x. x\<lparr>i_size := 0\<rparr>))) (\<lambda>_.
     iupdate ip))))"

definition iput :: "nat \<Rightarrow> ('a kfs_scheme, unit) kop" where
  "iput ip s =
     (let x = inode_at s ip in
      kseq (if i_ref x = 1 \<and> i_valid x \<and> i_nlink x = 0 then
              kseq (acquiresleep (i_lock x)) (\<lambda>lk.
              kseq (kmod (upd_inode ip (\<lambda>x. x\<lparr>i_lock := lk\<rparr>))) (\<lambda>_.
              kseq (itrunc ip) (\<lambda>_.
              kseq (kmod (upd_inode ip (\<lambda>x. x\<lparr>i_type := 0\<rparr>))) (\<lambda>_.
              kseq (iupdate ip) (\<lambda>_.
              kseq (kmod (upd_inode ip (\<lambda>x. x\<lparr>i_valid := False\<rparr>))) (\<lambda>_.
              kseq (kget (\<lambda>s. i_lock (inode_at s ip))) (\<lambda>lk.
              kseq (releasesleep (ChanInodeLock ip) lk) (\<lambda>lk.
              kmod (upd_inode ip (\<lambda>x. x\<lparr>i_lock := lk\<rparr>))))))))))
            else kret ()) (\<lambda>_.
      kmod (upd_inode ip (\<lambda>x. x\<lparr>i_ref := i_ref x - 1\<rparr>))) s)"

definition iunlockput :: "nat \<Rightarrow> ('a kfs_scheme, unit) kop" where
  "iunlockput ip = kseq (iunlock ip) (\<lambda>_. iput ip)"

end
