(* ===== verification/Xv6_Dir.thy ===== *)
theory Xv6_Dir
  imports Xv6_Fs
begin

section \<open>File contents, directories and path names (kernel/fs.c)\<close>

text \<open>
  \<open>readi\<close> returns the bytes it has copied, which is what a destination outside the page memory
  then holds. A path is the list of its characters without the terminating zero.
\<close>

subsection \<open>Reading and writing\<close>

record stat =
  st_dev :: cint
  st_ino :: uint
  st_type :: ushort
  st_nlink :: ushort
  st_size :: uint64

definition stati :: "inode \<Rightarrow> stat" where
  "stati x = \<lparr>st_dev = i_dev x, st_ino = i_inum x, st_type = i_type x, st_nlink = i_nlink x,
     st_size = ucast (i_size x)\<rparr>"

text \<open>
  \<open>rest\<close> is \<^verbatim>\<open>n - tot\<close>, the bytes still to transfer; \<open>io_chunk\<close> is \<^verbatim>\<open>m\<close>. The loops end because
  every chunk is at least one byte.
\<close>

definition io_chunk :: "uint \<Rightarrow> nat \<Rightarrow> nat" where
  "io_chunk off rest = min rest (BSIZE - unat off mod BSIZE)"

lemma io_chunk_bounds: "0 < rest \<Longrightarrow> 0 < io_chunk off rest" "io_chunk off rest \<le> rest"
  by (simp_all add: io_chunk_def)

function readi_loop :: "nat \<Rightarrow> kdst \<Rightarrow> uint \<Rightarrow> nat \<Rightarrow> ('a kfs_scheme, bool \<times> uchar list) kop" where
  "readi_loop ip dst off rest s =
     (if rest = 0 then Ok ((True, []), s)
      else
        kseq (bmap ip (off div of_nat BSIZE)) (\<lambda>addr.
        kseq (kget (\<lambda>s. i_dev (inode_at s ip))) (\<lambda>dev.
        kseq (bread dev addr) (\<lambda>bp.
        kseq (data_of bp) (\<lambda>d.
        let m = io_chunk off rest; bs = take m (drop (unat off mod BSIZE) d) in
        kseq (either_copyout dst bs) (\<lambda>r.
        if r = -1 then
          kseq (brelse bp) (\<lambda>_. kret (False, []))
        else
          kseq (brelse bp) (\<lambda>_.
          kseq (readi_loop ip (dst_add dst m) (off + of_nat m) (rest - m)) (\<lambda>(ok, more).
          kret (ok, bs @ more)))))))) s)"
  by pat_completeness auto
termination
  by (relation "measure (\<lambda>(ip, dst, off, rest, s). rest)") (simp_all add: io_chunk_bounds)

text \<open>The value and the bytes copied.\<close>

definition readi :: "nat \<Rightarrow> kdst \<Rightarrow> uint \<Rightarrow> uint \<Rightarrow> ('a kfs_scheme, cint \<times> uchar list) kop" where
  "readi ip dst off n s =
     (let size' = i_size (inode_at s ip) in
      if size' < off \<or> off + n < off then Ok ((0, []), s)
      else
        let n1 = (if size' < off + n then size' - off else n) in
        kseq (readi_loop ip dst off (unat n1)) (\<lambda>(ok, bs).
        kret (if ok then n1 else -1, bs)) s)"

text \<open>The number of bytes written before the end or the first failing chunk.\<close>

function writei_loop :: "nat \<Rightarrow> ksrc \<Rightarrow> uint \<Rightarrow> nat \<Rightarrow> ('a kfs_scheme, nat) kop" where
  "writei_loop ip src off rest s =
     (if rest = 0 then Ok (0, s)
      else
        kseq (bmap ip (off div of_nat BSIZE)) (\<lambda>addr.
        kseq (kget (\<lambda>s. i_dev (inode_at s ip))) (\<lambda>dev.
        kseq (bread dev addr) (\<lambda>bp.
        let m = io_chunk off rest in
        kseq (either_copyin src m) (\<lambda>(r, bs).
        kseq (set_data bp (\<lambda>d. put_bytes d (unat off mod BSIZE) bs)) (\<lambda>_.
        if r = -1 then
          kseq (brelse bp) (\<lambda>_. kret 0)
        else
          kseq (log_write bp) (\<lambda>_.
          kseq (brelse bp) (\<lambda>_.
          kseq (writei_loop ip (src_add src m) (off + of_nat m) (rest - m)) (\<lambda>tot.
          kret (m + tot))))))))) s)"
  by pat_completeness auto
termination
  by (relation "measure (\<lambda>(ip, src, off, rest, s). rest)") (simp_all add: io_chunk_bounds)

definition writei :: "nat \<Rightarrow> ksrc \<Rightarrow> uint \<Rightarrow> uint \<Rightarrow> ('a kfs_scheme, cint) kop" where
  "writei ip src off n s =
     (let size' = i_size (inode_at s ip) in
      if size' < off \<or> off + n < off then Ok (-1, s)
      else if of_nat (MAXFILE * BSIZE) < off + n then Ok (-1, s)
      else
        kseq (writei_loop ip src off (unat n)) (\<lambda>tot.
        let off1 = off + of_nat tot in
        kseq (kmod (upd_inode ip (\<lambda>x. if i_size x < off1 then x\<lparr>i_size := off1\<rparr> else x))) (\<lambda>_.
        kseq (iupdate ip) (\<lambda>_.
        kret (of_nat tot)))) s)"

declare readi_loop.simps [simp del] writei_loop.simps [simp del]

subsection \<open>Directories\<close>

definition namecmp :: "uchar list \<Rightarrow> uchar list \<Rightarrow> cint" where
  "namecmp s t = strncmp s t DIRSIZ"

text \<open>A directory entry is a 16-bit inode number and DIRSIZ characters.\<close>

definition dirent_bytes :: "uint \<Rightarrow> uchar list \<Rightarrow> uchar list" where
  "dirent_bytes inum name = le_bytes 2 (ucast inum :: ushort) @ strncpy name DIRSIZ"

definition dirent_inum :: "uchar list \<Rightarrow> ushort" where
  "dirent_inum de = word16_at de 0"

definition dirent_name :: "uchar list \<Rightarrow> uchar list" where
  "dirent_name de = take DIRSIZ (drop 2 de)"

text \<open>
  The offsets of the entries of a directory of the given size. A last offset so high that adding
  16 wraps is never passed: \<open>readi\<close> returns 0 there and the caller panics.
\<close>

definition dirent_offs :: "uint \<Rightarrow> uint list" where
  "dirent_offs size' = map (\<lambda>k. of_nat (16 * k)) [0..<(unat size' + 15) div 16]"

fun dirlookup_loop :: "nat \<Rightarrow> uchar list \<Rightarrow> uint list \<Rightarrow> ('a kfs_scheme, (nat \<times> uint) option) kop" where
  "dirlookup_loop dp name [] s = Ok (None, s)"
| "dirlookup_loop dp name (off # offs) s =
     kseq (readi dp DstVar off 16) (\<lambda>(r, de).
     if r \<noteq> 16 then kpanic ''dirlookup read''
     else if dirent_inum de = 0 then dirlookup_loop dp name offs
     else if namecmp name (dirent_name de) = 0 then
       kseq (kget (\<lambda>s. i_dev (inode_at s dp))) (\<lambda>dev.
       kseq (iget dev (ucast (dirent_inum de))) (\<lambda>ip.
       kret (Some (ip, off))))
     else dirlookup_loop dp name offs) s"

text \<open>The inode found and the offset of its entry.\<close>

definition dirlookup :: "nat \<Rightarrow> uchar list \<Rightarrow> ('a kfs_scheme, (nat \<times> uint) option) kop" where
  "dirlookup dp name s =
     (if i_type (inode_at s dp) \<noteq> T_DIR then Panic ''dirlookup not DIR''
      else dirlookup_loop dp name (dirent_offs (i_size (inode_at s dp))) s)"

text \<open>The second loop of \<open>dirlink\<close>: the offset of the first free entry, or the end.\<close>

fun dirlink_slot :: "nat \<Rightarrow> uint \<Rightarrow> uint list \<Rightarrow> ('a kfs_scheme, uint) kop" where
  "dirlink_slot dp end_off [] s = Ok (end_off, s)"
| "dirlink_slot dp end_off (off # offs) s =
     kseq (readi dp DstVar off 16) (\<lambda>(r, de).
     if r \<noteq> 16 then kpanic ''dirlink read''
     else if dirent_inum de = 0 then kret off
     else dirlink_slot dp end_off offs) s"

definition dirlink :: "nat \<Rightarrow> uchar list \<Rightarrow> uint \<Rightarrow> ('a kfs_scheme, cint) kop" where
  "dirlink dp name inum =
     kseq (dirlookup dp name) (\<lambda>found.
     case found of
       Some (ip, _) \<Rightarrow> kseq (iput ip) (\<lambda>_. kret (-1))
     | None \<Rightarrow>
         kseq (kget (\<lambda>s. dirent_offs (i_size (inode_at s dp)))) (\<lambda>offs.
         kseq (dirlink_slot dp (of_nat (16 * length offs)) offs) (\<lambda>off.
         kseq (writei dp (SrcVar (dirent_bytes inum name)) off 16) (\<lambda>r.
         if r \<noteq> 16 then kpanic ''dirlink'' else kret 0))))"

subsection \<open>Paths\<close>

abbreviation (input) SLASH :: uchar where "SLASH \<equiv> 47"

text \<open>The rest of the path and the new contents of \<^verbatim>\<open>name\<close>, a buffer of DIRSIZ bytes.\<close>

definition skipelem :: "uchar list \<Rightarrow> uchar list \<Rightarrow> (uchar list \<times> uchar list) option" where
  "skipelem path name =
     (let s = dropWhile (\<lambda>c. c = SLASH) path in
      if s = [] then None
      else
        let elem = takeWhile (\<lambda>c. c \<noteq> SLASH) s;
            path' = dropWhile (\<lambda>c. c \<noteq> SLASH) s;
            name' = (if DIRSIZ \<le> length elem then put_bytes name 0 (take DIRSIZ elem)
                     else put_bytes name 0 (elem @ [0]))
        in Some (dropWhile (\<lambda>c. c = SLASH) path', name'))"

lemma length_dropWhile_le: "length (dropWhile P xs) \<le> length xs"
  by (induction xs) auto

lemma skipelem_shorter: "skipelem path name = Some (path', name') \<Longrightarrow> length path' < length path"
proof -
  assume a: "skipelem path name = Some (path', name')"
  let ?s = "dropWhile (\<lambda>c. c = SLASH) path"
  have p': "path' = dropWhile (\<lambda>c. c = SLASH) (dropWhile (\<lambda>c. c \<noteq> SLASH) ?s)" and ne: "?s \<noteq> []"
    using a by (auto simp: skipelem_def Let_def split: if_splits)
  obtain c cs where s: "?s = c # cs" using ne by (cases ?s) auto
  have c: "c \<noteq> SLASH" using hd_dropWhile[of "\<lambda>c. c = SLASH" path] s by simp
  have "length path' \<le> length (dropWhile (\<lambda>c. c \<noteq> SLASH) ?s)" unfolding p' by (rule length_dropWhile_le)
  also have "\<dots> \<le> length cs" using s c by (simp add: length_dropWhile_le)
  also have "\<dots> < length ?s" using s by simp
  also have "\<dots> \<le> length path" by (rule length_dropWhile_le)
  finally show ?thesis .
qed

text \<open>The inode, if any, and the contents of \<^verbatim>\<open>name\<close>.\<close>

function namex_loop :: "bool \<Rightarrow> nat \<Rightarrow> uchar list \<Rightarrow> uchar list \<Rightarrow> ('a kfs_scheme, nat option \<times> uchar list) kop" where
  "namex_loop parent ip path name s =
     (case skipelem path name of
        None \<Rightarrow>
          (if parent then kseq (iput ip) (\<lambda>_. kret (None, name)) s
           else Ok ((Some ip, name), s))
      | Some (path1, name1) \<Rightarrow>
          kseq (ilock ip) (\<lambda>_.
          kseq (kget (\<lambda>s. i_type (inode_at s ip))) (\<lambda>ty.
          if ty \<noteq> T_DIR then kseq (iunlockput ip) (\<lambda>_. kret (None, name1))
          else if parent \<and> path1 = [] then kseq (iunlock ip) (\<lambda>_. kret (Some ip, name1))
          else
            kseq (dirlookup ip name1) (\<lambda>found.
            case found of
              None \<Rightarrow> kseq (iunlockput ip) (\<lambda>_. kret (None, name1))
            | Some (next_ip, _) \<Rightarrow>
                kseq (iunlockput ip) (\<lambda>_. namex_loop parent next_ip path1 name1)))) s)"
  by pat_completeness auto
termination
  by (relation "measure (\<lambda>(parent, ip, path, name, s). length path)") (auto dest: skipelem_shorter)

declare namex_loop.simps [simp del]

definition namex :: "uchar list \<Rightarrow> bool \<Rightarrow> uchar list \<Rightarrow> ('a kfs_scheme, nat option \<times> uchar list) kop" where
  "namex path parent name =
     kseq (if path \<noteq> [] \<and> hd path = SLASH then iget ROOTDEV ROOTINO
           else
             kseq curproc (\<lambda>p.
             kseq (kget (\<lambda>s. p_cwd (proc_at s p))) (\<lambda>cwd.
             case cwd of None \<Rightarrow> kpanic ''kerneltrap'' | Some ip \<Rightarrow> idup ip))) (\<lambda>ip.
     namex_loop parent ip path name)"

text \<open>The local buffer \<^verbatim>\<open>name\<close> of \<open>namei\<close> starts with arbitrary contents, which nothing reads.\<close>

definition namei :: "uchar list \<Rightarrow> ('a kfs_scheme, nat option) kop" where
  "namei path = kseq (namex path False (replicate DIRSIZ 0)) (\<lambda>(ip, _). kret ip)"

definition nameiparent :: "uchar list \<Rightarrow> uchar list \<Rightarrow> ('a kfs_scheme, nat option \<times> uchar list) kop" where
  "nameiparent path name = namex path True name"

end
