(* ===== verification/Xv6_Sched.thy ===== *)
theory Xv6_Sched
  imports Xv6_Proc "HOL-Library.Signed_Division"
begin

section \<open>The four scheduling policies (kernel/proc.c, kernel/trap.c)\<close>

text \<open>
  The Makefile compiles the kernel with one of the macros RR, FCFS, PBS and MLFQ; the value
  \<open>policy\<close> selects the same code here. This theory holds the four selection functions, the
  loop body of \<^verbatim>\<open>scheduler()\<close>, the clock interrupt with its time accounting and priorities,
  and the timer part of \<^verbatim>\<open>usertrap()\<close> and \<^verbatim>\<open>kerneltrap()\<close>.

  An array index that the source takes from an \<^verbatim>\<open>int\<close> field (\<^verbatim>\<open>mlfq[p->level]\<close>) is read with
  \<open>unat\<close>; the invariant \<open>mlfq_inv\<close> keeps it in range. Outside the range, where C has no meaning, the statistics update \<^verbatim>\<open>p->q[p->level]++\<close> of
  \<open>sched_dispatch\<close> and \<open>clockintr\<close> changes nothing here and the shift \<^verbatim>\<open>1 << p->level\<close> is the one on numbers.

  The source runs \<^verbatim>\<open>mlfq_scheduler()\<close> and the other selection functions with interrupts enabled and with no lock that spans the selection. Each of them is
  one step of this model: the theorems speak of one hart whose selection no interrupt and no other hart disturbs.
\<close>

datatype policy = RR | FCFS | PBS | MLFQ

subsection \<open>Round robin, first come first served, priorities\<close>

definition RoundRobin :: "'a kproc_scheme \<Rightarrow> nat \<times> 'a kproc_scheme" where
  "RoundRobin s =
     (let a = word_of_int (sint (alpha s + 1) smod int NPROC) :: cint
      in (unat a, s\<lparr>alpha := a\<rparr>))"

definition fcfs_step :: "'a kproc_scheme \<Rightarrow> nat \<Rightarrow> nat \<times> cint \<Rightarrow> nat \<times> cint" where
  "fcfs_step s i = (\<lambda>(index, mintime).
     if p_state (proc_at s i) \<noteq> RUNNABLE then (index, mintime)
     else if p_ctime (proc_at s i) \<le>s mintime then (i, p_ctime (proc_at s i))
     else (index, mintime))"

definition fcfs :: "'a kproc_scheme \<Rightarrow> nat" where
  "fcfs s = fst (fold (fcfs_step s) [0..<NPROC] (0, ticks s))"

definition pbs_step :: "'a kproc_scheme \<Rightarrow> nat \<Rightarrow> cint \<times> nat \<Rightarrow> cint \<times> nat" where
  "pbs_step s i = (\<lambda>(min_priority, index).
     if p_state (proc_at s i) \<noteq> RUNNABLE then (min_priority, index)
     else
       let pi = proc_at s i;
           (m1, x1) = (if p_dynamic_priority pi <s min_priority then (p_dynamic_priority pi, i)
                       else (min_priority, index));
           (m2, x2) = (if p_dynamic_priority pi = m1 \<and> p_n_run pi <s p_n_run (proc_at s x1)
                       then (p_dynamic_priority pi, i) else (m1, x1));
           (m3, x3) = (if p_dynamic_priority pi = m2 \<and> p_n_run pi = p_n_run (proc_at s x2) \<and>
                          p_ctime pi <s p_ctime (proc_at s x2)
                       then (p_dynamic_priority pi, i) else (m2, x2))
       in (m3, x3))"

definition pbs_scheduler :: "'a kproc_scheme \<Rightarrow> nat" where
  "pbs_scheduler s = snd (fold (pbs_step s) [0..<NPROC] (10000, 1))"

subsection \<open>Multi-level feedback queues\<close>

definition plevel :: "proc \<Rightarrow> nat" where
  "plevel pr = unat (p_level pr)"

definition upd_mlfq :: "nat \<Rightarrow> (Queue \<Rightarrow> Queue kres) \<Rightarrow> 'a kproc_scheme \<Rightarrow> 'a kproc_scheme kres" where
  "upd_mlfq l f s = kbind (f (mlfq s ! l)) (\<lambda>q. Ok (s\<lparr>mlfq := (mlfq s)[l := q]\<rparr>))"

definition ageing_one :: "nat \<Rightarrow> 'a kproc_scheme \<Rightarrow> 'a kproc_scheme kres" where
  "ageing_one i s =
     (if p_state (proc_at s i) = RUNNABLE \<and> AGETICK \<le> ticks s - p_q_enter (proc_at s i) then
        let s1 = kprintf (''Ageing: %d'' @ newline) [ArgWord (scast (p_pid (proc_at s i)))] s in
        kbind (if p_in_queue (proc_at s1 i) \<noteq> 0
               then kbind (upd_mlfq (plevel (proc_at s1 i))
                             (\<lambda>q. qerase (\<lambda>j. p_pid (proc_at s1 j)) q (p_pid (proc_at s1 i))) s1)
                      (\<lambda>s2. Ok (upd_proc i (\<lambda>pr. pr\<lparr>p_in_queue := 0\<rparr>) s2))
               else Ok s1)
          (\<lambda>s3. let s4 = (if p_level (proc_at s3 i) \<noteq> 0
                          then upd_proc i (\<lambda>pr. pr\<lparr>p_level := p_level pr - 1\<rparr>) s3 else s3)
                in Ok (upd_proc i (\<lambda>pr. pr\<lparr>p_q_enter := ticks s4\<rparr>) s4))
      else Ok s)"

definition ageing :: "'a kproc_scheme \<Rightarrow> 'a kproc_scheme kres" where
  "ageing s = kfold ageing_one [0..<NPROC] s"

definition mlfq_enqueue_one :: "nat \<Rightarrow> 'a kproc_scheme \<Rightarrow> 'a kproc_scheme kres" where
  "mlfq_enqueue_one i s =
     (if p_state (proc_at s i) = RUNNABLE \<and> p_in_queue (proc_at s i) = 0
      then kbind (upd_mlfq (plevel (proc_at s i)) (\<lambda>q. push q (Some i)) s)
             (\<lambda>s1. Ok (upd_proc i (\<lambda>pr. pr\<lparr>p_in_queue := 1\<rparr>) s1))
      else Ok s)"

definition mlfq_enqueue :: "'a kproc_scheme \<Rightarrow> 'a kproc_scheme kres" where
  "mlfq_enqueue s = kfold mlfq_enqueue_one [0..<NPROC] s"

text \<open>
  The inner \<^verbatim>\<open>while\<close> loop. Each round pops one entry, so \<^verbatim>\<open>NPROC + 1\<close> tests of the guard are
  enough for a queue that holds at most \<^verbatim>\<open>NPROC\<close> entries.
\<close>

fun mlfq_drain :: "nat \<Rightarrow> nat \<Rightarrow> 'a kproc_scheme \<Rightarrow> (nat option \<times> 'a kproc_scheme) kres" where
  "mlfq_drain 0 level s = Hang"
| "mlfq_drain (Suc fuel) level s =
     (if q_size (mlfq s ! level) = 0 then Ok (None, s)
      else
        let p = front (mlfq s ! level) in
        kbind (upd_mlfq level pop s)
          (\<lambda>s1. case p of
             None \<Rightarrow> Panic ''kerneltrap''
           | Some i \<Rightarrow>
               let s2 = upd_proc i (\<lambda>pr. pr\<lparr>p_in_queue := 0\<rparr>) s1 in
               if p_state (proc_at s2 i) = RUNNABLE
               then Ok (Some i, upd_proc i (\<lambda>pr. pr\<lparr>p_q_enter := ticks s2\<rparr>) s2)
               else mlfq_drain fuel level s2))"

fun mlfq_pick :: "nat list \<Rightarrow> 'a kproc_scheme \<Rightarrow> (nat option \<times> 'a kproc_scheme) kres" where
  "mlfq_pick [] s = Ok (None, s)"
| "mlfq_pick (level # levels) s =
     kbind (mlfq_drain (NPROC + 1) level s)
       (\<lambda>(p, s1). case p of Some i \<Rightarrow> Ok (Some i, s1) | None \<Rightarrow> mlfq_pick levels s1)"

definition mlfq_scheduler :: "'a kproc_scheme \<Rightarrow> (nat option \<times> 'a kproc_scheme) kres" where
  "mlfq_scheduler s =
     kbind (ageing s) (\<lambda>s1. kbind (mlfq_enqueue s1) (\<lambda>s2. mlfq_pick [0..<NMLFQ] s2))"

subsection \<open>The scheduler loop\<close>

definition sched_pick :: "policy \<Rightarrow> 'a kproc_scheme \<Rightarrow> (nat option \<times> 'a kproc_scheme) kres" where
  "sched_pick pol s =
     (case pol of
        RR \<Rightarrow> (let (p, s1) = RoundRobin s in Ok (Some p, s1))
      | FCFS \<Rightarrow> Ok (Some (fcfs s), s)
      | PBS \<Rightarrow> Ok (Some (pbs_scheduler s), s)
      | MLFQ \<Rightarrow> mlfq_scheduler s)"

text \<open>
  What \<open>scheduler\<close> does with a chosen process before \<^verbatim>\<open>swtch\<close>, and one iteration of its loop up
  to the \<^verbatim>\<open>swtch\<close>, with the index it switches to. \<open>sched_return\<close> is what follows the \<^verbatim>\<open>swtch\<close>.
\<close>

definition sched_dispatch :: "nat \<Rightarrow> 'a kproc_scheme \<Rightarrow> 'a kproc_scheme" where
  "sched_dispatch i s =
     (let (_, s1) = actually_set_priority (p_dynamic_priority (proc_at s i)) (p_pid (proc_at s i)) s;
          s2 = upd_proc i (\<lambda>pr. pr\<lparr>p_change_queue := push_bit (plevel pr) 1,
                                   p_q := (p_q pr)[plevel pr := p_q pr ! plevel pr + 1],
                                   p_state := RUNNING\<rparr>) s1;
          s3 = upd_mycpu (\<lambda>c. c\<lparr>c_proc := Some i\<rparr>) s2
      in upd_proc i (\<lambda>pr. pr\<lparr>p_q_enter := ticks s3, p_n_run := p_n_run pr + 1\<rparr>) s3)"

definition scheduler_iter :: "policy \<Rightarrow> 'a kproc_scheme \<Rightarrow> (nat option \<times> 'a kproc_scheme) kres" where
  "scheduler_iter pol s =
     kbind (sched_pick pol (intr_on s))
       (\<lambda>(p, s1). case p of
          None \<Rightarrow> Ok (None, s1)
        | Some i \<Rightarrow>
            if p_state (proc_at s1 i) = RUNNABLE then Ok (Some i, sched_dispatch i s1)
            else Ok (None, s1))"

definition sched_return :: "'a kproc_scheme \<Rightarrow> 'a kproc_scheme" where
  "sched_return s = upd_mycpu (\<lambda>c. c\<lparr>c_proc := None\<rparr>) s"

subsection \<open>The clock interrupt\<close>

definition cmin :: "cint \<Rightarrow> cint \<Rightarrow> cint" where
  "cmin a b = (if b <s a then b else a)"

definition cmax :: "cint \<Rightarrow> cint \<Rightarrow> cint" where
  "cmax a b = (if b <s a then a else b)"

text \<open>The RISC-V \<^verbatim>\<open>divw\<close> instruction: signed division that truncates, and \<open>-1\<close> for a zero divisor.\<close>

definition divw :: "cint \<Rightarrow> cint \<Rightarrow> cint" where
  "divw a b = (if b = 0 then -1 else word_of_int (sint a sdiv sint b))"

definition clock_proc :: "proc \<Rightarrow> proc" where
  "clock_proc pr =
     (let pr1 = (if p_state pr = SLEEPING then pr\<lparr>p_sleep_time := p_sleep_time pr + 1\<rparr> else pr);
          pr2 = (if p_state pr1 = RUNNING then pr1\<lparr>p_rtime := p_rtime pr1 + 1\<rparr> else pr1);
          pr3 = pr2\<lparr>p_niceness := divw (p_sleep_time pr2) (p_sleep_time pr2 + p_rtime pr2) * 10\<rparr>
      in pr3\<lparr>p_dynamic_priority := cmax 0 (cmin (p_static_priority pr3 - p_niceness pr3 + 5) 100)\<rparr>)"

definition clockintr :: "'a kproc_scheme \<Rightarrow> 'a kproc_scheme" where
  "clockintr s =
     (let s1 = wakeup (Some ChanTicks) (update_time (s\<lparr>ticks := ticks s + 1\<rparr>));
          s2 = (case myproc s1 of
                  None \<Rightarrow> s1
                | Some i \<Rightarrow>
                    upd_proc i (\<lambda>pr. pr\<lparr>p_rtime := p_rtime pr + 1,
                                        p_q := (p_q pr)[plevel pr := p_q pr ! plevel pr + 1],
                                        p_change_queue := p_change_queue pr - 1\<rparr>) s1)
      in for_procs (\<lambda>i. clock_proc) s2)"

text \<open>
  The code that \<^verbatim>\<open>usertrap()\<close> and \<^verbatim>\<open>kerneltrap()\<close> share for a timer interrupt of the running
  process \<open>i\<close>: demotion at the end of its slice and the yield.
\<close>

definition timer_yield :: "policy \<Rightarrow> nat \<Rightarrow> 'a kproc_scheme \<Rightarrow> 'a kproc_scheme" where
  "timer_yield pol i s =
     (case pol of
        FCFS \<Rightarrow> s
      | MLFQ \<Rightarrow>
          if p_change_queue (proc_at s i) \<le>s 0
          then let s1 = (if p_level (proc_at s i) + 1 \<noteq> word_of_nat NMLFQ
                         then upd_proc i (\<lambda>pr. pr\<lparr>p_level := p_level pr + 1\<rparr>) s else s)
               in yield i s1
          else s
      | _ \<Rightarrow> yield i s)"

subsection \<open>The queue invariant\<close>

text \<open>
  Queue \<open>l\<close> holds, once each, the table entries whose \<^verbatim>\<open>in_queue\<close> flag is set and whose level is
  \<open>l\<close>; only runnable processes are queued, and processes in use have different pids.
\<close>

definition queue_of :: "'a kproc_scheme \<Rightarrow> nat \<Rightarrow> nat list" where
  "queue_of s l = queue_list (mlfq s ! l)"

definition mlfq_inv :: "'a kproc_scheme \<Rightarrow> bool" where
  "mlfq_inv s \<longleftrightarrow>
     kproc_ok s \<and> length (mlfq s) = NMLFQ \<and>
     (\<forall>l<NMLFQ. queue_inv (mlfq s ! l) \<and> distinct (queue_of s l)) \<and>
     (\<forall>l<NMLFQ. \<forall>i. i \<in> set (queue_of s l) \<longleftrightarrow>
        i < NPROC \<and> p_in_queue (proc_at s i) \<noteq> 0 \<and> plevel (proc_at s i) = l) \<and>
     (\<forall>i<NPROC. plevel (proc_at s i) < NMLFQ \<and>
        (p_in_queue (proc_at s i) \<noteq> 0 \<longrightarrow> p_state (proc_at s i) = RUNNABLE)) \<and>
     (\<forall>i<NPROC. \<forall>j<NPROC. p_state (proc_at s i) \<noteq> UNUSED \<and> p_state (proc_at s j) \<noteq> UNUSED \<and>
        p_pid (proc_at s i) = p_pid (proc_at s j) \<longrightarrow> i = j)"

lemma mlfq_invD:
  assumes "mlfq_inv s"
  shows "kproc_ok s" "length (procs s) = NPROC" "length (mlfq s) = NMLFQ"
    and "l < NMLFQ \<Longrightarrow> queue_inv (mlfq s ! l)" "l < NMLFQ \<Longrightarrow> distinct (queue_of s l)"
    and "l < NMLFQ \<Longrightarrow> i \<in> set (queue_of s l) \<longleftrightarrow>
      i < NPROC \<and> p_in_queue (proc_at s i) \<noteq> 0 \<and> plevel (proc_at s i) = l"
    and "i < NPROC \<Longrightarrow> plevel (proc_at s i) < NMLFQ"
    and "i < NPROC \<Longrightarrow> p_in_queue (proc_at s i) \<noteq> 0 \<Longrightarrow> p_state (proc_at s i) = RUNNABLE"
    and "i < NPROC \<Longrightarrow> j < NPROC \<Longrightarrow> p_state (proc_at s i) \<noteq> UNUSED \<Longrightarrow>
      p_state (proc_at s j) \<noteq> UNUSED \<Longrightarrow> p_pid (proc_at s i) = p_pid (proc_at s j) \<Longrightarrow> i = j"
  using assms unfolding mlfq_inv_def kproc_ok_def by blast+

lemma mlfq_invI:
  assumes "kproc_ok s" "length (mlfq s) = NMLFQ"
    and "\<And>l. l < NMLFQ \<Longrightarrow> queue_inv (mlfq s ! l)" "\<And>l. l < NMLFQ \<Longrightarrow> distinct (queue_of s l)"
    and "\<And>l i. l < NMLFQ \<Longrightarrow> i \<in> set (queue_of s l) \<longleftrightarrow>
      i < NPROC \<and> p_in_queue (proc_at s i) \<noteq> 0 \<and> plevel (proc_at s i) = l"
    and "\<And>i. i < NPROC \<Longrightarrow> plevel (proc_at s i) < NMLFQ"
    and "\<And>i. i < NPROC \<Longrightarrow> p_in_queue (proc_at s i) \<noteq> 0 \<Longrightarrow> p_state (proc_at s i) = RUNNABLE"
    and "\<And>i j. i < NPROC \<Longrightarrow> j < NPROC \<Longrightarrow> p_state (proc_at s i) \<noteq> UNUSED \<Longrightarrow>
      p_state (proc_at s j) \<noteq> UNUSED \<Longrightarrow> p_pid (proc_at s i) = p_pid (proc_at s j) \<Longrightarrow> i = j"
  shows "mlfq_inv s"
  unfolding mlfq_inv_def using assms by (intro conjI allI impI) simp_all

text \<open>The one shape of update that the loops make: entry \<open>i\<close> and the queue of its level.\<close>

definition requeue :: "nat \<Rightarrow> Queue \<Rightarrow> proc \<Rightarrow> 'a kproc_scheme \<Rightarrow> 'a kproc_scheme" where
  "requeue i q pr s = s\<lparr>procs := (procs s)[i := pr], mlfq := (mlfq s)[plevel (proc_at s i) := q]\<rparr>"

lemma proc_at_requeue:
  "i < length (procs s) \<Longrightarrow> proc_at (requeue i q pr s) j = (if j = i then pr else proc_at s j)"
  by (simp add: requeue_def proc_at_def)

lemma queue_of_requeue:
  "l < length (mlfq s) \<Longrightarrow>
    queue_of (requeue i q pr s) l = (if l = plevel (proc_at s i) then queue_list q else queue_of s l)"
  by (simp add: requeue_def queue_of_def nth_list_update_if)

lemma requeue_inv:
  assumes inv: "mlfq_inv s" and i: "i < NPROC"
    and q: "queue_inv q" "distinct (queue_list q)"
      "set (queue_list q) = (if p_in_queue pr \<noteq> 0 then insert i else (\<lambda>A. A - {i}))
        (set (queue_of s (plevel (proc_at s i))))"
    and pr: "plevel pr < NMLFQ" "p_state pr = p_state (proc_at s i)" "p_pid pr = p_pid (proc_at s i)"
      "p_in_queue pr \<noteq> 0 \<Longrightarrow> plevel pr = plevel (proc_at s i) \<and> p_state pr = RUNNABLE"
  shows "mlfq_inv (requeue i q pr s)"
proof -
  let ?t = "requeue i q pr s" and ?l = "plevel (proc_at s i)"
  note D = mlfq_invD[OF inv]
  have at: "proc_at ?t j = (if j = i then pr else proc_at s j)" for j
    using i D(2) by (simp add: proc_at_requeue)
  have qo: "queue_of ?t l = (if l = ?l then queue_list q else queue_of s l)" if "l < NMLFQ" for l
    using that D(3) by (simp add: queue_of_requeue)
  have l: "?l < NMLFQ" using D(7) i by blast
  show ?thesis
  proof (rule mlfq_invI)
    show "kproc_ok ?t" "length (mlfq ?t) = NMLFQ"
      using D(1,3) by (simp_all add: requeue_def kproc_ok_def hart_ok_def)
  next
    fix k
    assume k: "k < NMLFQ"
    show "queue_inv (mlfq ?t ! k)"
      using k D(3) D(4)[OF k] q(1) by (simp add: requeue_def nth_list_update_if)
    show "distinct (queue_of ?t k)"
      using D(5)[OF k] q(2) by (simp add: qo[OF k])
    fix j
    show "j \<in> set (queue_of ?t k) \<longleftrightarrow>
        j < NPROC \<and> p_in_queue (proc_at ?t j) \<noteq> 0 \<and> plevel (proc_at ?t j) = k"
    proof (cases "k = ?l")
      case True
      with qo[OF k] have "queue_of ?t k = queue_list q" by simp
      then show ?thesis
        using True D(6)[OF l, of j] i q(3) pr(4)
        by (cases "p_in_queue pr = 0"; cases "j = i") (simp_all add: at)
    next
      case False
      with qo[OF k] have "queue_of ?t k = queue_of s k" by simp
      then show ?thesis
        using False D(6)[OF k, of j] i pr(4) by (cases "j = i") (auto simp: at)
    qed
  next
    fix j
    assume j: "j < NPROC"
    show "plevel (proc_at ?t j) < NMLFQ"
      using D(7)[OF j] pr(1) by (simp add: at)
    show "p_state (proc_at ?t j) = RUNNABLE" if "p_in_queue (proc_at ?t j) \<noteq> 0"
      using that D(8)[OF j] pr(4) by (simp add: at split: if_splits)
  next
    fix j k
    assume "j < NPROC" "k < NPROC" "p_state (proc_at ?t j) \<noteq> UNUSED"
      "p_state (proc_at ?t k) \<noteq> UNUSED" "p_pid (proc_at ?t j) = p_pid (proc_at ?t k)"
    then show "j = k"
      using D(9)[of j k] pr(2,3) by (cases "j = i"; cases "k = i") (simp_all add: at)
  qed
qed

lemma mlfq_queue_room:
  assumes "mlfq_inv s" and "l < NMLFQ" and "i < NPROC" and "i \<notin> set (queue_of s l)"
  shows "length (queue_of s l) < NPROC"
proof -
  have "set (queue_of s l) \<subseteq> {..<NPROC} - {i}"
    using mlfq_invD(6)[OF assms(1,2)] assms(4) by blast
  then have "card (set (queue_of s l)) \<le> card ({..<NPROC} - {i})"
    by (intro card_mono) auto
  then show ?thesis
    using assms(3) distinct_card[OF mlfq_invD(5)[OF assms(1,2)]] by simp
qed

subsection \<open>Ageing\<close>

definition expired :: "uint \<Rightarrow> proc \<Rightarrow> bool" where
  "expired t pr \<longleftrightarrow> p_state pr = RUNNABLE \<and> AGETICK \<le> t - p_q_enter pr"

definition aged :: "uint \<Rightarrow> proc \<Rightarrow> proc" where
  "aged t pr =
     (if expired t pr
      then pr\<lparr>p_in_queue := 0, p_level := (if p_level pr = 0 then 0 else p_level pr - 1), p_q_enter := t\<rparr>
      else pr)"

definition sched_frame :: "'a kproc_scheme \<Rightarrow> 'a kproc_scheme \<Rightarrow> bool" where
  "sched_frame s s' \<longleftrightarrow> s' = s\<lparr>procs := procs s', mlfq := mlfq s', kout := kout s'\<rparr>"

lemma sched_frame_refl [simp, intro]: "sched_frame s s"
  by (simp add: sched_frame_def)

lemma sched_frame_trans: "sched_frame s t \<Longrightarrow> sched_frame t u \<Longrightarrow> sched_frame s u"
proof -
  assume st: "sched_frame s t" and tu: "sched_frame t u"
  from st obtain p m k where t: "t = s\<lparr>procs := p, mlfq := m, kout := k\<rparr>"
    unfolding sched_frame_def by blast
  from tu have "u = t\<lparr>procs := procs u, mlfq := mlfq u, kout := kout u\<rparr>"
    unfolding sched_frame_def .
  then show ?thesis unfolding sched_frame_def by (simp add: t)
qed

lemma sched_frameD:
  assumes "sched_frame s s'"
  shows "ticks s' = ticks s" "cpus s' = cpus s" "hart s' = hart s" "initproc s' = initproc s"
    "nextpid s' = nextpid s" "alpha s' = alpha s" "kproc.more s' = kproc.more s"
proof -
  from assms obtain p m k where "s' = s\<lparr>procs := p, mlfq := m, kout := k\<rparr>"
    unfolding sched_frame_def by blast
  then show "ticks s' = ticks s" "cpus s' = cpus s" "hart s' = hart s" "initproc s' = initproc s"
    "nextpid s' = nextpid s" "alpha s' = alpha s" "kproc.more s' = kproc.more s"
    by simp_all
qed

lemma mlfq_inv_kout [simp]: "mlfq_inv (s\<lparr>kout := x\<rparr>) = mlfq_inv s"
  by (simp add: mlfq_inv_def kproc_ok_def hart_ok_def proc_at_def queue_of_def)

lemma kout_frame [simp]:
  "proc_at (s\<lparr>kout := x\<rparr>) i = proc_at s i" "queue_of (s\<lparr>kout := x\<rparr>) l = queue_of s l"
  by (simp_all add: proc_at_def queue_of_def)

lemma sched_frame_requeue [simp, intro]: "sched_frame s ((requeue i q pr s)\<lparr>kout := x\<rparr>)"
  "sched_frame s (requeue i q pr s)"
  by (simp_all add: sched_frame_def requeue_def)

lemma plevel_aged:
  assumes "plevel pr < NMLFQ"
  shows "plevel (aged t pr) = (if expired t pr then plevel pr - 1 else plevel pr)"
proof -
  have "unat (p_level pr - 1) = unat (p_level pr) - 1" if "p_level pr \<noteq> 0"
    using that by (simp add: unat_minus_one)
  then show ?thesis by (auto simp: aged_def plevel_def)
qed

lemma aged_fields [simp]:
  "p_state (aged t pr) = p_state pr" "p_pid (aged t pr) = p_pid pr"
  by (simp_all add: aged_def)

lemma ageing_one_eq:
  assumes inv: "mlfq_inv s" and i: "i < NPROC" and ex: "expired (ticks s) (proc_at s i)"
  shows "\<exists>q x. ageing_one i s = Ok ((requeue i q (aged (ticks s) (proc_at s i)) s)\<lparr>kout := x\<rparr>) \<and>
    queue_inv q \<and> queue_list q = filter (\<lambda>j. j \<noteq> i) (queue_of s (plevel (proc_at s i)))"
proof -
  let ?p = "proc_at s i" and ?l = "plevel (proc_at s i)"
  note D = mlfq_invD[OF inv]
  have l: "?l < NMLFQ" using D(7)[OF i] .
  have len: "i < length (procs s)" using i D(2) by simp
  show ?thesis
  proof (cases "p_in_queue ?p = 0")
    case True
    then have "i \<notin> set (queue_of s ?l)" using D(6)[OF l] by simp
    then have "filter (\<lambda>j. j \<noteq> i) (queue_of s ?l) = queue_of s ?l"
      by (intro filter_True) auto
    moreover have "ageing_one i s = Ok ((requeue i (mlfq s ! ?l) (aged (ticks s) ?p) s)
        \<lparr>kout := kout s @ printf (''Ageing: %d'' @ newline) [ArgWord (scast (p_pid ?p))]\<rparr>)"
      using ex True len
      by (auto simp: ageing_one_def kprintf_def expired_def aged_def requeue_def upd_proc_def
          proc_at_def Let_def intro!: kproc.equality proc.equality
          arg_cong[where f = "\<lambda>pr. (procs s)[i := pr]"])
    ultimately show ?thesis
      using D(4)[OF l] by (auto simp: queue_of_def)
  next
    case False
    then have "i \<in> set (queue_of s ?l)" using D(6)[OF l] i by simp
    then obtain xs ys where split: "queue_list (mlfq s ! ?l) = xs @ i # ys"
      by (auto simp: queue_of_def dest: split_list)
    with D(5)[OF l] have fresh: "i \<notin> set xs \<union> set ys" by (auto simp: queue_of_def)
    have "p_pid (proc_at s j) \<noteq> p_pid ?p" if j: "j \<in> set xs \<union> set ys" for j
    proof -
      from j have "j \<in> set (queue_of s ?l)" by (auto simp: queue_of_def split)
      then have "j < NPROC" "p_in_queue (proc_at s j) \<noteq> 0" using D(6)[OF l] by auto
      then show ?thesis using D(9)[of j i] D(8)[of j] D(8)[of i] False i j fresh by auto
    qed
    with qerase_present[OF D(4)[OF l] split, of "\<lambda>j. p_pid (proc_at s j)" "p_pid ?p"]
    obtain q where q: "qerase (\<lambda>j. p_pid (proc_at s j)) (mlfq s ! ?l) (p_pid ?p) = Ok q"
      "queue_inv q" "queue_list q = xs @ ys"
      by auto
    from fresh have "filter (\<lambda>j. j \<noteq> i) xs = xs" "filter (\<lambda>j. j \<noteq> i) ys = ys"
      by (auto intro: filter_True)
    then have "filter (\<lambda>j. j \<noteq> i) (queue_of s ?l) = xs @ ys"
      by (simp add: queue_of_def split)
    moreover have "ageing_one i s = Ok ((requeue i q (aged (ticks s) ?p) s)
        \<lparr>kout := kout s @ printf (''Ageing: %d'' @ newline) [ArgWord (scast (p_pid ?p))]\<rparr>)"
      using ex False len q(1)
      by (auto simp: ageing_one_def kprintf_def expired_def aged_def requeue_def upd_proc_def
          upd_mlfq_def proc_at_def Let_def intro!: kproc.equality proc.equality
          arg_cong[where f = "\<lambda>pr. (procs s)[i := pr]"])
    ultimately show ?thesis using q by auto
  qed
qed

lemma ageing_one_ok:
  assumes inv: "mlfq_inv s" and i: "i < NPROC"
  shows "\<exists>s'. ageing_one i s = Ok s' \<and> mlfq_inv s' \<and> sched_frame s s' \<and>
    (\<forall>j. proc_at s' j = (if j = i then aged (ticks s) (proc_at s j) else proc_at s j)) \<and>
    (\<forall>l<NMLFQ. queue_of s' l =
       filter (\<lambda>j. \<not> (j = i \<and> expired (ticks s) (proc_at s j))) (queue_of s l))"
proof (cases "expired (ticks s) (proc_at s i)")
  case False
  then have "ageing_one i s = Ok s" "aged (ticks s) (proc_at s i) = proc_at s i"
    by (auto simp: ageing_one_def expired_def aged_def)
  moreover from False have "\<not> (j = i \<and> expired (ticks s) (proc_at s j))" for j by blast
  ultimately show ?thesis using inv by simp
next
  case True
  let ?p = "proc_at s i" and ?l = "plevel (proc_at s i)"
  let ?pr = "aged (ticks s) ?p"
  note D = mlfq_invD[OF inv]
  from ageing_one_eq[OF inv i True] obtain q x where
    q: "ageing_one i s = Ok ((requeue i q ?pr s)\<lparr>kout := x\<rparr>)" "queue_inv q"
      "queue_list q = filter (\<lambda>j. j \<noteq> i) (queue_of s ?l)"
    by blast
  have l: "?l < NMLFQ" by (rule D(7)[OF i])
  have pr: "p_in_queue ?pr = 0" "plevel ?pr < NMLFQ"
    using True plevel_aged[OF l, of "ticks s"] l by (simp_all add: aged_def)
  have "mlfq_inv (requeue i q ?pr s)"
    using pr q(2,3) D(5)[OF l] by (intro requeue_inv[OF inv i]) auto
  moreover have "queue_of (requeue i q ?pr s) k =
      filter (\<lambda>j. \<not> (j = i \<and> expired (ticks s) (proc_at s j))) (queue_of s k)" if k: "k < NMLFQ" for k
  proof (cases "k = ?l")
    case True
    with \<open>expired (ticks s) ?p\<close> show ?thesis
      using k D(3) q(3) by (auto simp: queue_of_requeue intro!: filter_cong)
  next
    case False
    then have "i \<notin> set (queue_of s k)" using D(6)[OF k, of i] by simp
    then have "filter (\<lambda>j. \<not> (j = i \<and> expired (ticks s) (proc_at s j))) (queue_of s k) = queue_of s k"
      by (intro filter_True) auto
    with False show ?thesis
      using k D(3) by (simp add: queue_of_requeue)
  qed
  moreover have "proc_at (requeue i q ?pr s) j = (if j = i then ?pr else proc_at s j)" for j
    using i D(2) by (simp add: proc_at_requeue)
  ultimately show ?thesis using q(1) by auto
qed

lemma ageing_ok:
  assumes inv: "mlfq_inv s"
  shows "\<exists>s'. ageing s = Ok s' \<and> mlfq_inv s' \<and> sched_frame s s' \<and>
    (\<forall>i<NPROC. proc_at s' i = aged (ticks s) (proc_at s i)) \<and>
    (\<forall>l<NMLFQ. queue_of s' l = filter (\<lambda>i. \<not> expired (ticks s) (proc_at s i)) (queue_of s l))"
proof -
  let ?P = "\<lambda>js t. mlfq_inv t \<and> sched_frame s t \<and>
    (\<forall>j. proc_at t j = (if j \<in> set js then aged (ticks s) (proc_at s j) else proc_at s j)) \<and>
    (\<forall>l<NMLFQ. queue_of t l =
      filter (\<lambda>j. \<not> (j \<in> set js \<and> expired (ticks s) (proc_at s j))) (queue_of s l))"
  have "\<exists>s'. kfold ageing_one [0..<NPROC] s = Ok s' \<and> ?P [0..<NPROC] s'"
  proof (rule kfold_invariant)
    show "?P [] s" using inv by simp
  next
    fix js i rest t
    assume part: "[0..<NPROC] = js @ i # rest" and P: "?P js t"
    from upt_eq_append_Cons(1,2)[OF part] have i: "i \<notin> set js" "i < NPROC" by auto
    from P have tk: "ticks t = ticks s" by (auto dest: sched_frameD)
    from P have ti: "proc_at t i = proc_at s i" using i by simp
    from P ageing_one_ok[of t i] i(2) obtain t' where
      t': "ageing_one i t = Ok t'" "mlfq_inv t'" "sched_frame t t'"
        "\<forall>j. proc_at t' j = (if j = i then aged (ticks t) (proc_at t j) else proc_at t j)"
        "\<forall>l<NMLFQ. queue_of t' l =
          filter (\<lambda>j. \<not> (j = i \<and> expired (ticks t) (proc_at t j))) (queue_of t l)"
      by blast
    have "sched_frame s t'"
      using P t'(3) sched_frame_trans[of s t t'] by blast
    moreover have "proc_at t' j =
        (if j \<in> set (js @ [i]) then aged (ticks s) (proc_at s j) else proc_at s j)" for j
      using P t'(4) i ti tk by (cases "j = i") simp_all
    moreover have "queue_of t' l =
        filter (\<lambda>j. \<not> (j \<in> set (js @ [i]) \<and> expired (ticks s) (proc_at s j))) (queue_of s l)"
      if "l < NMLFQ" for l
      using P t'(5) that ti tk by (auto intro!: filter_cong)
    ultimately have "?P (js @ [i]) t'" using t'(2) by blast
    with t'(1) show "\<exists>t'. ageing_one i t = Ok t' \<and> ?P (js @ [i]) t'" by blast
  qed
  then obtain s' where "ageing s = Ok s'" and P: "?P [0..<NPROC] s'"
    by (auto simp: ageing_def)
  moreover have "queue_of s' l = filter (\<lambda>i. \<not> expired (ticks s) (proc_at s i)) (queue_of s l)"
    if "l < NMLFQ" for l
    using P that mlfq_invD(6)[OF inv that] by (auto intro!: filter_cong)
  ultimately show ?thesis by auto
qed

subsection \<open>Filling the queues\<close>

definition unqueued :: "proc \<Rightarrow> bool" where
  "unqueued pr \<longleftrightarrow> p_state pr = RUNNABLE \<and> p_in_queue pr = 0"

definition queued :: "proc \<Rightarrow> proc" where
  "queued pr = (if unqueued pr then pr\<lparr>p_in_queue := 1\<rparr> else pr)"

lemma queued_fields [simp]:
  "p_state (queued pr) = p_state pr" "p_pid (queued pr) = p_pid pr" "plevel (queued pr) = plevel pr"
  by (simp_all add: queued_def plevel_def)

lemma mlfq_enqueue_one_ok:
  assumes inv: "mlfq_inv s" and i: "i < NPROC"
  shows "\<exists>s'. mlfq_enqueue_one i s = Ok s' \<and> mlfq_inv s' \<and> sched_frame s s' \<and>
    (\<forall>j. proc_at s' j = (if j = i then queued (proc_at s j) else proc_at s j)) \<and>
    (\<forall>l<NMLFQ. queue_of s' l =
       queue_of s l @ filter (\<lambda>j. unqueued (proc_at s j) \<and> plevel (proc_at s j) = l) [i])"
proof (cases "unqueued (proc_at s i)")
  case False
  then have "mlfq_enqueue_one i s = Ok s" "queued (proc_at s i) = proc_at s i"
    by (auto simp: mlfq_enqueue_one_def unqueued_def queued_def)
  with False inv show ?thesis by simp
next
  case True
  let ?p = "proc_at s i" and ?l = "plevel (proc_at s i)"
  note D = mlfq_invD[OF inv]
  have l: "?l < NMLFQ" by (rule D(7)[OF i])
  have len: "i < length (procs s)" using i D(2) by simp
  have new: "i \<notin> set (queue_of s ?l)"
    using True D(6)[OF l] by (simp add: unqueued_def)
  from push_ok[OF D(4)[OF l], of i] mlfq_queue_room[OF inv l i new]
  obtain q where q: "push (mlfq s ! ?l) (Some i) = Ok q" "queue_inv q"
    "queue_list q = queue_of s ?l @ [i]"
    by (auto simp: queue_of_def)
  have "mlfq_enqueue_one i s = Ok (requeue i q (queued ?p) s)"
    using True q(1) len
    by (simp add: mlfq_enqueue_one_def unqueued_def queued_def upd_mlfq_def requeue_def upd_proc_def
        proc_at_def)
  moreover have "mlfq_inv (requeue i q (queued ?p) s)"
    using True q(2,3) D(5)[OF l] new l
    by (intro requeue_inv[OF inv i]) (auto simp: queued_def unqueued_def plevel_def)
  moreover have "proc_at (requeue i q (queued ?p) s) j = (if j = i then queued ?p else proc_at s j)" for j
    using len by (simp add: proc_at_requeue)
  moreover have "queue_of (requeue i q (queued ?p) s) k =
      queue_of s k @ filter (\<lambda>j. unqueued (proc_at s j) \<and> plevel (proc_at s j) = k) [i]"
    if "k < NMLFQ" for k
    using that True D(3) q(3) by (simp add: queue_of_requeue)
  ultimately show ?thesis by auto
qed

lemma mlfq_enqueue_ok:
  assumes inv: "mlfq_inv s"
  shows "\<exists>s'. mlfq_enqueue s = Ok s' \<and> mlfq_inv s' \<and> sched_frame s s' \<and>
    (\<forall>i<NPROC. proc_at s' i = queued (proc_at s i)) \<and>
    (\<forall>l<NMLFQ. queue_of s' l =
      queue_of s l @ filter (\<lambda>j. unqueued (proc_at s j) \<and> plevel (proc_at s j) = l) [0..<NPROC])"
proof -
  let ?P = "\<lambda>js t. mlfq_inv t \<and> sched_frame s t \<and>
    (\<forall>j. proc_at t j = (if j \<in> set js then queued (proc_at s j) else proc_at s j)) \<and>
    (\<forall>l<NMLFQ. queue_of t l =
      queue_of s l @ filter (\<lambda>j. unqueued (proc_at s j) \<and> plevel (proc_at s j) = l) js)"
  have "\<exists>s'. kfold mlfq_enqueue_one [0..<NPROC] s = Ok s' \<and> ?P [0..<NPROC] s'"
  proof (rule kfold_invariant)
    show "?P [] s" using inv by simp
  next
    fix js i rest t
    assume part: "[0..<NPROC] = js @ i # rest" and P: "?P js t"
    from upt_eq_append_Cons(1,2)[OF part] have i: "i \<notin> set js" "i < NPROC" by auto
    from P have ti: "proc_at t i = proc_at s i" using i by simp
    from P mlfq_enqueue_one_ok[of t i] i(2) obtain t' where
      t': "mlfq_enqueue_one i t = Ok t'" "mlfq_inv t'" "sched_frame t t'"
        "\<forall>j. proc_at t' j = (if j = i then queued (proc_at t j) else proc_at t j)"
        "\<forall>l<NMLFQ. queue_of t' l =
          queue_of t l @ filter (\<lambda>j. unqueued (proc_at t j) \<and> plevel (proc_at t j) = l) [i]"
      by blast
    have "sched_frame s t'"
      using P t'(3) sched_frame_trans[of s t t'] by blast
    moreover have "proc_at t' j = (if j \<in> set (js @ [i]) then queued (proc_at s j) else proc_at s j)" for j
      using P t'(4) i ti by (cases "j = i") simp_all
    moreover have "queue_of t' l = queue_of s l @
        filter (\<lambda>j. unqueued (proc_at s j) \<and> plevel (proc_at s j) = l) (js @ [i])" if "l < NMLFQ" for l
      using P t'(5) that ti by simp
    ultimately have "?P (js @ [i]) t'" using t'(2) by blast
    with t'(1) show "\<exists>t'. mlfq_enqueue_one i t = Ok t' \<and> ?P (js @ [i]) t'" by blast
  qed
  then show ?thesis by (auto simp: mlfq_enqueue_def)
qed

subsection \<open>Picking the front of the first queue that is not empty\<close>

definition picked :: "uint \<Rightarrow> proc \<Rightarrow> proc" where
  "picked t pr = pr\<lparr>p_in_queue := 0, p_q_enter := t\<rparr>"

lemma q_size_zero: "queue_inv q \<Longrightarrow> q_size q = 0 \<longleftrightarrow> queue_list q = []"
  by (erule queue_invE) auto

lemma mlfq_drain_Nil:
  "mlfq_inv s \<Longrightarrow> l < NMLFQ \<Longrightarrow> queue_of s l = [] \<Longrightarrow> mlfq_drain (Suc n) l s = Ok (None, s)"
  using mlfq_invD(4)[of s l] q_size_zero[of "mlfq s ! l"] by (simp add: queue_of_def)

lemma mlfq_drain_Cons:
  assumes inv: "mlfq_inv s" and l: "l < NMLFQ" and q: "queue_of s l = i # rest"
  shows "\<exists>s'. mlfq_drain (Suc n) l s = Ok (Some i, s') \<and> mlfq_inv s' \<and> sched_frame s s' \<and>
    (\<forall>j. proc_at s' j = (if j = i then picked (ticks s) (proc_at s j) else proc_at s j)) \<and>
    (\<forall>k<NMLFQ. queue_of s' k = filter (\<lambda>j. j \<noteq> i) (queue_of s k))"
proof -
  note D = mlfq_invD[OF inv]
  from D(6)[OF l, of i] q have i: "i < NPROC" "p_in_queue (proc_at s i) \<noteq> 0" "plevel (proc_at s i) = l"
    by auto
  have len: "i < length (procs s)" using i D(2) by simp
  have run: "p_state (proc_at s i) = RUNNABLE" by (rule D(8)[OF i(1,2)])
  from pop_ok[OF D(4)[OF l]] q obtain q' where q': "pop (mlfq s ! l) = Ok q'" "queue_inv q'"
    "queue_list q' = rest"
    by (auto simp: queue_of_def)
  have "q_size (mlfq s ! l) \<noteq> 0" "front (mlfq s ! l) = Some i"
    using q q_size_zero[OF D(4)[OF l]] front_queue_list[OF D(4)[OF l]] by (auto simp: queue_of_def)
  then have "mlfq_drain (Suc n) l s = Ok (Some i, requeue i q' (picked (ticks s) (proc_at s i)) s)"
    using q'(1) run len i(3)
    by (simp add: upd_mlfq_def requeue_def upd_proc_def proc_at_def picked_def Let_def)
  moreover have "mlfq_inv (requeue i q' (picked (ticks s) (proc_at s i)) s)"
    using q' q D(5)[OF l] i(3) l
    by (intro requeue_inv[OF inv i(1)]) (auto simp: picked_def plevel_def)
  moreover have "queue_of (requeue i q' (picked (ticks s) (proc_at s i)) s) k =
      filter (\<lambda>j. j \<noteq> i) (queue_of s k)" if k: "k < NMLFQ" for k
  proof (cases "k = l")
    case True
    have "filter (\<lambda>j. j \<noteq> i) rest = rest"
      using D(5)[OF l] q by (intro filter_True) auto
    with True show ?thesis using k D(3) q' q i(3) by (simp add: queue_of_requeue)
  next
    case False
    then have "i \<notin> set (queue_of s k)" using D(6)[OF k, of i] i(3) by simp
    then have "filter (\<lambda>j. j \<noteq> i) (queue_of s k) = queue_of s k"
      by (intro filter_True) auto
    with False show ?thesis using k D(3) i(3) by (simp add: queue_of_requeue)
  qed
  ultimately show ?thesis
    using len by (auto simp: proc_at_requeue)
qed

lemma mlfq_pick_ok:
  assumes "mlfq_inv s" and "set ls \<subseteq> {..<NMLFQ}"
  shows "case concat (map (queue_of s) ls) of
      [] \<Rightarrow> mlfq_pick ls s = Ok (None, s)
    | i # _ \<Rightarrow> \<exists>s'. mlfq_pick ls s = Ok (Some i, s') \<and> mlfq_inv s' \<and> sched_frame s s' \<and>
        (\<forall>j. proc_at s' j = (if j = i then picked (ticks s) (proc_at s j) else proc_at s j)) \<and>
        (\<forall>k<NMLFQ. queue_of s' k = filter (\<lambda>j. j \<noteq> i) (queue_of s k))"
  using assms(2)
proof (induction ls)
  case Nil
  then show ?case by simp
next
  case (Cons l ls)
  then have l: "l < NMLFQ" by simp
  show ?case
  proof (cases "queue_of s l")
    case Nil
    then have skip: "mlfq_pick (l # ls) s = mlfq_pick ls s"
      "concat (map (queue_of s) (l # ls)) = concat (map (queue_of s) ls)"
      using mlfq_drain_Nil[OF assms(1) l, of NPROC] by simp_all
    show ?thesis
      unfolding skip by (rule Cons.IH) (use Cons.prems in simp)
  next
    case (Cons i rest)
    from mlfq_drain_Cons[OF assms(1) l Cons, of NPROC] obtain s' where
      "mlfq_drain (NPROC + 1) l s = Ok (Some i, s')" "mlfq_inv s'" "sched_frame s s'"
      "\<forall>j. proc_at s' j = (if j = i then picked (ticks s) (proc_at s j) else proc_at s j)"
      "\<forall>k<NMLFQ. queue_of s' k = filter (\<lambda>j. j \<noteq> i) (queue_of s k)"
      by auto
    with Cons show ?thesis by auto
  qed
qed

subsection \<open>The whole selection\<close>

text \<open>
  The processes waiting at level \<open>l\<close> when the selection loop starts, in queue order: those that
  were queued there and have not expired, then the runnable ones that the second loop
  appends, in table order.
\<close>

definition mlfq_waiting :: "'a kproc_scheme \<Rightarrow> nat \<Rightarrow> nat list" where
  "mlfq_waiting s l =
     filter (\<lambda>i. \<not> expired (ticks s) (proc_at s i)) (queue_of s l) @
     filter (\<lambda>i. unqueued (aged (ticks s) (proc_at s i)) \<and> plevel (aged (ticks s) (proc_at s i)) = l)
       [0..<NPROC]"

definition mlfq_choice :: "'a kproc_scheme \<Rightarrow> nat option" where
  "mlfq_choice s =
     (case concat (map (mlfq_waiting s) [0..<NMLFQ]) of [] \<Rightarrow> None | i # _ \<Rightarrow> Some i)"

lemma mlfq_scheduler_ok:
  assumes inv: "mlfq_inv s"
  shows "\<exists>s'. mlfq_scheduler s = Ok (mlfq_choice s, s') \<and> mlfq_inv s' \<and> sched_frame s s' \<and>
    (\<forall>i<NPROC. proc_at s' i =
      (if mlfq_choice s = Some i then picked (ticks s) else id) (queued (aged (ticks s) (proc_at s i)))) \<and>
    (\<forall>l<NMLFQ. queue_of s' l = filter (\<lambda>i. mlfq_choice s \<noteq> Some i) (mlfq_waiting s l))"
proof -
  from ageing_ok[OF inv] obtain s1 where s1: "ageing s = Ok s1" "mlfq_inv s1" "sched_frame s s1"
    "\<forall>i<NPROC. proc_at s1 i = aged (ticks s) (proc_at s i)"
    "\<forall>l<NMLFQ. queue_of s1 l = filter (\<lambda>i. \<not> expired (ticks s) (proc_at s i)) (queue_of s l)"
    by blast
  from mlfq_enqueue_ok[OF s1(2)] obtain s2 where s2: "mlfq_enqueue s1 = Ok s2" "mlfq_inv s2"
    "sched_frame s1 s2" "\<forall>i<NPROC. proc_at s2 i = queued (proc_at s1 i)"
    "\<forall>l<NMLFQ. queue_of s2 l =
      queue_of s1 l @ filter (\<lambda>j. unqueued (proc_at s1 j) \<and> plevel (proc_at s1 j) = l) [0..<NPROC]"
    by blast
  have wait: "queue_of s2 l = mlfq_waiting s l" if "l < NMLFQ" for l
    using that s1(4,5) s2(5) by (auto simp: mlfq_waiting_def intro!: filter_cong)
  have all: "map (queue_of s2) [0..<NMLFQ] = map (mlfq_waiting s) [0..<NMLFQ]"
    by (rule map_cong) (simp_all add: wait)
  have tk: "ticks s2 = ticks s" using s1(3) s2(3) by (simp add: sched_frameD)
  have fr: "sched_frame s s2" using s1(3) s2(3) by (rule sched_frame_trans)
  have run: "mlfq_scheduler s = mlfq_pick [0..<NMLFQ] s2"
    by (simp add: mlfq_scheduler_def s1(1) s2(1))
  have "set [0..<NMLFQ] \<subseteq> {..<NMLFQ}" by auto
  note pick = mlfq_pick_ok[OF s2(2) this, unfolded all]
  show ?thesis
  proof (cases "concat (map (mlfq_waiting s) [0..<NMLFQ])")
    case Nil
    then have ch: "mlfq_choice s = None" unfolding mlfq_choice_def Nil by simp
    from pick have "mlfq_pick [0..<NMLFQ] s2 = Ok (None, s2)" unfolding Nil by simp
    then show ?thesis
      using s1(4) s2(2,4) fr wait by (intro exI[of _ s2]) (simp add: run ch)
  next
    case (Cons i rest)
    then have ch: "mlfq_choice s = Some i" unfolding mlfq_choice_def Cons by simp
    from pick obtain s' where s': "mlfq_pick [0..<NMLFQ] s2 = Ok (Some i, s')"
      "mlfq_inv s'" "sched_frame s2 s'"
      "\<forall>j. proc_at s' j = (if j = i then picked (ticks s2) (proc_at s2 j) else proc_at s2 j)"
      "\<forall>k<NMLFQ. queue_of s' k = filter (\<lambda>j. j \<noteq> i) (queue_of s2 k)"
      unfolding Cons list.case by blast
    have "sched_frame s s'" using fr s'(3) by (rule sched_frame_trans)
    moreover have "filter (\<lambda>j. j \<noteq> i) xs = filter (\<lambda>j. Some i \<noteq> Some j) xs" for xs
      by (rule filter_cong) auto
    ultimately show ?thesis
      using s' tk s1(4) s2(4) wait by (intro exI[of _ s']) (simp add: run ch)
  qed
qed

lemma in_mlfq_waiting:
  assumes inv: "mlfq_inv s" and l: "l < NMLFQ"
  shows "i \<in> set (mlfq_waiting s l) \<longleftrightarrow>
    i < NPROC \<and> p_state (proc_at s i) = RUNNABLE \<and> plevel (aged (ticks s) (proc_at s i)) = l"
proof -
  note D = mlfq_invD[OF inv]
  show ?thesis
  proof (cases "i < NPROC")
    case True
    note lv = plevel_aged[OF D(7)[OF True], of "ticks s"]
    show ?thesis
      using D(6)[OF l, of i] D(8)[OF True] True lv
      by (auto simp: mlfq_waiting_def unqueued_def aged_def expired_def)
  next
    case False
    then show ?thesis using D(6)[OF l, of i] by (simp add: mlfq_waiting_def)
  qed
qed

lemma plevel_aged_bound: "mlfq_inv s \<Longrightarrow> i < NPROC \<Longrightarrow> plevel (aged t (proc_at s i)) < NMLFQ"
  using mlfq_invD(7)[of s i] plevel_aged[of "proc_at s i" t] by (auto split: if_splits)

lemma concat_hd_least:
  assumes "concat (map f [0..<n]) = x # rest"
  shows "\<exists>l<n. x \<in> set (f l) \<and> (\<forall>k<l. f k = [])"
  using assms
proof (induction n arbitrary: rest)
  case (Suc n)
  show ?case
  proof (cases "concat (map f [0..<n])")
    case Nil
    with Suc.prems have "f n = x # rest" by simp
    with Nil show ?thesis by (intro exI[of _ n]) auto
  next
    case (Cons y ys)
    with Suc.prems have "concat (map f [0..<n]) = x # ys" by simp
    then have "\<exists>l<n. x \<in> set (f l) \<and> (\<forall>k<l. f k = [])" by (rule Suc.IH)
    then show ?thesis by (metis less_SucI)
  qed
qed simp

lemma mlfq_choice_None:
  assumes "mlfq_inv s"
  shows "mlfq_choice s = None \<longleftrightarrow> (\<forall>i<NPROC. p_state (proc_at s i) \<noteq> RUNNABLE)"
proof -
  have hd: "(case xs of [] \<Rightarrow> None | i # _ \<Rightarrow> Some i) = None \<longleftrightarrow> xs = []" for xs :: "nat list"
    by (cases xs) simp_all
  have "mlfq_choice s = None \<longleftrightarrow> concat (map (mlfq_waiting s) [0..<NMLFQ]) = []"
    unfolding mlfq_choice_def by (rule hd)
  also have "\<dots> \<longleftrightarrow> (\<forall>l<NMLFQ. mlfq_waiting s l = [])"
    by auto
  also have "\<dots> \<longleftrightarrow> (\<forall>l<NMLFQ. \<forall>i. i \<notin> set (mlfq_waiting s l))"
    by auto
  also have "\<dots> \<longleftrightarrow> (\<forall>i<NPROC. p_state (proc_at s i) \<noteq> RUNNABLE)"
  proof (intro iffI allI impI)
    fix i
    assume none: "\<forall>l<NMLFQ. \<forall>i. i \<notin> set (mlfq_waiting s l)" and i: "i < NPROC"
    note b = plevel_aged_bound[OF assms i, of "ticks s"]
    show "p_state (proc_at s i) \<noteq> RUNNABLE"
      using none b in_mlfq_waiting[OF assms b, of i] i by simp
  qed (auto simp: in_mlfq_waiting[OF assms])
  finally show ?thesis .
qed

lemma mlfq_choice_Some:
  assumes inv: "mlfq_inv s" and ch: "mlfq_choice s = Some i"
  shows "i < NPROC \<and> p_state (proc_at s i) = RUNNABLE \<and>
    (\<forall>j<NPROC. p_state (proc_at s j) = RUNNABLE \<longrightarrow>
      plevel (aged (ticks s) (proc_at s i)) \<le> plevel (aged (ticks s) (proc_at s j)))"
proof -
  from ch obtain rest where "concat (map (mlfq_waiting s) [0..<NMLFQ]) = i # rest"
    unfolding mlfq_choice_def by (cases "concat (map (mlfq_waiting s) [0..<NMLFQ])") (simp_all only: list.case, simp_all)
  from concat_hd_least[OF this]
  obtain l where l: "l < NMLFQ" "i \<in> set (mlfq_waiting s l)" "\<forall>k<l. mlfq_waiting s k = []"
    by blast
  have "l \<le> plevel (aged (ticks s) (proc_at s j))"
    if j: "j < NPROC" "p_state (proc_at s j) = RUNNABLE" for j
  proof (rule ccontr)
    assume "\<not> ?thesis"
    then have k: "plevel (aged (ticks s) (proc_at s j)) < l" by simp
    with l(1) in_mlfq_waiting[OF inv, of "plevel (aged (ticks s) (proc_at s j))" j] j
    have "j \<in> set (mlfq_waiting s (plevel (aged (ticks s) (proc_at s j))))" by simp
    with l(3) k show False by simp
  qed
  with in_mlfq_waiting[OF inv l(1), of i] l(2) show ?thesis by simp
qed

subsection \<open>The invariant survives the rest of the kernel\<close>

text \<open>
  What an operation may do to a table entry outside the selection loops without breaking the
  queues: it leaves the flag and the pid alone, and a queued process keeps its level and stays
  runnable.
\<close>

definition queue_keep :: "proc \<Rightarrow> proc \<Rightarrow> bool" where
  "queue_keep pr pr' \<longleftrightarrow>
     p_in_queue pr' = p_in_queue pr \<and> p_pid pr' = p_pid pr \<and> plevel pr' < NMLFQ \<and>
     (p_in_queue pr \<noteq> 0 \<longrightarrow> plevel pr' = plevel pr \<and> p_state pr' = RUNNABLE) \<and>
     (p_state pr' \<noteq> UNUSED \<longrightarrow> p_state pr \<noteq> UNUSED)"

lemma mlfq_inv_keep:
  assumes inv: "mlfq_inv s" and "kproc_ok t" and q: "mlfq t = mlfq s"
    and keep: "\<And>i. i < NPROC \<Longrightarrow> queue_keep (proc_at s i) (proc_at t i)"
  shows "mlfq_inv t"
proof (rule mlfq_invI)
  note D = mlfq_invD[OF inv]
  show "kproc_ok t" "length (mlfq t) = NMLFQ" using assms(2) q D(3) by simp_all
  show "queue_inv (mlfq t ! l)" "distinct (queue_of t l)" if "l < NMLFQ" for l
    using D(4,5)[OF that] q by (simp_all add: queue_of_def)
  show "i \<in> set (queue_of t l) \<longleftrightarrow>
      i < NPROC \<and> p_in_queue (proc_at t i) \<noteq> 0 \<and> plevel (proc_at t i) = l" if "l < NMLFQ" for l i
    using D(6)[OF that, of i] keep[of i] q by (auto simp: queue_of_def queue_keep_def)
  show "plevel (proc_at t i) < NMLFQ" if "i < NPROC" for i
    using keep[OF that] by (simp add: queue_keep_def)
  show "p_state (proc_at t i) = RUNNABLE" if "i < NPROC" "p_in_queue (proc_at t i) \<noteq> 0" for i
    using keep[OF that(1)] that(2) by (simp add: queue_keep_def)
  show "i = j" if "i < NPROC" "j < NPROC" "p_state (proc_at t i) \<noteq> UNUSED"
      "p_state (proc_at t j) \<noteq> UNUSED" "p_pid (proc_at t i) = p_pid (proc_at t j)" for i j
    using D(9)[of i j] keep[of i] keep[of j] that by (simp add: queue_keep_def)
qed

lemma queue_keep_refl: "mlfq_inv s \<Longrightarrow> i < NPROC \<Longrightarrow> queue_keep (proc_at s i) (proc_at s i)"
  using mlfq_invD(7,8)[of s i] by (simp add: queue_keep_def)

lemma mlfq_inv_upd_proc:
  assumes "mlfq_inv s" and "i < NPROC \<Longrightarrow> queue_keep (proc_at s i) (f (proc_at s i))"
  shows "mlfq_inv (upd_proc i f s)"
  using mlfq_invD(1,2)[OF assms(1)] assms(2)
  by (intro mlfq_inv_keep[OF assms(1)]) (auto simp: queue_keep_refl[OF assms(1)])

lemma mlfq_inv_for_procs:
  assumes "mlfq_inv s" and "\<And>i. i < NPROC \<Longrightarrow> queue_keep (proc_at s i) (f i (proc_at s i))"
  shows "mlfq_inv (for_procs f s)"
  using mlfq_invD(1)[OF assms(1)] assms(2)
  by (intro mlfq_inv_keep[OF assms(1)]) (auto simp: proc_at_for_procs)

lemma mlfq_inv_upd_mycpu [simp]: "mlfq_inv (upd_mycpu f s) = mlfq_inv s"
  by (simp add: mlfq_inv_def kproc_ok_def proc_at_def queue_of_def upd_mycpu_def hart_ok_def)

lemma mlfq_inv_ticks [simp]: "mlfq_inv (s\<lparr>ticks := t\<rparr>) = mlfq_inv s"
  by (simp add: mlfq_inv_def kproc_ok_def proc_at_def queue_of_def hart_ok_def)

lemma queue_keep_state:
  assumes "mlfq_inv s" "i < NPROC" "p_state (proc_at s i) \<noteq> UNUSED"
    "p_in_queue pr' = p_in_queue (proc_at s i)" "p_pid pr' = p_pid (proc_at s i)"
    "p_level pr' = p_level (proc_at s i)"
    "p_state (proc_at s i) = RUNNABLE \<Longrightarrow> p_state pr' = RUNNABLE"
  shows "queue_keep (proc_at s i) pr'"
  using assms mlfq_invD(7,8)[OF assms(1,2)] by (auto simp: queue_keep_def plevel_def)

subsection \<open>Properties of the feedback-queue scheduler\<close>

text \<open>Two runnable processes of different levels that have waited for 200 ticks.\<close>

definition example_kproc :: kproc where
  "example_kproc = (kproc_boot 3)\<lparr>procs := (replicate NPROC proc_zero)
     [1 := proc_zero\<lparr>p_state := RUNNABLE, p_pid := 1, p_level := 2, p_dynamic_priority := 60\<rparr>,
      5 := proc_zero\<lparr>p_state := RUNNABLE, p_pid := 2, p_level := 1, p_ctime := 3,
                     p_dynamic_priority := 55\<rparr>],
     ticks := 200\<rparr>"

lemma example_kproc_at:
  "i < NPROC \<Longrightarrow> proc_at example_kproc i =
    (if i = 5 then proc_zero\<lparr>p_state := RUNNABLE, p_pid := 2, p_level := 1, p_ctime := 3,
                             p_dynamic_priority := 55\<rparr>
     else if i = 1 then proc_zero\<lparr>p_state := RUNNABLE, p_pid := 1, p_level := 2, p_dynamic_priority := 60\<rparr>
     else proc_zero)"
  by (simp add: example_kproc_def proc_at_def nth_list_update)

lemma queue_of_example_kproc: "l < NMLFQ \<Longrightarrow> queue_of example_kproc l = []"
  by (simp add: example_kproc_def queue_of_def kproc_boot_def)

lemma example_kproc_inv: "mlfq_inv example_kproc"
proof (rule mlfq_invI)
  show "kproc_ok example_kproc" "length (mlfq example_kproc) = NMLFQ"
    by (simp_all add: example_kproc_def kproc_ok_def kproc_boot_def hart_ok_def)
  show "queue_inv (mlfq example_kproc ! l)" if "l < NMLFQ" for l
    using that by (simp add: example_kproc_def kproc_boot_def)
  show "i \<in> set (queue_of example_kproc l) \<longleftrightarrow> i < NPROC \<and> p_in_queue (proc_at example_kproc i) \<noteq> 0 \<and>
      plevel (proc_at example_kproc i) = l" if "l < NMLFQ" for l i
    using that by (auto simp: queue_of_example_kproc example_kproc_at proc_zero_def)
  show "i = j" if "i < NPROC" "j < NPROC" "p_state (proc_at example_kproc i) \<noteq> UNUSED"
      "p_state (proc_at example_kproc j) \<noteq> UNUSED"
      "p_pid (proc_at example_kproc i) = p_pid (proc_at example_kproc j)" for i j
    using that by (auto simp: example_kproc_at proc_zero_def split: if_splits)
qed (auto simp: queue_of_example_kproc example_kproc_at proc_zero_def plevel_def split: if_splits)

text \<open>
  C13. \<^verbatim>\<open>mlfq_scheduler\<close> on a state with well-formed queues never panics and always returns. It
  returns the process at the front of the first queue that is not empty once the expired
  processes have been moved up one level and the runnable processes outside the queues have been
  appended in table order. Afterwards the queues are again well formed, queue by queue the same
  waiting processes in the same order without the chosen one, and nothing but the process table,
  the queues and the console output has changed.
\<close>

theorem mlfq_scheduler_spec:
  assumes "mlfq_inv s"
  shows "\<exists>s'. mlfq_scheduler s = Ok (mlfq_choice s, s') \<and> mlfq_inv s' \<and> sched_frame s s' \<and>
    (\<forall>i<NPROC. proc_at s' i =
      (if mlfq_choice s = Some i then picked (ticks s) else id) (queued (aged (ticks s) (proc_at s i)))) \<and>
    (\<forall>l<NMLFQ. queue_of s' l = filter (\<lambda>i. mlfq_choice s \<noteq> Some i) (mlfq_waiting s l))"
  using assms by (rule mlfq_scheduler_ok)

theorem mlfq_scheduler_spec_witness:
  "\<exists>s'. mlfq_scheduler example_kproc = Ok (mlfq_choice example_kproc, s') \<and> mlfq_inv s' \<and>
    sched_frame example_kproc s'"
  using mlfq_scheduler_spec[OF example_kproc_inv] by blast

text \<open>
  C14. The feedback-queue scheduler is work conserving and respects the levels: it returns null
  exactly when no process is runnable, and otherwise a runnable process such that no runnable
  process has, after ageing, a level of higher priority.
\<close>

theorem mlfq_scheduler_highest:
  assumes "mlfq_inv s" and "mlfq_scheduler s = Ok (p, s')"
  shows "case p of
      None \<Rightarrow> \<forall>i<NPROC. p_state (proc_at s i) \<noteq> RUNNABLE
    | Some i \<Rightarrow> i < NPROC \<and> p_state (proc_at s i) = RUNNABLE \<and>
        (\<forall>j<NPROC. p_state (proc_at s j) = RUNNABLE \<longrightarrow>
          plevel (aged (ticks s) (proc_at s i)) \<le> plevel (aged (ticks s) (proc_at s j)))"
proof -
  from mlfq_scheduler_ok[OF assms(1)] assms(2) have p: "p = mlfq_choice s" by auto
  show ?thesis
    using mlfq_choice_None[OF assms(1)] mlfq_choice_Some[OF assms(1)] unfolding p
    by (simp split: option.split)
qed

theorem mlfq_scheduler_highest_witness:
  "\<exists>s'. mlfq_scheduler example_kproc = Ok (Some 5, s')"
proof -
  from mlfq_scheduler_ok[OF example_kproc_inv] obtain s' where
    run: "mlfq_scheduler example_kproc = Ok (mlfq_choice example_kproc, s')" by blast
  note spec = mlfq_scheduler_highest[OF example_kproc_inv run]
  have aged: "plevel (aged 200 (proc_at example_kproc 1)) = 1" "plevel (aged 200 (proc_at example_kproc 5)) = 0"
    by (simp_all add: example_kproc_at aged_def expired_def proc_zero_def plevel_def)
  have at: "p_state (proc_at example_kproc 5) = RUNNABLE" "ticks example_kproc = 200"
    by (simp add: example_kproc_at, simp add: example_kproc_def)
  obtain i where i: "mlfq_choice example_kproc = Some i"
    using spec at(1) by (cases "mlfq_choice example_kproc") auto
  with spec at have "i < NPROC" "p_state (proc_at example_kproc i) = RUNNABLE"
    "plevel (aged 200 (proc_at example_kproc i)) \<le> plevel (aged 200 (proc_at example_kproc 5))"
    by auto
  then have "i = 5"
    using aged by (auto simp: example_kproc_at proc_zero_def split: if_splits)
  with run i show ?thesis by simp
qed

end
