(* ===== verification/Xv6_Console.thy ===== *)
theory Xv6_Console
  imports Xv6_State Xv6_Sched
begin

section \<open>Console and UART (kernel/console.c, kernel/uart.c)\<close>

text \<open>
  The UART driver's transmit buffer, the console's line editing and the read and write functions
  of the console device. Waiting for input or for room in the transmit buffer is \<open>Hang\<close>: only an
  interrupt ends it. A character goes out when the driver writes it to THR, which appends it to
  \<open>thr_sent\<close>. What the kernel prints itself is kept in \<open>kout\<close>. The loops \<^verbatim>\<open>if(panicked) for(;;);\<close> that stop the
  other harts after a panic are left out, since a panic ends a run of the model.
\<close>

subsection \<open>The process list of procdump\<close>

definition bytes_string :: "uchar list \<Rightarrow> string" where
  "bytes_string bs = map (char_of \<circ> unat) (cstring bs)"

text \<open>The table \<^verbatim>\<open>states\<close> has no entry for USED.\<close>

fun state_name :: "procstate \<Rightarrow> string" where
  "state_name UNUSED = ''unused''"
| "state_name USED = ''???''"
| "state_name SLEEPING = ''sleep ''"
| "state_name RUNNABLE = ''runble''"
| "state_name RUNNING = ''run   ''"
| "state_name ZOMBIE = ''zombie''"

abbreviation tab :: string where "tab \<equiv> [CHR 0x09]"

definition arg_c :: "cint \<Rightarrow> printarg" where
  "arg_c n = ArgWord (scast n)"

fun procdump_header :: "policy \<Rightarrow> string" where
  "procdump_header PBS = ''Pid '' @ tab @ '' Priority '' @ tab @ '' State '' @ tab @ '' Run-Time '' @ tab @
     '' Sleep-Time '' @ tab @ '' Num_runs '' @ newline"
| "procdump_header MLFQ = ''Pid '' @ tab @ '' Priority '' @ tab @ '' State '' @ tab @ ''     R-Time '' @ tab @
     '' W-Time'' @ tab @ '' Num_runs '' @ tab @ '' q0 '' @ tab @ '' q1 '' @ tab @ '' q2 '' @ tab @
     '' q3 '' @ tab @ '' q4 '' @ newline"
| "procdump_header _ = []"

fun procdump_line :: "policy \<Rightarrow> proc \<Rightarrow> string" where
  "procdump_line PBS p = printf (''%d'' @ tab @ '' %d '' @ tab @ tab @ '' %s '' @ tab @ '' %d '' @ tab @ tab @
      '' %d '' @ tab @ '' %d'')
      [arg_c (p_pid p), arg_c (p_dynamic_priority p), ArgStr (Some (state_name (p_state p))),
       arg_c (p_rtime p), arg_c (p_sleep_time p), arg_c (p_n_run p)]"
| "procdump_line MLFQ p = printf (''%d '' @ tab @ '' %d '' @ tab @ tab @ '' %s '' @ tab @ '' %d'' @ tab @
      '' %d'' @ tab @ '' %d'' @ tab @ tab @ '' %d '' @ tab @ '' %d '' @ tab @ '' %d '' @ tab @ '' %d '' @
      tab @ '' %d'')
      ([arg_c (p_pid p), arg_c (p_dynamic_priority p), ArgStr (Some (state_name (p_state p))),
        arg_c (p_rtime p), arg_c (p_sleep_time p), arg_c (p_n_run p)] @ map arg_c (p_q p))"
| "procdump_line _ p = printf ''%d %s %s''
      [arg_c (p_pid p), ArgStr (Some (state_name (p_state p))), ArgStr (Some (bytes_string (p_name p)))]"

definition procdump :: "policy \<Rightarrow> 'a kproc_scheme \<Rightarrow> 'a kproc_scheme" where
  "procdump pol s =
     s\<lparr>kout := kout s @ newline @ procdump_header pol @
        concat (map (\<lambda>p. if p_state p = UNUSED then [] else procdump_line pol p @ newline) (procs s))\<rparr>"

subsection \<open>UART\<close>

text \<open>A write to THR, and the transmit bit of LSR.\<close>

definition WriteReg_THR :: "uchar \<Rightarrow> 'a kcons_scheme \<Rightarrow> 'a kcons_scheme" where
  "WriteReg_THR c s =
     s\<lparr>uart := (uart s)\<lparr>thr_room := thr_room (uart s) - 1, thr_sent := thr_sent (uart s) @ [c]\<rparr>\<rparr>"

definition LSR_TX_IDLE :: "'a kcons_scheme \<Rightarrow> bool" where
  "LSR_TX_IDLE s \<longleftrightarrow> 0 < thr_room (uart s)"

text \<open>The loop of \<open>uartstart\<close> ends at the latest when the transmitter has no room left.\<close>

function uartstart :: "'a kcons_scheme \<Rightarrow> 'a kcons_scheme" where
  "uartstart s =
     (if uart_tx_w s = uart_tx_r s then s
      else if \<not> LSR_TX_IDLE s then s
      else
        let c = uart_tx_buf s ! (unat (uart_tx_r s) mod UART_TX_BUF_SIZE)
        in uartstart (WriteReg_THR c (wakeup (Some ChanUart) (s\<lparr>uart_tx_r := uart_tx_r s + 1\<rparr>))))"
  by pat_completeness auto

termination uartstart
  by (relation "measure (\<lambda>s. thr_room (uart s))") (auto simp: WriteReg_THR_def LSR_TX_IDLE_def Let_def)

declare uartstart.simps [simp del]

definition uartputc :: "uchar \<Rightarrow> ('a kcons_scheme, unit) kop" where
  "uartputc c s =
     (if uart_tx_w s = uart_tx_r s + of_nat UART_TX_BUF_SIZE then Hang
      else Ok ((), uartstart
        (s\<lparr>uart_tx_buf := (uart_tx_buf s)[unat (uart_tx_w s) mod UART_TX_BUF_SIZE := c],
           uart_tx_w := uart_tx_w s + 1\<rparr>)))"

text \<open>\<open>uartputc_sync\<close> spins until the transmitter has drained enough to take a character.\<close>

definition uartputc_sync :: "uchar \<Rightarrow> 'a kcons_scheme \<Rightarrow> 'a kcons_scheme" where
  "uartputc_sync c s =
     WriteReg_THR c (if LSR_TX_IDLE s then s else s\<lparr>uart := (uart s)\<lparr>thr_room := 1\<rparr>\<rparr>)"

definition uartgetc :: "'a kcons_scheme \<Rightarrow> uchar option \<times> 'a kcons_scheme" where
  "uartgetc s =
     (case rhr (uart s) of
        [] \<Rightarrow> (None, s)
      | c # cs \<Rightarrow> (Some c, s\<lparr>uart := (uart s)\<lparr>rhr := cs\<rparr>\<rparr>))"

subsection \<open>Console\<close>

datatype conschar = BACKSPACE | PutChar uchar

definition consputc :: "conschar \<Rightarrow> 'a kcons_scheme \<Rightarrow> 'a kcons_scheme" where
  "consputc c s =
     (case c of
        BACKSPACE \<Rightarrow> uartputc_sync 8 (uartputc_sync 32 (uartputc_sync 8 s))
      | PutChar ch \<Rightarrow> uartputc_sync ch s)"

text \<open>Control characters: ^D, ^H, newline, carriage return, ^P, ^U, delete.\<close>

abbreviation (input) CTRL_D :: uchar where "CTRL_D \<equiv> 4"
abbreviation (input) CTRL_H :: uchar where "CTRL_H \<equiv> 8"
abbreviation (input) NEWLINE :: uchar where "NEWLINE \<equiv> 10"
abbreviation (input) CRETURN :: uchar where "CRETURN \<equiv> 13"
abbreviation (input) CTRL_P :: uchar where "CTRL_P \<equiv> 16"
abbreviation (input) CTRL_U :: uchar where "CTRL_U \<equiv> 21"
abbreviation (input) DEL :: uchar where "DEL \<equiv> 127"

text \<open>\<open>consolewrite\<close> from character \<open>i\<close> on; \<open>k\<close> characters are left.\<close>

fun consolewrite_loop :: "ksrc \<Rightarrow> nat \<Rightarrow> nat \<Rightarrow> ('a kcons_scheme, cint) kop" where
  "consolewrite_loop src i 0 s = Ok (of_nat i, s)"
| "consolewrite_loop src i (Suc k) s =
     kseq (either_copyin (src_add src i) 1) (\<lambda>(r, bs).
     if r = -1 then kret (of_nat i)
     else kseq (uartputc (hd bs)) (\<lambda>_. consolewrite_loop src (Suc i) k)) s"

definition consolewrite :: "ksrc \<Rightarrow> cint \<Rightarrow> ('a kcons_scheme, cint) kop" where
  "consolewrite src n = consolewrite_loop src 0 (nat (sint n))"

text \<open>\<open>n\<close> counts down; \<^verbatim>\<open>n < target\<close> is an unsigned comparison.\<close>

function consoleread_loop :: "kdst \<Rightarrow> uint \<Rightarrow> cint \<Rightarrow> ('a kcons_scheme, cint) kop" where
  "consoleread_loop dst target n s =
     (if sint n \<le> 0 then Ok (target - n, s)
      else if cons_r s = cons_w s then
        kbind (curproc s) (\<lambda>(p, s). if p_killed (proc_at s p) \<noteq> 0 then Ok (-1, s) else Hang)
      else
        let c = cons_buf s ! (unat (cons_r s) mod INPUT_BUF); s1 = s\<lparr>cons_r := cons_r s + 1\<rparr> in
        if c = CTRL_D then
          Ok (target - n, if n < target then s1\<lparr>cons_r := cons_r s1 - 1\<rparr> else s1)
        else
          kseq (either_copyout dst [c]) (\<lambda>r.
          if r = -1 then kret (target - n)
          else if c = NEWLINE then kret (target - (n - 1))
          else consoleread_loop (dst_add dst 1) target (n - 1)) s1)"
  by pat_completeness auto
termination
proof (relation "measure (\<lambda>(dst, target, n, s). nat (sint n))")
  fix n :: cint
  assume "\<not> sint n \<le> 0"
  then have "sint (n - 1) = sint n - 1"
    using sint_diff[of n 1] sint_lt[of n] by simp
  with \<open>\<not> sint n \<le> 0\<close> have "nat (sint (n - 1)) < nat (sint n)" by simp
  then show "((dst_add dst 1, target, n - 1, t), (dst, target, n, s)) \<in> measure (\<lambda>(dst, target, n, s). nat (sint n))"
    for dst target and t s :: "'a kcons_scheme" by simp
qed simp

declare consoleread_loop.simps [simp del]

definition consoleread :: "kdst \<Rightarrow> cint \<Rightarrow> ('a kcons_scheme, cint) kop" where
  "consoleread dst n = consoleread_loop dst n n"

text \<open>
  The loop of ^U; its fuel is \<^verbatim>\<open>cons.e - cons.w\<close>, after which \<^verbatim>\<open>cons.e\<close> has reached \<^verbatim>\<open>cons.w\<close>.
\<close>

fun kill_line :: "nat \<Rightarrow> 'a kcons_scheme \<Rightarrow> 'a kcons_scheme" where
  "kill_line 0 s = s"
| "kill_line (Suc k) s =
     (if cons_e s \<noteq> cons_w s \<and> cons_buf s ! (unat (cons_e s - 1) mod INPUT_BUF) \<noteq> NEWLINE
      then kill_line k (consputc BACKSPACE (s\<lparr>cons_e := cons_e s - 1\<rparr>))
      else s)"

definition consoleintr :: "policy \<Rightarrow> uchar \<Rightarrow> 'a kcons_scheme \<Rightarrow> 'a kcons_scheme" where
  "consoleintr pol c s =
     (if c = CTRL_P then procdump pol s
      else if c = CTRL_U then kill_line (unat (cons_e s - cons_w s)) s
      else if c = CTRL_H \<or> c = DEL then
        if cons_e s \<noteq> cons_w s then consputc BACKSPACE (s\<lparr>cons_e := cons_e s - 1\<rparr>) else s
      else if c \<noteq> 0 \<and> cons_e s - cons_r s < of_nat INPUT_BUF then
        let c1 = (if c = CRETURN then NEWLINE else c);
            s1 = consputc (PutChar c1) s;
            s2 = s1\<lparr>cons_buf := (cons_buf s1)[unat (cons_e s1) mod INPUT_BUF := c1], cons_e := cons_e s1 + 1\<rparr>
        in if c1 = NEWLINE \<or> c1 = CTRL_D \<or> cons_e s2 = cons_r s2 + of_nat INPUT_BUF
           then wakeup (Some ChanCons) (s2\<lparr>cons_w := cons_e s2\<rparr>)
           else s2
      else s)"

fun uartintr_loop :: "policy \<Rightarrow> nat \<Rightarrow> 'a kcons_scheme \<Rightarrow> 'a kcons_scheme" where
  "uartintr_loop pol 0 s = s"
| "uartintr_loop pol (Suc k) s =
     (case uartgetc s of
        (None, s1) \<Rightarrow> s1
      | (Some c, s1) \<Rightarrow> uartintr_loop pol k (consoleintr pol c s1))"

text \<open>The fuel is the number of characters received.\<close>

definition uartintr :: "policy \<Rightarrow> 'a kcons_scheme \<Rightarrow> 'a kcons_scheme" where
  "uartintr pol s = uartstart (uartintr_loop pol (length (rhr (uart s))) s)"

text \<open>
  Of the registers that \<open>uartinit\<close> sets, FCR changes the state of the device: it empties both FIFOs,
  which hold 16 characters in a 16550.
\<close>

definition uartinit :: "'a kcons_scheme \<Rightarrow> 'a kcons_scheme" where
  "uartinit s = s\<lparr>uart := (uart s)\<lparr>rhr := [], thr_room := 16\<rparr>\<rparr>"

definition consoleinit :: "'a kcons_scheme \<Rightarrow> 'a kcons_scheme" where
  "consoleinit s = (uartinit s)\<lparr>devsw := (devsw (uartinit s))[1 := Some ConsoleDev]\<rparr>"

end
