(* ===== verification/Xv6_File.thy ===== *)
theory Xv6_File
  imports Xv6_Dir Xv6_Console
begin

section \<open>Pipes and the file layer (kernel/pipe.c, kernel/file.c)\<close>

text \<open>
  All of kernel/pipe.c and kernel/file.c. A \<^verbatim>\<open>struct file\<close> pointer is its index in
  \<^verbatim>\<open>ftable.file\<close>, a \<^verbatim>\<open>struct pipe\<close> pointer the address of its page. The two ends of a pipe
  run up to the point where they sleep; what they do after it is a step of its own.
  \<open>pipealloc\<close> takes the page of a pipe from \<open>kalloc\<close> and \<open>pipeclose\<close> gives it back with \<open>kfree\<close>; the \<^verbatim>\<open>struct pipe\<close> that lives in the page is an
  entry of the map \<open>pipes\<close> at its address, so its bytes are not part of the byte memory.
\<close>

definition file_at :: "'a kfile_scheme \<Rightarrow> nat \<Rightarrow> kfilerec" where
  "file_at s f = ftable s ! f"

definition upd_file :: "nat \<Rightarrow> (kfilerec \<Rightarrow> kfilerec) \<Rightarrow> 'a kfile_scheme \<Rightarrow> 'a kfile_scheme" where
  "upd_file f g s = s\<lparr>ftable := (ftable s)[f := g (ftable s ! f)]\<rparr>"

definition upd_pipe :: "uint64 \<Rightarrow> (pipe \<Rightarrow> pipe) \<Rightarrow> 'a kfile_scheme \<Rightarrow> 'a kfile_scheme" where
  "upd_pipe pi g s = s\<lparr>pipes := (pipes s)(pi := g (pipes s pi))\<rparr>"

subsection \<open>Pipes\<close>

definition pipeclose :: "uint64 \<Rightarrow> bool \<Rightarrow> ('a kfile_scheme, unit) kop" where
  "pipeclose pi writable s =
     (let s1 = (if writable
                then wakeup (Some (ChanPipeRead pi)) (upd_pipe pi (\<lambda>p. p\<lparr>pi_writeopen := False\<rparr>) s)
                else wakeup (Some (ChanPipeWrite pi)) (upd_pipe pi (\<lambda>p. p\<lparr>pi_readopen := False\<rparr>) s)) in
      if \<not> pi_readopen (pipes s1 pi) \<and> \<not> pi_writeopen (pipes s1 pi) then on_mem_u (kfree pi) s1
      else Ok ((), s1))"

text \<open>The byte stored at the write index, and the one at the read index.\<close>

definition pipe_put :: "uchar \<Rightarrow> pipe \<Rightarrow> pipe" where
  "pipe_put ch p = p\<lparr>pi_data := (pi_data p)[unat (pi_nwrite p) mod PIPESIZE := ch],
                     pi_nwrite := pi_nwrite p + 1\<rparr>"

definition pipe_full :: "pipe \<Rightarrow> bool" where
  "pipe_full p \<longleftrightarrow> pi_nwrite p = pi_nread p + of_nat PIPESIZE"

definition pipe_empty :: "pipe \<Rightarrow> bool" where
  "pipe_empty p \<longleftrightarrow> pi_nread p = pi_nwrite p"

definition pipe_head :: "pipe \<Rightarrow> uchar" where
  "pipe_head p = pi_data p ! (unat (pi_nread p) mod PIPESIZE)"

text \<open>
  A call either returns a value, or it goes to sleep with \<open>i\<close> bytes done and \<open>k\<close> left. The writer
  sleeps inside its loop, and continues there when it is dispatched again; the reader sleeps only
  before its loop.
\<close>

datatype pipeio = PipeDone cint | PipeSleep nat nat

fun pipewrite_loop :: "uint64 \<Rightarrow> nat \<Rightarrow> uint64 \<Rightarrow> nat \<Rightarrow> nat \<Rightarrow> ('a kfile_scheme, pipeio) kop" where
  "pipewrite_loop pi pr addr i 0 s = Ok (PipeDone (of_nat i), wakeup (Some (ChanPipeRead pi)) s)"
| "pipewrite_loop pi pr addr i (Suc k) s =
     (if \<not> pi_readopen (pipes s pi) \<or> p_killed (proc_at s pr) \<noteq> 0 then Ok (PipeDone (-1), s)
      else if pipe_full (pipes s pi) then
        Ok (PipeSleep i (Suc k), sleep_begin pr (ChanPipeWrite pi) (wakeup (Some (ChanPipeRead pi)) s))
      else
        kseq (read_mem (copyin (p_pagetable (proc_at s pr)) (addr + of_nat i) 1)) (\<lambda>(r, bs).
        if r = -1 then kseq (kmod (wakeup (Some (ChanPipeRead pi)))) (\<lambda>_. kret (PipeDone (of_nat i)))
        else
          kseq (kmod (upd_pipe pi (pipe_put (hd bs)))) (\<lambda>_.
          pipewrite_loop pi pr addr (Suc i) k)) s)"

definition pipewrite_resume :: "uint64 \<Rightarrow> nat \<Rightarrow> uint64 \<Rightarrow> nat \<Rightarrow> nat \<Rightarrow> ('a kfile_scheme, pipeio) kop" where
  "pipewrite_resume pi pr addr i k s = pipewrite_loop pi pr addr i k (sleep_end pr s)"

text \<open>Seen as one atomic step, a call that has to sleep does not return.\<close>

definition pipe_return :: "pipeio \<Rightarrow> ('a kfile_scheme, cint) kop" where
  "pipe_return r s = (case r of PipeDone v \<Rightarrow> Ok (v, s) | PipeSleep _ _ \<Rightarrow> Hang)"

definition pipewrite :: "uint64 \<Rightarrow> uint64 \<Rightarrow> cint \<Rightarrow> ('a kfile_scheme, cint) kop" where
  "pipewrite pi addr n =
     kseq curproc (\<lambda>pr. kseq (pipewrite_loop pi pr addr 0 (nat (sint n))) pipe_return)"

fun piperead_loop :: "uint64 \<Rightarrow> nat \<Rightarrow> uint64 \<Rightarrow> nat \<Rightarrow> nat \<Rightarrow> ('a kfile_scheme, nat) kop" where
  "piperead_loop pi pr addr i 0 s = Ok (i, s)"
| "piperead_loop pi pr addr i (Suc k) s =
     (if pipe_empty (pipes s pi) then Ok (i, s)
      else
        kseq (kget (\<lambda>s. pipe_head (pipes s pi))) (\<lambda>ch.
        kseq (kmod (upd_pipe pi (\<lambda>p. p\<lparr>pi_nread := pi_nread p + 1\<rparr>))) (\<lambda>_.
        kseq (on_mem (copyout (p_pagetable (proc_at s pr)) (addr + of_nat i) [ch])) (\<lambda>r.
        if r = -1 then kret i else piperead_loop pi pr addr (Suc i) k))) s)"

definition piperead_pass :: "uint64 \<Rightarrow> nat \<Rightarrow> uint64 \<Rightarrow> cint \<Rightarrow> ('a kfile_scheme, pipeio) kop" where
  "piperead_pass pi pr addr n s =
     (if pipe_empty (pipes s pi) \<and> pi_writeopen (pipes s pi) then
        if p_killed (proc_at s pr) \<noteq> 0 then Ok (PipeDone (-1), s)
        else Ok (PipeSleep 0 (nat (sint n)), sleep_begin pr (ChanPipeRead pi) s)
      else
        kseq (piperead_loop pi pr addr 0 (nat (sint n))) (\<lambda>i.
        kseq (kmod (wakeup (Some (ChanPipeWrite pi)))) (\<lambda>_.
        kret (PipeDone (of_nat i)))) s)"

definition piperead :: "uint64 \<Rightarrow> uint64 \<Rightarrow> cint \<Rightarrow> ('a kfile_scheme, cint) kop" where
  "piperead pi addr n = kseq curproc (\<lambda>pr. kseq (piperead_pass pi pr addr n) pipe_return)"

subsection \<open>Files\<close>

definition filealloc :: "('a kfile_scheme, nat option) kop" where
  "filealloc s =
     (case find (\<lambda>f. f_ref (file_at s f) = 0) [0..<NFILE] of
        None \<Rightarrow> Ok (None, s)
      | Some f \<Rightarrow> Ok (Some f, upd_file f (\<lambda>x. x\<lparr>f_ref := 1\<rparr>) s))"

definition filedup :: "nat \<Rightarrow> ('a kfile_scheme, nat) kop" where
  "filedup f s =
     (if sint (f_ref (file_at s f)) < 1 then Panic ''filedup''
      else Ok (f, upd_file f (\<lambda>x. x\<lparr>f_ref := f_ref x + 1\<rparr>) s))"

definition fileclose :: "nat \<Rightarrow> ('a kfile_scheme, unit) kop" where
  "fileclose f s =
     (if sint (f_ref (file_at s f)) < 1 then Panic ''fileclose''
      else
        let s1 = upd_file f (\<lambda>x. x\<lparr>f_ref := f_ref x - 1\<rparr>) s in
        if 0 < sint (f_ref (file_at s1 f)) then Ok ((), s1)
        else
          let ff = file_at s1 f; s2 = upd_file f (\<lambda>x. x\<lparr>f_ref := 0, f_type := FD_NONE\<rparr>) s1 in
          if f_type ff = FD_PIPE then pipeclose (f_pipe ff) (f_writable ff) s2
          else if f_type ff = FD_INODE \<or> f_type ff = FD_DEVICE then
            kseq begin_op (\<lambda>_. kseq (iput (f_ip ff)) (\<lambda>_. end_op)) s2
          else Ok ((), s2))"

text \<open>
  \<open>pipealloc\<close> gives the two files, or nothing for the return of -1. A page for the pipe that is
  not the null page is never freed again on the error path, because nothing can fail after it.
\<close>

definition close_opt :: "nat option \<Rightarrow> ('a kfile_scheme, unit) kop" where
  "close_opt f = (case f of None \<Rightarrow> kret () | Some g \<Rightarrow> fileclose g)"

definition pipealloc_bad :: "nat option \<Rightarrow> nat option \<Rightarrow> ('a kfile_scheme, (nat \<times> nat) option) kop" where
  "pipealloc_bad f0 f1 = kseq (close_opt f0) (\<lambda>_. kseq (close_opt f1) (\<lambda>_. kret None))"

definition pipe_open :: "pipe \<Rightarrow> pipe" where
  "pipe_open p = p\<lparr>pi_readopen := True, pi_writeopen := True, pi_nwrite := 0, pi_nread := 0\<rparr>"

definition pipealloc :: "('a kfile_scheme, (nat \<times> nat) option) kop" where
  "pipealloc =
     kseq filealloc (\<lambda>r0. case r0 of
       None \<Rightarrow> pipealloc_bad None None
     | Some f0 \<Rightarrow>
         kseq filealloc (\<lambda>r1. case r1 of
           None \<Rightarrow> pipealloc_bad (Some f0) None
         | Some f1 \<Rightarrow>
             kseq (on_mem_t kalloc) (\<lambda>pi.
             if pi = 0 then pipealloc_bad (Some f0) (Some f1)
             else
               kseq (kmod (upd_pipe pi pipe_open)) (\<lambda>_.
               kseq (kmod (upd_file f0 (\<lambda>x. x\<lparr>f_type := FD_PIPE, f_readable := True, f_writable := False, f_pipe := pi\<rparr>))) (\<lambda>_.
               kseq (kmod (upd_file f1 (\<lambda>x. x\<lparr>f_type := FD_PIPE, f_readable := False, f_writable := True, f_pipe := pi\<rparr>))) (\<lambda>_.
               kret (Some (f0, f1))))))))"

text \<open>
  The bytes of a \<^verbatim>\<open>struct stat\<close>; \<open>pad\<close> is the padding before \<^verbatim>\<open>size\<close>, four bytes of the kernel
  stack that nothing has set.
\<close>

definition stat_bytes :: "uchar list \<Rightarrow> stat \<Rightarrow> uchar list" where
  "stat_bytes pad st = le_bytes 4 (st_dev st) @ le_bytes 4 (st_ino st) @ le_bytes 2 (st_type st) @
     le_bytes 2 (st_nlink st) @ pad @ le_bytes 8 (st_size st)"

definition filestat :: "uchar list \<Rightarrow> nat \<Rightarrow> uint64 \<Rightarrow> ('a kfile_scheme, cint) kop" where
  "filestat pad f addr s =
     (let x = file_at s f in
      if f_type x = FD_INODE \<or> f_type x = FD_DEVICE then
        kseq (ilock (f_ip x)) (\<lambda>_.
        kseq (kget (\<lambda>s. stati (inode_at s (f_ip x)))) (\<lambda>st.
        kseq (iunlock (f_ip x)) (\<lambda>_.
        kseq curproc (\<lambda>p.
        kseq (kget (\<lambda>s. p_pagetable (proc_at s p))) (\<lambda>pt.
        kseq (on_mem (copyout pt addr (stat_bytes pad st))) (\<lambda>r.
        kret (if sint r < 0 then -1 else 0))))))) s
      else Ok (-1, s))"

text \<open>The device of a major number, if it is in range and has functions.\<close>

definition devsw_of :: "'a kcons_scheme \<Rightarrow> ushort \<Rightarrow> devfns option" where
  "devsw_of s major =
     (if sint major < 0 \<or> int NDEV \<le> sint major then None else devsw s ! unat major)"

definition fileread :: "nat \<Rightarrow> uint64 \<Rightarrow> cint \<Rightarrow> ('a kfile_scheme, cint) kop" where
  "fileread f addr n s =
     (let x = file_at s f in
      if \<not> f_readable x then Ok (-1, s)
      else case f_type x of
        FD_PIPE \<Rightarrow> piperead (f_pipe x) addr n s
      | FD_DEVICE \<Rightarrow>
          (case devsw_of s (f_major x) of
             None \<Rightarrow> Ok (-1, s)
           | Some ConsoleDev \<Rightarrow> consoleread (DstUser addr) n s)
      | FD_INODE \<Rightarrow>
          kseq (ilock (f_ip x)) (\<lambda>_.
          kseq (readi (f_ip x) (DstUser addr) (f_off x) n) (\<lambda>(r, _).
          kseq (kwhen (0 < sint r) (kmod (upd_file f (\<lambda>x. x\<lparr>f_off := f_off x + r\<rparr>)))) (\<lambda>_.
          kseq (iunlock (f_ip x)) (\<lambda>_.
          kret r)))) s
      | FD_NONE \<Rightarrow> Panic ''fileread'')"

text \<open>\<open>max_write\<close> is \<^verbatim>\<open>max\<close>: three blocks a transaction. The loop's value is the final \<^verbatim>\<open>i\<close>.\<close>

definition max_write :: nat where
  "max_write = ((MAXOPBLOCKS - 1 - 1 - 2) div 2) * BSIZE"

function filewrite_loop :: "nat \<Rightarrow> uint64 \<Rightarrow> nat \<Rightarrow> nat \<Rightarrow> ('a kfile_scheme, nat) kop" where
  "filewrite_loop f addr i rest s =
     (if rest = 0 then Ok (i, s)
      else
        let n1 = min rest max_write; ip = f_ip (file_at s f) in
        kseq begin_op (\<lambda>_.
        kseq (ilock ip) (\<lambda>_.
        kseq (kget (\<lambda>s. f_off (file_at s f))) (\<lambda>off.
        kseq (writei ip (SrcUser (addr + of_nat i)) off (of_nat n1)) (\<lambda>r.
        kseq (kwhen (0 < sint r) (kmod (upd_file f (\<lambda>x. x\<lparr>f_off := f_off x + r\<rparr>)))) (\<lambda>_.
        kseq (iunlock ip) (\<lambda>_.
        kseq end_op (\<lambda>_.
        if r \<noteq> of_nat n1 then kret i
        else filewrite_loop f addr (i + n1) (rest - n1)))))))) s)"
  by pat_completeness auto
termination
  by (relation "measure (\<lambda>(f, addr, i, rest, s). rest)") (auto simp: max_write_def)

declare filewrite_loop.simps [simp del]

definition filewrite :: "nat \<Rightarrow> uint64 \<Rightarrow> cint \<Rightarrow> ('a kfile_scheme, cint) kop" where
  "filewrite f addr n s =
     (let x = file_at s f in
      if \<not> f_writable x then Ok (-1, s)
      else case f_type x of
        FD_PIPE \<Rightarrow> pipewrite (f_pipe x) addr n s
      | FD_DEVICE \<Rightarrow>
          (case devsw_of s (f_major x) of
             None \<Rightarrow> Ok (-1, s)
           | Some ConsoleDev \<Rightarrow> consolewrite (SrcUser addr) n s)
      | FD_INODE \<Rightarrow>
          kseq (filewrite_loop f addr 0 (nat (sint n))) (\<lambda>i.
          kret (if int i = sint n then n else -1)) s
      | FD_NONE \<Rightarrow> Panic ''filewrite'')"

end
