(* ===== verification/Xv6_Ring.thy ===== *)
theory Xv6_Ring
  imports Xv6_Prelude
begin

section \<open>Ring buffers with free-running indices\<close>

text \<open>
  The pipe, the UART's transmit buffer and the console's input buffer are arrays with a read and a
  write counter of a fixed width that are never reset: position \<open>i\<close> is slot \<open>i mod N\<close>, and the
  counters wrap around. \<open>word_ring\<close> has the facts that make this a queue; they rest on \<open>N\<close> dividing
  the range of the counters, so that the wrap-around does not tear the sequence of slots.
\<close>

definition ring_list :: "'e list \<Rightarrow> nat \<Rightarrow> 'w::len word \<Rightarrow> 'w word \<Rightarrow> 'e list" where
  "ring_list buf N r w = map (\<lambda>i. buf ! (unat (r + of_nat i) mod N)) [0..<unat (w - r)]"

lemma length_ring_list [simp]: "length (ring_list buf N r w) = unat (w - r)"
  by (simp add: ring_list_def)

lemma ring_list_empty [simp]: "ring_list buf N r r = []"
  by (simp add: ring_list_def)

lemma ring_list_empty_iff: "ring_list buf N r w = [] \<longleftrightarrow> r = w"
  by (metis length_0_conv length_ring_list ring_list_empty right_minus_eq unat_eq_0)

locale word_ring =
  fixes N :: nat and width :: "'w::len itself"
  assumes N_dvd: "N dvd 2 ^ LENGTH('w)" and N_pos: "0 < N" and N_less: "N < 2 ^ LENGTH('w)"
begin

lemma slot_add: "unat (r + of_nat i) mod N = (unat r + i) mod N" for r :: "'w word"
proof -
  have "unat (r + of_nat i) = (unat r + i) mod 2 ^ LENGTH('w)" by (simp add: unat_word_ariths mod_add_right_eq unat_of_nat)
  then show ?thesis using N_dvd by (simp add: mod_mod_cancel)
qed

lemma size_succ: "unat (w - r) < N \<Longrightarrow> unat (w + 1 - r) = unat (w - r) + 1" for r w :: "'w word"
proof -
  assume "unat (w - r) < N"
  then have "unat (w - r) + 1 < 2 ^ LENGTH('w)" using N_less by simp
  then have "unat (w - r + 1) = unat (w - r) + 1" by (simp add: unat_word_ariths)
  then show ?thesis by (simp add: algebra_simps)
qed

lemma put:
  fixes r w :: "'w word"
  assumes "length buf = N" "unat (w - r) < N"
  shows "ring_list (buf[unat w mod N := c]) N r (w + 1) = ring_list buf N r w @ [c]"
proof (rule nth_equalityI)
  note s = size_succ[OF assms(2)]
  show "length (ring_list (buf[unat w mod N := c]) N r (w + 1)) = length (ring_list buf N r w @ [c])" using s by simp
  fix i
  assume "i < length (ring_list (buf[unat w mod N := c]) N r (w + 1))"
  then have i: "i < unat (w - r) + 1" using s by simp
  have w: "unat w mod N = (unat r + unat (w - r)) mod N" using slot_add[of r "unat (w - r)"] by simp
  show "ring_list (buf[unat w mod N := c]) N r (w + 1) ! i = (ring_list buf N r w @ [c]) ! i"
  proof (cases "i = unat (w - r)")
    case True
    then show ?thesis using s N_pos assms(1) w by (simp add: ring_list_def nth_append slot_add)
  next
    case False
    then have lt: "i < unat (w - r)" using i by simp
    have "(unat r + i) mod N \<noteq> (unat r + unat (w - r)) mod N"
    proof
      assume "(unat r + i) mod N = (unat r + unat (w - r)) mod N"
      then have "N dvd (unat r + unat (w - r)) - (unat r + i)" using lt mod_eq_dvd_iff_nat[of "unat r + i" "unat r + unat (w - r)" N] by simp
      then have "N \<le> unat (w - r) - i" using lt dvd_imp_le[of N "unat (w - r) - i"] by simp
      then show False using assms(2) by simp
    qed
    then show ?thesis using lt s w by (simp add: ring_list_def nth_append slot_add del: upt_Suc)
  qed
qed

lemma get:
  fixes r w :: "'w word"
  assumes "r \<noteq> w"
  shows "ring_list buf N r w = buf ! (unat r mod N) # ring_list buf N (r + 1) w"
proof -
  have "unat (w - r) \<noteq> 0" using assms by (metis right_minus_eq unat_eq_0)
  then have s: "unat (w - r) = Suc (unat (w - (r + 1)))"
    using unat_sub[of 1 "w - r"] by (simp add: word_le_nat_alt diff_diff_eq2 algebra_simps)
  have "[0..<Suc n] = 0 # map Suc [0..<n]" for n by (simp add: map_Suc_upt upt_conv_Cons)
  then show ?thesis unfolding ring_list_def s by (simp add: comp_def algebra_simps del: upt_Suc)
qed

lemma unput:
  fixes r w :: "'w word"
  assumes "r \<noteq> w"
  shows "ring_list buf N r (w - 1) = butlast (ring_list buf N r w)"
proof -
  have "unat (w - r) \<noteq> 0" using assms by (metis right_minus_eq unat_eq_0)
  then have s: "unat (w - r) = Suc (unat (w - 1 - r))"
    using unat_sub[of 1 "w - r"] by (simp add: word_le_nat_alt algebra_simps)
  show ?thesis unfolding ring_list_def s by simp
qed

lemma size_pred: "r \<noteq> w \<Longrightarrow> unat (w - (r + 1)) = unat (w - r) - 1" for r w :: "'w word"
proof -
  assume "r \<noteq> w"
  then have "unat (w - r) \<noteq> 0" by (metis right_minus_eq unat_eq_0)
  then show ?thesis using unat_sub[of 1 "w - r"] by (simp add: word_le_nat_alt diff_diff_eq2 algebra_simps)
qed

lemma full_iff: "unat (w - r) \<le> N \<Longrightarrow> w = r + of_nat N \<longleftrightarrow> unat (w - r) = N" for r w :: "'w word"
proof -
  have "w = r + of_nat N \<longleftrightarrow> w - r = of_nat N" by (auto simp: algebra_simps)
  also have "\<dots> \<longleftrightarrow> unat (w - r) = N" using N_less by (auto simp: word_unat_eq_iff unat_of_nat)
  finally show ?thesis .
qed

end

end
