(* ===== verification/Xv6_Pagetable.thy ===== *)
theory Xv6_Pagetable
  imports Xv6_Vm
begin

section \<open>Page tables implement a map from virtual pages to entries\<close>

text \<open>
  Proofs about \<open>walk\<close>, \<open>mappages\<close> and \<open>walkaddr\<close>. The table pages of an address space form a tree of
  \<open>node\<close>s; \<open>vm_inv\<close> says that the tree is in memory, that its pages are distinct, valid and not free.
  On such states the address space is the function \<open>leaf\<close> from virtual page numbers to leaf
  entries: \<open>walk\<close> never changes it, and \<open>mappages\<close> extends it.
\<close>

subsection \<open>Entries of a table page\<close>

definition entry :: "mem \<Rightarrow> uint64 \<Rightarrow> nat \<Rightarrow> uint64" where
  "entry m p i = load64 m (p + word_of_nat (8 * i))"

lemma entry_same: "same_page p m m' \<Longrightarrow> i < 512 \<Longrightarrow> entry m' p i = entry m p i"
  unfolding entry_def by (rule same_page_load64) simp_all

lemma entry_store_same [simp]:
  "entry (store64 (p + word_of_nat (8 * i)) v m) p i = v" "entry (store64 (p + 8 * word_of_nat i) v m) p i = v"
  by (simp_all add: entry_def)

lemma disjoint_slots:
  assumes "i \<noteq> j" "i < 512" "j < 512"
  shows "disjoint_range (p + word_of_nat (8 * j)) 8 (p + word_of_nat (8 * i)) 8"
  unfolding disjoint_range_def
proof (intro allI impI)
  fix k :: nat
  assume k: "k < 8"
  have eq: "p + word_of_nat (8 * j) + word_of_nat k - (p + word_of_nat (8 * i)) =
      (word_of_nat (8 * j + k) - word_of_nat (8 * i) :: uint64)"
    by (simp add: algebra_simps)
  show "8 \<le> unat (p + word_of_nat (8 * j) + word_of_nat k - (p + word_of_nat (8 * i)))"
  proof (cases "i < j")
    case True
    then have "unat (word_of_nat (8 * j + k) - word_of_nat (8 * i) :: uint64) = 8 * j + k - 8 * i"
      using assms k by (subst unat_sub) (simp_all add: word_le_nat_alt del: of_nat_add of_nat_mult)
    then show ?thesis unfolding eq using True by linarith
  next
    case False
    then have less: "8 * j + k < 8 * i" using assms(1) k by linarith
    let ?w = "word_of_nat (8 * j + k) - word_of_nat (8 * i) :: uint64" and ?d = "8 * i - (8 * j + k)"
    have "?w + word_of_nat ?d = 0" using less by (simp add: of_nat_diff)
    moreover have "unat (?w + word_of_nat ?d) = unat ?w + ?d" if "unat ?w < 8"
    proof (rule unat_add_offset)
      have "unat ?w + ?d < 8 + 8 * 512" using that assms(2) by linarith
      then show "unat ?w + ?d < 2 ^ 64" by simp
    qed
    ultimately have "\<not> unat ?w < 8" using less by (metis add_is_0 unsigned_0 zero_less_diff less_numeral_extra(3))
    then show ?thesis unfolding eq by simp
  qed
qed

lemma entry_store_other:
  assumes "i \<noteq> j" "i < 512" "j < 512"
  shows "entry (store64 (p + word_of_nat (8 * i)) v m) p j = entry m p j"
  unfolding entry_def store64_def using disjoint_slots[OF assms] by (intro load64_store_disjoint) simp

lemma entry_zeroed:
  assumes "i < 512"
  shows "entry (memset p 0 4096 m) p i = 0"
proof -
  have "load_bytes (memset p 0 4096 m) (p + word_of_nat (8 * i)) 8 = replicate 8 0"
  proof (rule nth_equalityI)
    fix k
    assume "k < length (load_bytes (memset p 0 4096 m) (p + word_of_nat (8 * i)) 8)"
    then have k: "k < 8" by simp
    have "store_bytes p (replicate 4096 0) m (p + word_of_nat (8 * i + k)) = replicate 4096 0 ! (8 * i + k)"
      using k assms by (intro store_bytes_in) simp_all
    then show "load_bytes (memset p 0 4096 m) (p + word_of_nat (8 * i)) 8 ! k = replicate 8 0 ! k"
      using k assms by (simp add: load_bytes_nth memset_bytes add.assoc)
  qed simp
  then show ?thesis by (simp add: entry_def load64_def numeral_eq_Suc)
qed

subsection \<open>Indices and entries as bits\<close>

definition vpn :: "uint64 \<Rightarrow> nat" where
  "vpn va = unat va div 4096"

lemma vpn_bound: "va < MAXVA \<Longrightarrow> vpn va < 67108864"
  by (simp add: vpn_def word_less_nat_alt less_mult_imp_div_less)

lemma PX_div: "PX level va = va div 2 ^ (12 + 9 * level) mod 512"
proof -
  have "(0x1FF :: uint64) = mask 9" by (simp add: mask_eq_exp_minus_1)
  then have "PX level va = take_bit 9 (drop_bit (12 + 9 * level) va)"
    by (simp only: PX_def take_bit_eq_mask)
  then show ?thesis by (simp add: take_bit_eq_mod drop_bit_eq_div)
qed

lemma pte_addr_slot: "pte_addr p level va = p + word_of_nat (8 * unat (PX level va))"
  by (simp add: pte_addr_def)

lemma PX_vpn:
  assumes "va < MAXVA"
  shows "unat (PX 2 va) = vpn va div 262144" "unat (PX 1 va) = vpn va div 512 mod 512" "unat (PX 0 va) = vpn va mod 512"
proof -
  have "unat va div 4096 div 262144 < 512"
    using vpn_bound[OF assms] by (simp add: vpn_def less_mult_imp_div_less)
  then show "unat (PX 2 va) = vpn va div 262144"
    by (simp add: PX_div vpn_def unat_mod unat_div div_mult2_eq[symmetric])
  show "unat (PX 1 va) = vpn va div 512 mod 512" "unat (PX 0 va) = vpn va mod 512"
    by (simp_all add: PX_div vpn_def unat_mod unat_div div_mult2_eq[symmetric])
qed

lemma PTE2PA_PA2PTE:
  assumes "aligned pa" "drop_bit 10 flags = 0"
  shows "PTE2PA (PA2PTE pa OR flags) = pa"
proof -
  have low: "\<not> bit pa n" if "n < 12" for n
  proof -
    have "take_bit 12 pa = 0" using assms(1) by (simp add: aligned_def take_bit_eq_mod)
    then show ?thesis using that by (metis bit_0_eq bit_take_bit_iff bot_apply bot_bool_def)
  qed
  have high: "\<not> bit flags n" if "10 \<le> n" for n
  proof -
    have "bit (drop_bit 10 flags) (n - 10) = bit flags n" using that by (simp add: bit_simps)
    then show ?thesis using assms(2) by simp
  qed
  show ?thesis
  proof (rule bit_word_eqI)
    fix n
    assume n: "n < LENGTH(64)"
    show "bit (PTE2PA (PA2PTE pa OR flags)) n = bit pa n"
      using n low[of n] high[of "n - 2"] by (cases "12 \<le> n") (auto simp: PTE2PA_def PA2PTE_def bit_simps)
  qed
qed

subsection \<open>The tree of table pages\<close>

text \<open>\<open>Low g\<close> is the table whose entries map the pages \<open>512 g\<close> to \<open>512 g + 511\<close>.\<close>

datatype node = Root | Mid nat | Low nat

type_synonym ptree = "node \<Rightarrow> uint64 option"

fun child :: "node \<Rightarrow> nat \<Rightarrow> node" where
  "child Root i = Mid i"
| "child (Mid i) j = Low (512 * i + j)"
| "child (Low g) k = Low g"

fun inner :: "node \<Rightarrow> bool" where
  "inner Root \<longleftrightarrow> True"
| "inner (Mid i) \<longleftrightarrow> i < 512"
| "inner (Low g) \<longleftrightarrow> False"

lemma child_inj:
  assumes "child a i = child b j" "inner a" "inner b" "i < 512" "j < 512"
  shows "a = b \<and> i = j"
proof (cases a; cases b)
  fix k l
  assume "a = Mid k" "b = Mid l"
  then have e: "512 * k + i = 512 * l + j" using assms by simp
  have "k = (512 * k + i) div 512" "l = (512 * l + j) div 512" using assms(4,5) by simp_all
  then have "k = l" using e by simp
  then show ?thesis using e \<open>a = Mid k\<close> \<open>b = Mid l\<close> by simp
qed (use assms in auto)

lemma child_not_parent: "inner a \<Longrightarrow> child a i \<noteq> a"
  by (cases a) auto

text \<open>Entry \<open>i\<close> of an inner table points to the child's page, or is invalid.\<close>

definition points :: "uint64 \<Rightarrow> uint64 option \<Rightarrow> bool" where
  "points pte t \<longleftrightarrow> (case t of None \<Rightarrow> pte AND PTE_V = 0 | Some q \<Rightarrow> pte AND PTE_V \<noteq> 0 \<and> PTE2PA pte = q)"

definition pgtbl_ok :: "mem \<Rightarrow> ptree \<Rightarrow> bool" where
  "pgtbl_ok m T \<longleftrightarrow> T Root \<noteq> None \<and>
     (\<forall>n i. inner n \<longrightarrow> i < 512 \<longrightarrow>
       (case T n of None \<Rightarrow> T (child n i) = None | Some p \<Rightarrow> points (entry m p i) (T (child n i))))"

lemma pgtbl_okD:
  assumes "pgtbl_ok m T" "inner n" "i < 512"
  shows "T n = Some p \<Longrightarrow> points (entry m p i) (T (child n i))" "T n = None \<Longrightarrow> T (child n i) = None"
proof -
  have "case T n of None \<Rightarrow> T (child n i) = None | Some p \<Rightarrow> points (entry m p i) (T (child n i))"
    using assms unfolding pgtbl_ok_def by blast
  then show "T n = Some p \<Longrightarrow> points (entry m p i) (T (child n i))" "T n = None \<Longrightarrow> T (child n i) = None"
    by simp_all
qed

lemma pgtbl_ok_same:
  assumes "pgtbl_ok m T" "\<And>n p. inner n \<Longrightarrow> T n = Some p \<Longrightarrow> same_page p m m'"
  shows "pgtbl_ok m' T"
  unfolding pgtbl_ok_def
proof (intro conjI allI impI)
  show "T Root \<noteq> None" using assms(1) by (simp add: pgtbl_ok_def)
  fix n and i :: nat
  assume n: "inner n" "i < 512"
  show "case T n of None \<Rightarrow> T (child n i) = None | Some p \<Rightarrow> points (entry m' p i) (T (child n i))"
    using pgtbl_okD[OF assms(1) n] entry_same[OF assms(2)[OF n(1)] n(2)] by (auto split: option.split)
qed

definition vm_inv :: "kmem \<Rightarrow> ptree \<Rightarrow> uint64 list \<Rightarrow> bool" where
  "vm_inv s T free \<longleftrightarrow> kmem_inv s free \<and> pgtbl_ok (ram s) T \<and>
     (\<forall>a b p. T a = Some p \<longrightarrow> T b = Some p \<longrightarrow> a = b) \<and>
     (\<forall>a p. T a = Some p \<longrightarrow> page_ok s p \<and> p \<notin> set free)"

lemma vm_invD:
  assumes "vm_inv s T free"
  shows "kmem_inv s free" "pgtbl_ok (ram s) T" "T a = Some p \<Longrightarrow> T b = Some p \<Longrightarrow> a = b"
    "T a = Some p \<Longrightarrow> page_ok s p" "T a = Some p \<Longrightarrow> p \<notin> set free" "T a = Some p \<Longrightarrow> aligned p"
  using assms by (auto simp: vm_inv_def page_ok_def)

text \<open>The entry that maps virtual page \<open>v\<close>; 0 when its table does not exist.\<close>

definition leaf :: "ptree \<Rightarrow> mem \<Rightarrow> nat \<Rightarrow> uint64" where
  "leaf T m v = (case T (Low (v div 512)) of None \<Rightarrow> 0 | Some q \<Rightarrow> entry m q (v mod 512))"

text \<open>Nothing but free pages and table pages of \<open>T\<close> changes from \<open>s\<close> to \<open>t\<close>.\<close>

definition vm_frame :: "ptree \<Rightarrow> uint64 list \<Rightarrow> kmem \<Rightarrow> kmem \<Rightarrow> bool" where
  "vm_frame T free s t \<longleftrightarrow> same_syms s t \<and>
     (\<forall>p. aligned p \<longrightarrow> p \<notin> set free \<longrightarrow> (\<forall>n. T n \<noteq> Some p) \<longrightarrow> same_page p (ram s) (ram t))"

lemma vm_frame_refl [simp]: "vm_frame T free s s"
  by (simp add: vm_frame_def)

subsection \<open>A new table page\<close>

lemma new_table_mem:
  assumes inv: "vm_inv s T (pg # free)" and n: "inner n" "T n = Some p" "i < 512"
  shows "\<exists>t. kalloc s = (pg, t) \<and> pg \<noteq> 0 \<and> kmem_inv t free \<and> same_syms s t \<and>
    (let m = store64 (p + word_of_nat (8 * i)) (PA2PTE pg OR PTE_V) (memset pg 0 4096 (ram t)) in
     (\<forall>q. aligned q \<longrightarrow> q \<noteq> pg \<longrightarrow> q \<noteq> p \<longrightarrow> same_page q (ram s) m) \<and>
     (\<forall>j<512. entry m pg j = 0) \<and>
     (\<forall>j<512. entry m p j = (if j = i then PA2PTE pg OR PTE_V else entry (ram s) p j)))"
proof -
  note D = vm_invD[OF inv]
  have pg: "page_ok s pg" "aligned pg" using kmem_invD(3)[OF D(1), of pg] by (simp_all add: page_ok_def)
  have p: "aligned p" "p \<noteq> pg" using D(5,6)[OF n(2)] by auto
  have nz: "pg \<noteq> 0" by (rule page_ok_nonzero[OF pg(1) kmem_invD(4)[OF D(1)]])
  obtain t where t: "kalloc s = (pg, t)" "kmem_inv t free" "same_syms s t"
    "\<forall>q. aligned q \<longrightarrow> q \<noteq> pg \<longrightarrow> same_page q (ram s) (ram t)"
    using kalloc_ok[OF D(1)] by blast
  let ?m1 = "memset pg 0 4096 (ram t)"
  let ?m = "store64 (p + word_of_nat (8 * i)) (PA2PTE pg OR PTE_V) ?m1"
  have off: "8 * i + 8 \<le> PGBYTES" using n(3) by simp
  have s1: "same_page q (ram s) ?m1" if "aligned q" "q \<noteq> pg" for q
    by (rule same_page_trans[OF t(4)[rule_format, OF that] same_page_memset[OF that(1) pg(2) that(2)]])
  have s2: "same_page q ?m1 ?m" if "aligned q" "q \<noteq> p" for q
    by (rule same_page_store64[OF that(1) p(1) that(2) off])
  have "same_page q (ram s) ?m" if "aligned q" "q \<noteq> pg" "q \<noteq> p" for q
    using same_page_trans[OF s1 s2] that by blast
  moreover have "entry ?m pg j = 0" if "j < 512" for j
    using entry_same[OF s2 that] entry_zeroed[OF that] pg(2) p(2) by simp
  moreover have "entry ?m p j = (if j = i then PA2PTE pg OR PTE_V else entry (ram s) p j)" if "j < 512" for j
    using entry_store_other[of i j] entry_same[OF s1 that] that n(3) p by simp
  ultimately show ?thesis using t nz by (auto simp: Let_def)
qed

lemma points_new: "aligned pg \<Longrightarrow> points (PA2PTE pg OR PTE_V) (Some pg)"
proof -
  assume "aligned pg"
  then have "PTE2PA (PA2PTE pg OR PTE_V) = pg" by (intro PTE2PA_PA2PTE) simp_all
  moreover have "bit (PA2PTE pg OR PTE_V) 0" by (simp add: bit_simps)
  then have "(PA2PTE pg OR PTE_V) AND PTE_V \<noteq> 0" by (metis and_one_eq bit_0 odd_iff_mod_2_eq_one one_neq_zero)
  ultimately show ?thesis by (simp add: points_def)
qed

lemma new_table_ok:
  assumes ok: "pgtbl_ok m T" and n: "inner n" "T n = Some p" "i < 512" "T (child n i) = None"
    and inj: "\<And>a b q. T a = Some q \<Longrightarrow> T b = Some q \<Longrightarrow> a = b"
    and al: "aligned pg" "\<And>a q. T a = Some q \<Longrightarrow> aligned q \<and> q \<noteq> pg"
    and m': "\<And>q. aligned q \<Longrightarrow> q \<noteq> pg \<Longrightarrow> q \<noteq> p \<Longrightarrow> same_page q m m'" "\<And>j. j < 512 \<Longrightarrow> entry m' pg j = 0"
      "\<And>j. j < 512 \<Longrightarrow> entry m' p j = (if j = i then PA2PTE pg OR PTE_V else entry m p j)"
  shows "pgtbl_ok m' (T(child n i \<mapsto> pg))"
  unfolding pgtbl_ok_def
proof (intro conjI allI impI)
  let ?T = "T(child n i \<mapsto> pg)"
  show "?T Root \<noteq> None" using ok by (simp add: pgtbl_ok_def)
  fix a and j :: nat
  assume a: "inner a" "j < 512"
  have cj: "child a j = child n i \<longleftrightarrow> a = n \<and> j = i" using child_inj[OF _ a(1) n(1) a(2) n(3)] by blast
  show "case ?T a of None \<Rightarrow> ?T (child a j) = None | Some q \<Rightarrow> points (entry m' q j) (?T (child a j))"
  proof (cases "a = child n i")
    case True
    then have "T (child a j) = None" using pgtbl_okD(2)[OF ok a] n(4) by simp
    moreover have "child a j \<noteq> child n i" using True child_not_parent[OF a(1)] by metis
    ultimately show ?thesis using True m'(2)[OF a(2)] by (simp add: points_def)
  next
    case False
    show ?thesis
    proof (cases "T a")
      case None
      then have "a \<noteq> n" using n(2) by auto
      then show ?thesis using None False pgtbl_okD(2)[OF ok a None] cj by simp
    next
      case (Some q)
      have old: "points (entry m q j) (T (child a j))" by (rule pgtbl_okD(1)[OF ok a Some])
      show ?thesis
      proof (cases "a = n")
        case True
        then have "q = p" using Some n(2) by simp
        then show ?thesis using True Some False old m'(3)[OF a(2)] points_new[OF al(1)] cj by auto
      next
        case neq: False
        then have "q \<noteq> p" using inj[OF Some] n(2) by auto
        then have "entry m' q j = entry m q j" using al(2)[OF Some] m'(1) entry_same a(2) by blast
        then show ?thesis using old Some False neq cj by simp
      qed
    qed
  qed
qed

lemma vm_inv_new_table:
  assumes inv: "vm_inv s T (pg # free)" and n: "inner n" "T n = Some p" "i < 512" "T (child n i) = None"
  shows "\<exists>t. kalloc s = (pg, t) \<and> pg \<noteq> 0 \<and>
    (let u = t\<lparr>ram := store64 (p + word_of_nat (8 * i)) (PA2PTE pg OR PTE_V) (memset pg 0 4096 (ram t))\<rparr> in
     vm_inv u (T(child n i \<mapsto> pg)) free \<and> vm_frame T (pg # free) s u \<and>
     leaf (T(child n i \<mapsto> pg)) (ram u) = leaf T (ram s))"
proof -
  note D = vm_invD[OF inv]
  obtain t where t: "kalloc s = (pg, t)" "pg \<noteq> 0" "kmem_inv t free" "same_syms s t"
    and m: "let m = store64 (p + word_of_nat (8 * i)) (PA2PTE pg OR PTE_V) (memset pg 0 4096 (ram t)) in
     (\<forall>q. aligned q \<longrightarrow> q \<noteq> pg \<longrightarrow> q \<noteq> p \<longrightarrow> same_page q (ram s) m) \<and>
     (\<forall>j<512. entry m pg j = 0) \<and>
     (\<forall>j<512. entry m p j = (if j = i then PA2PTE pg OR PTE_V else entry (ram s) p j))"
    using new_table_mem[OF inv n(1-3)] by blast
  let ?m = "store64 (p + word_of_nat (8 * i)) (PA2PTE pg OR PTE_V) (memset pg 0 4096 (ram t))"
  let ?u = "t\<lparr>ram := ?m\<rparr>" and ?T = "T(child n i \<mapsto> pg)"
  have m1: "\<And>q. aligned q \<Longrightarrow> q \<noteq> pg \<Longrightarrow> q \<noteq> p \<Longrightarrow> same_page q (ram s) ?m" and m2: "\<And>j. j < 512 \<Longrightarrow> entry ?m pg j = 0"
    and m3: "\<And>j. j < 512 \<Longrightarrow> entry ?m p j = (if j = i then PA2PTE pg OR PTE_V else entry (ram s) p j)"
    using m unfolding Let_def by blast+
  have pg: "page_ok s pg" "aligned pg" "pg \<notin> set free" using kmem_invD(2,3)[OF D(1)] by (auto simp: page_ok_def)
  have other: "aligned q \<and> q \<noteq> pg" if "T a = Some q" for a q using D(5,6)[OF that] by auto
  have k: "kmem_inv ?u free"
  proof (rule kmem_inv_same[OF t(3)])
    fix q
    assume q: "q \<in> set free"
    have "aligned q" using kmem_invD(3)[OF D(1), of q] q by (simp add: page_ok_def)
    moreover have "aligned pg" "q \<noteq> pg" "aligned p" "q \<noteq> p" using pg q D(5,6)[OF n(2)] by auto
    ultimately show "same_page q (ram t) (ram ?u)"
      using same_page_trans[OF same_page_memset same_page_store64[of q p "8 * i"]] n(3) by simp
  qed (simp_all add: same_syms_def)
  have g: "pgtbl_ok ?m ?T"
    by (rule new_table_ok[OF D(2) n _ pg(2) other m1 m2 m3]) (rule D(3))
  have j: "\<forall>a b q. ?T a = Some q \<longrightarrow> ?T b = Some q \<longrightarrow> a = b"
  proof -
    have "T a \<noteq> Some pg" for a using other[of a pg] by blast
    then show ?thesis using D(3) by auto
  qed
  have o: "\<forall>a q. ?T a = Some q \<longrightarrow> page_ok ?u q \<and> q \<notin> set free"
  proof (intro allI impI)
    fix a q
    assume "?T a = Some q"
    then have "page_ok s q \<and> q \<notin> set free" using pg D(4,5)[of a q] by (cases "a = child n i") auto
    then show "page_ok ?u q \<and> q \<notin> set free" using t(4) by (simp add: page_ok_def same_syms_def)
  qed
  have "ram ?u = ?m" by simp
  then have "vm_inv ?u ?T free" unfolding vm_inv_def using k g j o by (simp only:)
  moreover have "vm_frame T (pg # free) s ?u"
    using t(4) m1 n(2) by (auto simp: vm_frame_def same_syms_def)
  moreover have "leaf ?T ?m v = leaf T (ram s) v" for v
  proof (cases "T (Low (v div 512))")
    case None
    then show ?thesis using m2[of "v mod 512"] by (simp add: leaf_def)
  next
    case (Some q)
    then have "q \<noteq> p" using D(3)[OF Some] n(1,2) by (cases n) auto
    then have "entry ?m q (v mod 512) = entry (ram s) q (v mod 512)"
      using m1 other[OF Some] entry_same[of q "ram s" ?m "v mod 512"] by simp
    then show ?thesis using Some n(4) by (auto simp: leaf_def)
  qed
  ultimately show ?thesis using t(1,2) by (simp add: Let_def fun_eq_iff)
qed

lemma vm_frame_trans:
  assumes "vm_frame T free s t" "vm_frame T' free' t u" "set free' \<subseteq> set free"
    "\<And>n p. T' n = Some p \<Longrightarrow> T n = Some p \<or> p \<in> set free"
  shows "vm_frame T free s u"
  unfolding vm_frame_def
proof (intro conjI allI impI)
  show "same_syms s u" using assms(1,2) same_syms_trans by (auto simp: vm_frame_def)
  fix p
  assume p: "aligned p" "p \<notin> set free" "\<forall>n. T n \<noteq> Some p"
  then have "p \<notin> set free'" "\<forall>n. T' n \<noteq> Some p" using assms(3,4) by blast+
  then have "same_page p (ram s) (ram t)" "same_page p (ram t) (ram u)"
    using assms(1,2) p unfolding vm_frame_def by blast+
  then show "same_page p (ram s) (ram u)" by (rule same_page_trans)
qed

text \<open>
  The state changes from \<open>s\<close> to \<open>t\<close>, and the tree from \<open>T\<close> to \<open>T'\<close> with table pages taken from the
  front of the free list; no other page changes.
\<close>

definition grows :: "ptree \<Rightarrow> uint64 list \<Rightarrow> kmem \<Rightarrow> kmem \<Rightarrow> ptree \<Rightarrow> uint64 list \<Rightarrow> bool" where
  "grows T free s t T' free' \<longleftrightarrow> vm_inv t T' free' \<and> T' Root = T Root \<and> vm_frame T free s t \<and>
     (\<exists>used. free = used @ free' \<and> ran T' = ran T \<union> set used \<and> (\<forall>a p. T' a = Some p \<longrightarrow> T a = Some p \<or> p \<in> set used))"

lemma growsD:
  assumes "grows T free s t T' free'"
  shows "vm_inv t T' free'" "T' Root = T Root" "vm_frame T free s t" "set free' \<subseteq> set free"
    "T' a = Some p \<Longrightarrow> T a = Some p \<or> p \<in> set free" "set free' \<union> ran T' = set free \<union> ran T"
proof -
  obtain used where u: "free = used @ free'" "\<forall>a p. T' a = Some p \<longrightarrow> T a = Some p \<or> p \<in> set used"
    "ran T' = ran T \<union> set used"
    using assms unfolding grows_def by blast
  show "vm_inv t T' free'" "T' Root = T Root" "vm_frame T free s t" using assms by (simp_all add: grows_def)
  show "set free' \<subseteq> set free" using u(1) by simp
  show "set free' \<union> ran T' = set free \<union> ran T" using u(1,3) by auto
  show "T' a = Some p \<Longrightarrow> T a = Some p \<or> p \<in> set free" using u(2)[rule_format, of a p] u(1) by auto
qed

lemma grows_refl: "vm_inv s T free \<Longrightarrow> grows T free s s T free"
  by (simp add: grows_def)

lemma grows_trans:
  assumes "grows T free s t T1 f1" "grows T1 f1 t u T2 f2"
  shows "grows T free s u T2 f2"
proof -
  obtain us vs where u: "free = us @ f1" "\<forall>a p. T1 a = Some p \<longrightarrow> T a = Some p \<or> p \<in> set us"
    "f1 = vs @ f2" "\<forall>a p. T2 a = Some p \<longrightarrow> T1 a = Some p \<or> p \<in> set vs"
    "ran T1 = ran T \<union> set us" "ran T2 = ran T1 \<union> set vs"
    using assms unfolding grows_def by blast
  then have "free = (us @ vs) @ f2 \<and> ran T2 = ran T \<union> set (us @ vs) \<and> (\<forall>a p. T2 a = Some p \<longrightarrow> T a = Some p \<or> p \<in> set (us @ vs))" by auto
  moreover have "vm_frame T free s u"
    by (rule vm_frame_trans[OF growsD(3)[OF assms(1)] growsD(3)[OF assms(2)] growsD(4)[OF assms(1)] growsD(5)[OF assms(1)]])
  ultimately show ?thesis
    using growsD(1,2)[OF assms(2)] growsD(2)[OF assms(1)] unfolding grows_def by metis
qed

text \<open>One step of \<open>walk\<close> from an inner table.\<close>

lemma walk_step_ok:
  assumes inv: "vm_inv s T free" and n: "inner n" "T n = Some p" and i: "i = unat (PX level va)" "i < 512"
  shows "T (child n i) = Some q \<Longrightarrow> walk_step level p va alloc s = (Some q, s)"
    and "T (child n i) = None \<Longrightarrow> \<not> alloc \<or> free = [] \<Longrightarrow> walk_step level p va alloc s = (None, s)"
    and "T (child n i) = None \<Longrightarrow> free = pg # rest \<Longrightarrow>
      \<exists>t. walk_step level p va True s = (Some pg, t) \<and> grows T free s t (T(child n i \<mapsto> pg)) rest \<and>
        leaf (T(child n i \<mapsto> pg)) (ram t) = leaf T (ram s)"
proof -
  have e: "load64 (ram s) (pte_addr p level va) = entry (ram s) p i" by (simp add: entry_def pte_addr_slot i(1))
  have pt: "points (entry (ram s) p i) (T (child n i))" by (rule pgtbl_okD(1)[OF vm_invD(2)[OF inv] n(1) i(2) n(2)])
  show "walk_step level p va alloc s = (Some q, s)" if "T (child n i) = Some q"
    using that pt by (simp add: walk_step_def Let_def e points_def)
  show "walk_step level p va alloc s = (None, s)" if "T (child n i) = None" "\<not> alloc \<or> free = []"
    using that pt kalloc_empty[of s] vm_invD(1)[OF inv] by (auto simp: walk_step_def Let_def e points_def)
  show "\<exists>t. walk_step level p va True s = (Some pg, t) \<and> grows T free s t (T(child n i \<mapsto> pg)) rest \<and>
        leaf (T(child n i \<mapsto> pg)) (ram t) = leaf T (ram s)" if c: "T (child n i) = None" "free = pg # rest"
  proof -
    have inv': "vm_inv s T (pg # rest)" using inv c(2) by simp
    obtain t where t: "kalloc s = (pg, t)" "pg \<noteq> 0"
      "let u = t\<lparr>ram := store64 (p + word_of_nat (8 * i)) (PA2PTE pg OR PTE_V) (memset pg 0 4096 (ram t))\<rparr> in
       vm_inv u (T(child n i \<mapsto> pg)) rest \<and> vm_frame T (pg # rest) s u \<and>
       leaf (T(child n i \<mapsto> pg)) (ram u) = leaf T (ram s)"
      using vm_inv_new_table[OF inv' n i(2) c(1)] by blast
    let ?u = "t\<lparr>ram := store64 (p + word_of_nat (8 * i)) (PA2PTE pg OR PTE_V) (memset pg 0 4096 (ram t))\<rparr>"
    have "vm_inv ?u (T(child n i \<mapsto> pg)) rest" "vm_frame T free s ?u" "leaf (T(child n i \<mapsto> pg)) (ram ?u) = leaf T (ram s)"
      using t(3) c(2) unfolding Let_def by blast+
    moreover have "(T(child n i \<mapsto> pg)) Root = T Root" using n(1) by (cases n) auto
    moreover have "free = [pg] @ rest \<and> ran (T(child n i \<mapsto> pg)) = ran T \<union> set [pg] \<and>
        (\<forall>a q. (T(child n i \<mapsto> pg)) a = Some q \<longrightarrow> T a = Some q \<or> q \<in> set [pg])"
      using c by (auto simp: ran_map_upd)
    ultimately have g: "grows T free s ?u (T(child n i \<mapsto> pg)) rest" "leaf (T(child n i \<mapsto> pg)) (ram ?u) = leaf T (ram s)"
      unfolding grows_def by blast+
    have "entry (ram s) p i AND PTE_V = 0" using pt c(1) by (simp add: points_def)
    then have "walk_step level p va True s = (Some pg, ?u)"
      using t(1,2) by (simp add: walk_step_def Let_def e) (simp add: pte_addr_slot i(1))
    then show ?thesis using g by blast
  qed
qed

subsection \<open>walk\<close>

text \<open>The address that \<open>walk\<close> returns for virtual page \<open>v\<close>.\<close>

definition slot :: "ptree \<Rightarrow> nat \<Rightarrow> uint64" where
  "slot T v = (case T (Low (v div 512)) of None \<Rightarrow> 0 | Some q \<Rightarrow> q + word_of_nat (8 * (v mod 512)))"

lemma vpn_path:
  assumes "va < MAXVA"
  shows "inner (Mid (vpn va div 262144))" "vpn va div 262144 < 512"
    "child (Mid (vpn va div 262144)) (vpn va div 512 mod 512) = Low (vpn va div 512)"
proof -
  show lt: "vpn va div 262144 < 512" using vpn_bound[OF assms] by (simp add: less_mult_imp_div_less)
  then show "inner (Mid (vpn va div 262144))" by simp
  have "vpn va div 262144 = vpn va div 512 div 512" by (simp add: div_mult2_eq[symmetric])
  then show "child (Mid (vpn va div 262144)) (vpn va div 512 mod 512) = Low (vpn va div 512)" by simp
qed

text \<open>Without allocation, \<open>walk\<close> only looks.\<close>

lemma walk_lookup:
  assumes inv: "vm_inv s T free" and va: "va < MAXVA" and r: "T Root = Some r"
  shows "walk r va False s = Ok (slot T (vpn va), s)"
proof -
  let ?i = "vpn va div 262144" and ?j = "vpn va div 512 mod 512"
  note px = PX_vpn[OF va, symmetric] and path = vpn_path[OF va]
  have root: "inner Root" by simp
  note st2 = walk_step_ok(1,2)[where alloc = False, OF inv root r px(1) path(2)]
  show ?thesis
  proof (cases "T (Mid ?i)")
    case None
    have "T (Low (vpn va div 512)) = None"
      using pgtbl_okD(2)[OF vm_invD(2)[OF inv] path(1), of ?j] None path(3) by simp
    then show ?thesis using None st2(2) va by (simp add: walk_def slot_def not_le)
  next
    case (Some p)
    have j: "?j < 512" by simp
    note st1 = walk_step_ok(1,2)[where alloc = False, OF inv path(1) Some px(2) j, unfolded path(3)]
    show ?thesis
      using Some st2(1) st1(1,2) va
      by (cases "T (Low (vpn va div 512))") (simp_all add: walk_def slot_def not_le pte_addr_slot px(3)[symmetric])
  qed
qed

text \<open>With allocation it may add tables, which map nothing; it fails only when no page is free.\<close>

lemma walk_alloc:
  assumes inv: "vm_inv s T free" and va: "va < MAXVA" and r: "T Root = Some r"
  shows "\<exists>t T' free'. walk r va True s = Ok (slot T' (vpn va), t) \<and> grows T free s t T' free' \<and>
    leaf T' (ram t) = leaf T (ram s) \<and> (T' (Low (vpn va div 512)) = None \<longrightarrow> free' = []) \<and>
    length free \<le> length free' + 2"
proof -
  let ?i = "vpn va div 262144" and ?j = "vpn va div 512 mod 512"
  note px = PX_vpn[OF va, symmetric] and path = vpn_path[OF va]
  have root: "inner Root" and j: "?j < 512" by simp_all
  note st2 = walk_step_ok(1,2)[where alloc = True, OF inv root r px(1) path(2)] walk_step_ok(3)[OF inv root r px(1) path(2)]
  show ?thesis
  proof (cases "T (Mid ?i) = None \<and> free = []")
    case True
    have "T (Low (vpn va div 512)) = None"
      using pgtbl_okD(2)[OF vm_invD(2)[OF inv] path(1) j] True path(3) by simp
    then have "walk r va True s = Ok (slot T (vpn va), s)" using True st2(2) va by (simp add: walk_def slot_def not_le)
    then show ?thesis using grows_refl[OF inv] True by fastforce
  next
    case False
    obtain p t T1 f1 where t: "walk_step 2 r va True s = (Some p, t)" "grows T free s t T1 f1"
      "leaf T1 (ram t) = leaf T (ram s)" "T1 (Mid ?i) = Some p" "length free \<le> length f1 + 1"
    proof (cases "T (Mid ?i)")
      case None
      then obtain pg rest where f: "free = pg # rest" using False by (cases free) auto
      have "T (child Root ?i) = None" using None by simp
      from st2(3)[OF this f] show thesis using that f by fastforce
    next
      case (Some p)
      show thesis by (rule that[of p s T free]) (use Some st2(1) grows_refl[OF inv] in simp_all)
    qed
    note st1 = walk_step_ok(1,2)[where alloc = True, OF growsD(1)[OF t(2)] path(1) t(4) px(2) j, unfolded path(3)]
      walk_step_ok(3)[OF growsD(1)[OF t(2)] path(1) t(4) px(2) j, unfolded path(3)]
    have run: "walk r va True s = (case walk_step 1 p va True t of (None, u) \<Rightarrow> Ok (0, u)
        | (Some q, u) \<Rightarrow> Ok (q + word_of_nat (8 * (vpn va mod 512)), u))"
    proof -
      have "\<not> MAXVA \<le> va" "pte_addr q 0 va = q + word_of_nat (8 * (vpn va mod 512))" for q
        using va by (simp_all add: pte_addr_slot px(3)[symmetric] not_le)
      then show ?thesis using t(1) by (simp only: walk_def) simp
    qed
    show ?thesis
    proof (cases "T1 (Low (vpn va div 512))")
      case (Some q)
      then have "walk r va True s = Ok (slot T1 (vpn va), t)" using run st1(1) by (simp add: slot_def)
      then show ?thesis using t(2,3,5) Some by (intro exI[of _ t] exI[of _ T1] exI[of _ f1]) simp
    next
      case None
      show ?thesis
      proof (cases f1)
        case Nil
        then have "walk r va True s = Ok (slot T1 (vpn va), t)" using run st1(2)[OF None] None by (simp add: slot_def)
        then show ?thesis using t(2,3,5) Nil by fastforce
      next
        case (Cons pg rest)
        let ?T = "T1(Low (vpn va div 512) \<mapsto> pg)"
        obtain u where u: "walk_step 1 p va True t = (Some pg, u)" "grows T1 f1 t u ?T rest" "leaf ?T (ram u) = leaf T1 (ram t)"
          using st1(3)[OF None Cons] by blast
        have "walk r va True s = Ok (slot ?T (vpn va), u)" using run u(1) by (simp add: slot_def)
        moreover have "?T (Low (vpn va div 512)) = Some pg" "length free \<le> length rest + 2" using Cons t(5) by simp_all
        ultimately show ?thesis using grows_trans[OF t(2) u(2)] u(3) t(3) by fastforce
      qed
    qed
  qed
qed

subsection \<open>Setting a leaf entry\<close>

lemma slot_nonzero:
  assumes "vm_inv s T free"
  shows "slot T v = 0 \<longleftrightarrow> T (Low (v div 512)) = None"
proof (cases "T (Low (v div 512))")
  case (Some q)
  have "page_ok s q" "KERNBASE \<le> sym_end s"
    using vm_invD(4)[OF assms Some] kmem_invD(4)[OF vm_invD(1)[OF assms]] by simp_all
  then have q: "unat q < 2281701376" "2147483648 \<le> unat q" by (auto simp: page_ok_def word_less_nat_alt word_le_nat_alt)
  have "8 * (v mod 512) < 4096" by simp
  then have "unat q + 8 * (v mod 512) < 2 ^ 64" using q(1) by simp
  then have "unat (slot T v) = unat q + 8 * (v mod 512)"
    using Some unat_add_offset[of q "8 * (v mod 512)"] by (simp add: slot_def)
  then have "slot T v \<noteq> 0" using q(2) by auto
  then show ?thesis using Some by simp
qed (simp add: slot_def)

lemma leaf_slot: "T (Low (v div 512)) = Some q \<Longrightarrow> load64 m (slot T v) = leaf T m v"
  by (simp add: slot_def leaf_def entry_def)

lemma set_leaf:
  fixes pte :: uint64
  assumes inv: "vm_inv s T free" and q: "T (Low (v div 512)) = Some q"
  defines "u \<equiv> s\<lparr>ram := store64 (slot T v) pte (ram s)\<rparr>"
  shows "vm_inv u T free" "vm_frame T free s u" "leaf T (ram u) = (leaf T (ram s))(v := pte)"
proof -
  note D = vm_invD[OF inv]
  have ru: "ram u = store64 (q + word_of_nat (8 * (v mod 512))) pte (ram s)" using q by (simp add: u_def slot_def)
  have off: "8 * (v mod 512) + 8 \<le> PGBYTES" by (simp add: Suc_leI)
  have same: "same_page p (ram s) (ram u)" if "aligned p" "p \<noteq> q" for p
    unfolding ru by (rule same_page_store64[OF that(1) D(6)[OF q] that(2) off])
  have syms: "same_syms s u" by (simp add: u_def same_syms_def)
  have k: "kmem_inv u free"
  proof (rule kmem_inv_same[OF D(1)])
    show "same_page p (ram s) (ram u)" if "p \<in> set free" for p
    proof (rule same)
      show "aligned p" by (rule page_ok_aligned[OF kmem_invD(3)[OF D(1) that]])
      show "p \<noteq> q" using that D(5)[OF q] by metis
    qed
  qed (simp_all add: u_def same_syms_def)
  have "pgtbl_ok (ram u) T"
  proof (rule pgtbl_ok_same[OF D(2)])
    fix n p
    assume n: "inner n" "T n = Some p"
    then have "p \<noteq> q" using D(3)[OF n(2), of "Low (v div 512)"] q by (cases n) auto
    then show "same_page p (ram s) (ram u)" using D(6)[OF n(2)] by (rule same[rotated])
  qed
  then show "vm_inv u T free"
    unfolding vm_inv_def page_ok_same_syms[OF syms] using k D(3,4,5) by blast
  show "vm_frame T free s u" unfolding vm_frame_def using same q syms by metis
  show "leaf T (ram u) = (leaf T (ram s))(v := pte)"
  proof
    fix w
    show "leaf T (ram u) w = ((leaf T (ram s))(v := pte)) w"
    proof (cases "w div 512 = v div 512")
      case True
      then have "w mod 512 = v mod 512 \<longleftrightarrow> w = v" by (metis div_mult_mod_eq)
      then show ?thesis using True q entry_store_other[of "v mod 512" "w mod 512"] by (auto simp: leaf_def ru)
    next
      case False
      have "entry (ram u) p (w mod 512) = entry (ram s) p (w mod 512)" if "T (Low (w div 512)) = Some p" for p
      proof -
        have "p \<noteq> q" using D(3)[OF that, of "Low (v div 512)"] q False by auto
        then show ?thesis using same[OF D(6)[OF that]] by (intro entry_same) simp_all
      qed
      then show ?thesis using False by (auto simp: leaf_def split: option.split)
    qed
  qed
qed

lemma set_leaf_grows:
  assumes "vm_inv s T free" "T (Low (v div 512)) = Some q"
  shows "grows T free s (s\<lparr>ram := store64 (slot T v) pte (ram s)\<rparr>) T free"
  using set_leaf(1,2)[OF assms, of pte] by (simp add: grows_def)

subsection \<open>mappages\<close>

text \<open>The address space with \<open>k\<close> pages from \<open>v\<close> on mapped to consecutive pages from \<open>pa\<close> on.\<close>

definition mapped :: "(nat \<Rightarrow> uint64) \<Rightarrow> nat \<Rightarrow> nat \<Rightarrow> uint64 \<Rightarrow> uint64 \<Rightarrow> nat \<Rightarrow> uint64" where
  "mapped f v k pa perm w =
     (if v \<le> w \<and> w < v + k then PA2PTE (pa + word_of_nat (4096 * (w - v))) OR perm OR PTE_V else f w)"

lemma mapped_step:
  "mapped (f(v := PA2PTE pa OR perm OR PTE_V)) (Suc v) k (pa + 4096) perm = mapped f v (Suc k) pa perm"
proof
  fix w
  have "word_of_nat (4096 * (w - Suc v)) + 4096 = (word_of_nat (4096 * (w - v)) :: uint64)" if "Suc v \<le> w"
  proof -
    have "w - v = Suc (w - Suc v)" using that by simp
    then show ?thesis by simp
  qed
  then show "mapped (f(v := PA2PTE pa OR perm OR PTE_V)) (Suc v) k (pa + 4096) perm w = mapped f v (Suc k) pa perm w"
    by (cases "w = v") (auto simp: mapped_def add.assoc add.commute[of 4096])
qed

lemma vpn_word: "v < 67108864 \<Longrightarrow> vpn (4096 * word_of_nat v) = v \<and> 4096 * word_of_nat v < MAXVA"
  by (simp add: vpn_def word_less_nat_alt unat_word_ariths)

lemma mapped_0 [simp]: "mapped f v 0 pa perm = f"
  by (auto simp: mapped_def fun_eq_iff)

text \<open>What \<open>mappages\<close> has done when it returns \<open>res\<close>: \<open>k\<close> of \<open>n\<close> pages, all of them unless memory ran out.\<close>

definition map_result ::
    "ptree \<Rightarrow> uint64 list \<Rightarrow> kmem \<Rightarrow> (nat \<Rightarrow> uint64) \<Rightarrow> nat \<Rightarrow> cint \<Rightarrow> nat \<Rightarrow> kmem \<Rightarrow> ptree \<Rightarrow> uint64 list \<Rightarrow> bool" where
  "map_result T free s f n res k t T' free' \<longleftrightarrow> grows T free s t T' free' \<and> leaf T' (ram t) = f \<and>
     (res = 0 \<and> k = n \<or> res = - 1 \<and> k < n \<and> free' = []) \<and> length free \<le> length free' + 2 * n"

lemma mappages_loop_ok:
  assumes "vm_inv s T free" "T Root = Some r" "0 < n" "v + n \<le> 67108864"
    "\<forall>w. v \<le> w \<and> w < v + n \<longrightarrow> leaf T (ram s) w AND PTE_V = 0" "n \<le> fuel"
  shows "\<exists>res k t T' free'.
    mappages_loop fuel r (4096 * word_of_nat v) (4096 * word_of_nat (v + n - 1)) pa perm s = Ok (res, t) \<and>
    map_result T free s (mapped (leaf T (ram s)) v k pa perm) n res k t T' free'"
  using assms
proof (induction n arbitrary: v pa s T free fuel)
  case (Suc n)
  obtain fl where fl: "fuel = Suc fl" "n \<le> fl" using Suc.prems(6) by (cases fuel) auto
  have v: "vpn (4096 * word_of_nat v) = v" "4096 * word_of_nat v < MAXVA" using vpn_word[of v] Suc.prems(4) by auto
  obtain t T1 f1 where t: "walk r (4096 * word_of_nat v) True s = Ok (slot T1 v, t)" "grows T free s t T1 f1"
    "leaf T1 (ram t) = leaf T (ram s)" "T1 (Low (v div 512)) = None \<longrightarrow> f1 = []" "length free \<le> length f1 + 2"
    using walk_alloc[OF Suc.prems(1) v(2) Suc.prems(2)] unfolding v(1) by (elim exE conjE) (rule that)
  note g = growsD[OF t(2)]
  show ?case
  proof (cases "T1 (Low (v div 512))")
    case None
    then have "slot T1 v = 0" by (simp add: slot_def)
    moreover have "map_result T free s (mapped (leaf T (ram s)) v 0 pa perm) (Suc n) (- 1) 0 t T1 f1"
      using t(2-5) None by (simp add: map_result_def)
    ultimately show ?thesis
      using t(1) fl by (intro exI[of _ "- 1"] exI[of _ 0] exI[of _ t] exI[of _ T1] exI[of _ f1]) simp
  next
    case (Some q)
    let ?pte = "PA2PTE pa OR perm OR PTE_V"
    let ?u = "t\<lparr>ram := store64 (slot T1 v) ?pte (ram t)\<rparr>"
    note u = set_leaf[OF g(1) Some, of ?pte]
    have gu: "grows T free s ?u T1 f1" by (rule grows_trans[OF t(2) set_leaf_grows[OF g(1) Some]])
    have nz: "slot T1 v \<noteq> 0" using slot_nonzero[OF g(1)] Some by simp
    have inval: "load64 (ram t) (slot T1 v) AND PTE_V = 0"
      using leaf_slot[of T1 v q "ram t", OF Some] t(3) Suc.prems(5) by simp
    have run: "mappages_loop fuel r (4096 * word_of_nat v) lst pa perm s =
      (if 4096 * word_of_nat v = lst then Ok (0, ?u)
       else mappages_loop fl r (4096 * word_of_nat v + PGSIZE) lst (pa + PGSIZE) perm ?u)" for lst
      using t(1) nz inval fl(1) by (simp add: Let_def)
    have lf: "leaf T1 (ram ?u) = (leaf T (ram s))(v := ?pte)" using u(3) t(3) by simp
    show ?thesis
    proof (cases "n = 0")
      case True
      have "mapped (leaf T (ram s)) v 1 pa perm = (leaf T (ram s))(v := ?pte)" by (auto simp: mapped_def fun_eq_iff)
      then have "map_result T free s (mapped (leaf T (ram s)) v 1 pa perm) (Suc n) 0 1 ?u T1 f1"
        unfolding map_result_def using gu lf True t(5) by simp
      then show ?thesis using run[of "4096 * word_of_nat v"] True by (intro exI) auto
    next
      case False
      have eq: "4096 * word_of_nat v + PGSIZE = (4096 * word_of_nat (Suc v) :: uint64)" by (simp add: algebra_simps)
      have last: "Suc v + n - 1 = v + Suc n - 1" using False by simp
      have "vpn (4096 * word_of_nat (v + Suc n - 1)) = v + Suc n - 1"
        using vpn_word[of "v + Suc n - 1"] Suc.prems(4) by auto
      then have ne: "4096 * word_of_nat v \<noteq> (4096 * word_of_nat (v + Suc n - 1) :: uint64)" using v(1) False by auto
      have pre: "\<forall>w. Suc v \<le> w \<and> w < Suc v + n \<longrightarrow> leaf T1 (ram ?u) w AND PTE_V = 0"
        using Suc.prems(5) lf by auto
      have rt: "T1 Root = Some r" using g(2) Suc.prems(2) by simp
      obtain res k z T2 f2 where
        z: "mappages_loop fl r (4096 * word_of_nat (Suc v)) (4096 * word_of_nat (Suc v + n - 1)) (pa + PGSIZE) perm ?u = Ok (res, z)"
        and m: "map_result T1 f1 ?u (mapped (leaf T1 (ram ?u)) (Suc v) k (pa + PGSIZE) perm) n res k z T2 f2"
        using Suc.IH[OF u(1) rt _ _ pre fl(2), of "pa + PGSIZE"] False Suc.prems(4) by auto
      have "map_result T free s (mapped (leaf T (ram s)) v (Suc k) pa perm) (Suc n) res (Suc k) z T2 f2"
        using m grows_trans[OF gu] t(5) unfolding map_result_def lf mapped_step by auto
      moreover have "mappages_loop fuel r (4096 * word_of_nat v) (4096 * word_of_nat (v + Suc n - 1)) pa perm s = Ok (res, z)"
        unfolding run eq using z ne last by simp
      ultimately show ?thesis by blast
    qed
  qed
qed simp

lemma PGROUNDDOWN_vpn: "PGROUNDDOWN va = 4096 * word_of_nat (vpn va)"
proof -
  have "word_of_nat (unat (PGROUNDDOWN va)) = (word_of_nat (vpn va * 4096) :: uint64)"
    by (simp only: unat_PGROUNDDOWN vpn_def)
  then show ?thesis by (simp add: mult.commute)
qed

text \<open>The number of pages that the bytes \<open>va\<close> to \<open>va + len - 1\<close> touch.\<close>

definition npages :: "uint64 \<Rightarrow> uint64 \<Rightarrow> nat" where
  "npages va len = vpn (va + len - 1) - vpn va + 1"

lemma mappages_ok:
  assumes inv: "vm_inv s T free" and r: "T Root = Some r" and len: "len \<noteq> 0" "unat va + unat len \<le> 2 ^ 38"
    and un: "\<forall>w. vpn va \<le> w \<and> w < vpn va + npages va len \<longrightarrow> leaf T (ram s) w AND PTE_V = 0"
  shows "\<exists>res k t T' free'. mappages r va len pa perm s = Ok (res, t) \<and>
    map_result T free s (mapped (leaf T (ram s)) (vpn va) k pa perm) (npages va len) res k t T' free'"
proof -
  have l0: "0 < unat len" using len(1) by (simp add: unat_gt_0)
  have sum: "unat (va + len) = unat va + unat len" using len(2) by (simp add: unat_word_ariths)
  then have last: "unat (va + len - 1) = unat va + unat len - 1" using l0 by (simp add: unat_sub word_le_nat_alt)
  have le: "vpn va \<le> vpn (va + len - 1)" unfolding vpn_def last using l0 by (intro div_le_mono) simp
  have lt: "vpn (va + len - 1) < 67108864"
    unfolding vpn_def last using l0 len(2) by (simp add: less_mult_imp_div_less)
  have n: "0 < npages va len" "vpn va + npages va len \<le> 67108864" "vpn va + npages va len - 1 = vpn (va + len - 1)"
    using le lt by (simp_all add: npages_def)
  have "unat (PGROUNDDOWN (va + len - 1)) = 4096 * vpn (va + len - 1)" "unat (PGROUNDDOWN va) = 4096 * vpn va"
    by (simp_all add: unat_PGROUNDDOWN vpn_def)
  then have "unat (PGROUNDDOWN (va + len - 1) - PGROUNDDOWN va) = 4096 * vpn (va + len - 1) - 4096 * vpn va"
    using le by (simp add: unat_sub word_le_nat_alt)
  then have fuel: "unat (PGROUNDDOWN (va + len - 1) - PGROUNDDOWN va) div PGBYTES + 1 = npages va len"
    by (simp add: npages_def diff_mult_distrib2[symmetric])
  have "mappages r va len pa perm s =
      mappages_loop (npages va len) r (4096 * word_of_nat (vpn va)) (4096 * word_of_nat (vpn va + npages va len - 1)) pa perm s"
    using len(1) fuel unfolding mappages_def Let_def PGROUNDDOWN_vpn n(3) by (simp only: if_False)
  then show ?thesis using mappages_loop_ok[OF inv r n(1,2) un order_refl, of pa perm] by simp
qed

subsection \<open>walkaddr and new address spaces\<close>

lemma walkaddr_ok:
  assumes inv: "vm_inv s T free" and r: "T Root = Some r"
  shows "walkaddr r va s = Ok (if MAXVA \<le> va \<or> leaf T (ram s) (vpn va) AND PTE_V = 0 \<or> leaf T (ram s) (vpn va) AND PTE_U = 0
    then 0 else PTE2PA (leaf T (ram s) (vpn va)))"
proof (cases "MAXVA \<le> va")
  case False
  then have w: "walk r va False s = Ok (slot T (vpn va), s)" by (intro walk_lookup[OF inv _ r]) simp
  show ?thesis
  proof (cases "T (Low (vpn va div 512))")
    case None
    then show ?thesis using False w by (simp add: walkaddr_def slot_def leaf_def)
  next
    case (Some q)
    then have "slot T (vpn va) \<noteq> 0" using slot_nonzero[OF inv] by simp
    then show ?thesis using False w leaf_slot[of T "vpn va" q "ram s", OF Some] by (simp add: walkaddr_def)
  qed
qed (simp add: walkaddr_def)

lemma uvmcreate_ok:
  assumes "kmem_inv s (pg # free)"
  shows "\<exists>t. uvmcreate s = (pg, t) \<and> vm_inv t [Root \<mapsto> pg] free \<and> leaf [Root \<mapsto> pg] (ram t) = (\<lambda>_. 0) \<and>
    same_syms s t \<and> (\<forall>p. aligned p \<longrightarrow> p \<noteq> pg \<longrightarrow> same_page p (ram s) (ram t))"
proof -
  note D = kmem_invD[OF assms]
  have pg: "page_ok s pg" "aligned pg" "pg \<notin> set free" "pg \<noteq> 0"
    using D(2,3) page_ok_nonzero[of s pg] D(4) by (auto simp: page_ok_def)
  obtain t where t: "kalloc s = (pg, t)" "kmem_inv t free" "same_syms s t"
    "\<forall>q. aligned q \<longrightarrow> q \<noteq> pg \<longrightarrow> same_page q (ram s) (ram t)"
    using kalloc_ok[OF assms] by blast
  let ?u = "t\<lparr>ram := memset pg 0 4096 (ram t)\<rparr>"
  have same: "same_page q (ram t) (ram ?u)" if "aligned q" "q \<noteq> pg" for q
    using same_page_memset[OF that(1) pg(2) that(2)] by simp
  have "kmem_inv ?u free"
  proof (rule kmem_inv_same[OF t(2)])
    show "same_page p (ram t) (ram ?u)" if "p \<in> set free" for p
    proof (rule same)
      show "aligned p" by (rule page_ok_aligned[OF kmem_invD(3)[OF t(2) that]])
      show "p \<noteq> pg" using that pg(3) by metis
    qed
  qed (simp_all add: same_syms_def)
  moreover have "pgtbl_ok (ram ?u) [Root \<mapsto> pg]"
    unfolding pgtbl_ok_def by (simp add: points_def entry_zeroed) (auto elim!: inner.elims)
  moreover have "page_ok ?u pg" using pg(1) t(3) by (simp add: page_ok_def same_syms_def)
  ultimately have "vm_inv ?u [Root \<mapsto> pg] free" using pg(3) by (auto simp: vm_inv_def split: if_splits)
  moreover have "uvmcreate s = (pg, ?u)" using t(1) pg(4) by (simp add: uvmcreate_def)
  moreover have "same_page p (ram s) (ram ?u)" if "aligned p" "p \<noteq> pg" for p
    using same_page_trans[OF t(4)[rule_format, OF that] same[OF that]] .
  ultimately show ?thesis using t(3) by (auto simp: leaf_def same_syms_def)
qed

end
