(* ===== verification/Xv6_Usermem.thy ===== *)
theory Xv6_Usermem
  imports Xv6_Pagetable
begin

section \<open>User memory as bytes, and the copies between user and kernel\<close>

text \<open>
  The user's view of an address space is the partial function \<open>ubyte\<close> from addresses to bytes.
  \<open>copyin\<close> reads it and \<open>copyout\<close> writes it, across page boundaries, exactly for the ranges that are
  mapped for the user.
\<close>

subsection \<open>The user's view\<close>

definition upage :: "ptree \<Rightarrow> mem \<Rightarrow> nat \<Rightarrow> uint64 option" where
  "upage T m v =
     (let e = leaf T m v in
      if v < 67108864 \<and> e AND PTE_V \<noteq> 0 \<and> e AND PTE_U \<noteq> 0 then Some (PTE2PA e) else None)"

definition ubyte :: "ptree \<Rightarrow> mem \<Rightarrow> nat \<Rightarrow> uchar option" where
  "ubyte T m a = map_option (\<lambda>p. m (p + word_of_nat (a mod 4096))) (upage T m (a div 4096))"

text \<open>
  The pages an address space owns: those the user may access, and every other page mapped below the
  trapframe and the trampoline, such as the guard page under the stack, which \<open>uvmclear\<close> takes from
  the user. They are valid pages, not free, no table pages, and mapped once.
\<close>

definition opage :: "ptree \<Rightarrow> mem \<Rightarrow> nat \<Rightarrow> uint64 option" where
  "opage T m v =
     (let e = leaf T m v in
      if v < 67108864 \<and> e AND PTE_V \<noteq> 0 \<and> (v < 67108862 \<or> e AND PTE_U \<noteq> 0) then Some (PTE2PA e) else None)"

lemma upage_opage: "upage T m v = Some p \<Longrightarrow> opage T m v = Some p"
  by (simp add: upage_def opage_def Let_def split: if_splits)

definition space_ok :: "kmem \<Rightarrow> ptree \<Rightarrow> uint64 list \<Rightarrow> bool" where
  "space_ok s T free \<longleftrightarrow> vm_inv s T free \<and>
     (\<forall>v p. opage T (ram s) v = Some p \<longrightarrow> page_ok s p \<and> p \<notin> set free \<and> (\<forall>n. T n \<noteq> Some p)) \<and>
     (\<forall>v w p. opage T (ram s) v = Some p \<longrightarrow> opage T (ram s) w = Some p \<longrightarrow> v = w)"

lemma space_ownD:
  assumes "space_ok s T free"
  shows "vm_inv s T free" "opage T (ram s) v = Some p \<Longrightarrow> page_ok s p" "opage T (ram s) v = Some p \<Longrightarrow> p \<notin> set free"
    "opage T (ram s) v = Some p \<Longrightarrow> T n \<noteq> Some p" "opage T (ram s) v = Some p \<Longrightarrow> aligned p"
    "opage T (ram s) v = Some p \<Longrightarrow> opage T (ram s) w = Some p \<Longrightarrow> v = w"
    "opage T (ram s) v = Some p \<Longrightarrow> p \<noteq> 0"
proof -
  show inv: "vm_inv s T free" using assms by (simp add: space_ok_def)
  assume p: "opage T (ram s) v = Some p"
  show ok: "page_ok s p" and "p \<notin> set free" "T n \<noteq> Some p" using assms p unfolding space_ok_def by blast+
  show "aligned p" by (rule page_ok_aligned[OF ok])
  show "p \<noteq> 0" by (rule page_ok_nonzero[OF ok kmem_invD(4)[OF vm_invD(1)[OF inv]]])
  show "v = w" if "opage T (ram s) w = Some p" using assms p that unfolding space_ok_def by blast
qed

lemma space_okD:
  assumes "space_ok s T free"
  shows "vm_inv s T free" "upage T (ram s) v = Some p \<Longrightarrow> page_ok s p" "upage T (ram s) v = Some p \<Longrightarrow> p \<notin> set free"
    "upage T (ram s) v = Some p \<Longrightarrow> T n \<noteq> Some p" "upage T (ram s) v = Some p \<Longrightarrow> aligned p"
    "upage T (ram s) v = Some p \<Longrightarrow> upage T (ram s) w = Some p \<Longrightarrow> v = w"
    "upage T (ram s) v = Some p \<Longrightarrow> p \<noteq> 0"
  using space_ownD[OF assms] upage_opage by blast+

lemma walkaddr_upage:
  assumes "space_ok s T free" "T Root = Some r"
  shows "walkaddr r va s = Ok (case upage T (ram s) (vpn va) of None \<Rightarrow> 0 | Some p \<Rightarrow> p)"
proof -
  have "MAXVA \<le> va \<longleftrightarrow> \<not> vpn va < 67108864"
  proof -
    have "vpn va < 67108864 \<longleftrightarrow> unat va < 274877906944"
      using div_less_iff_less_mult[of 4096 "unat va" 67108864] by (simp add: vpn_def)
    then show ?thesis by (simp add: word_le_nat_alt not_less)
  qed
  then show ?thesis
    using walkaddr_ok[OF space_okD(1)[OF assms(1)] assms(2)] by (auto simp: upage_def Let_def)
qed

text \<open>Writing inside a user page changes the user's bytes there and nothing else.\<close>

lemma upage_same_leaf: "leaf T' m' = leaf T m \<Longrightarrow> upage T' m' = upage T m"
  by (simp add: upage_def fun_eq_iff)

lemma opage_same_leaf: "leaf T' m' = leaf T m \<Longrightarrow> opage T' m' = opage T m"
  by (simp add: opage_def fun_eq_iff)


lemma page_offset_diff:
  fixes p :: uint64
  assumes "off \<le> PGBYTES" "o1 < PGBYTES"
  shows "off \<le> o1 \<Longrightarrow> unat (p + word_of_nat o1 - (p + word_of_nat off)) = o1 - off"
    "\<not> off \<le> o1 \<Longrightarrow> PGBYTES \<le> unat (p + word_of_nat o1 - (p + word_of_nat off))"
proof -
  let ?w = "p + word_of_nat o1 - (p + word_of_nat off)"
  have w: "?w = word_of_nat o1 - word_of_nat off" by simp
  show "unat ?w = o1 - off" if "off \<le> o1"
    unfolding w using that assms by (subst unat_sub) (simp_all add: word_le_nat_alt)
  show "PGBYTES \<le> unat ?w" if "\<not> off \<le> o1"
  proof (rule ccontr)
    assume "\<not> PGBYTES \<le> unat ?w"
    then have "unat ?w + (off - o1) < 2 ^ 64" using assms by simp
    then have "unat (?w + word_of_nat (off - o1)) = unat ?w + (off - o1)" by (rule unat_add_offset)
    moreover have "?w + word_of_nat (off - o1) = 0" using that by (simp add: of_nat_diff)
    ultimately have "unat ?w + (off - o1) = 0" by (metis unsigned_0)
    then show False using that by simp
  qed
qed

lemma store_user:
  assumes ok: "space_ok s T free" and p: "upage T (ram s) v = Some p" and bs: "off + length bs \<le> PGBYTES"
  defines "u \<equiv> s\<lparr>ram := store_bytes (p + word_of_nat off) bs (ram s)\<rparr>"
  shows "space_ok u T free" "leaf T (ram u) = leaf T (ram s)"
    "ubyte T (ram u) a = (if a div 4096 = v \<and> off \<le> a mod 4096 \<and> a mod 4096 < off + length bs
       then Some (bs ! (a mod 4096 - off)) else ubyte T (ram s) a)"
proof -
  note D = space_okD[OF ok] and V = vm_invD[OF space_okD(1)[OF ok]]
  have same: "same_page q (ram s) (ram u)" if "aligned q" "q \<noteq> p" for q
    unfolding u_def using same_page_store[OF that(1) D(5)[OF p] that(2) bs] by simp
  have syms: "same_syms s u" by (simp add: u_def same_syms_def)
  have table: "same_page q (ram s) (ram u)" if "T n = Some q" for n q
    using that D(4)[OF p, of n] V(6)[OF that] by (intro same) auto
  have k: "kmem_inv u free"
  proof (rule kmem_inv_same[OF V(1)])
    show "same_page q (ram s) (ram u)" if "q \<in> set free" for q
    proof (rule same)
      show "aligned q" by (rule page_ok_aligned[OF kmem_invD(3)[OF V(1) that]])
      show "q \<noteq> p" using that D(3)[OF p] by metis
    qed
  qed (simp_all add: u_def same_syms_def)
  have "pgtbl_ok (ram u) T" by (rule pgtbl_ok_same[OF V(2)]) (rule table)
  then have inv: "vm_inv u T free" unfolding vm_inv_def page_ok_same_syms[OF syms] using k V(3,4,5) by blast
  show lf: "leaf T (ram u) = leaf T (ram s)"
    using table entry_same by (fastforce simp: leaf_def fun_eq_iff split: option.split)
  note up = upage_same_leaf[OF lf]
  show "space_ok u T free"
    unfolding space_ok_def opage_same_leaf[OF lf] page_ok_same_syms[OF syms] using inv space_ownD(2,3,4,6)[OF ok] by blast
  show "ubyte T (ram u) a = (if a div 4096 = v \<and> off \<le> a mod 4096 \<and> a mod 4096 < off + length bs
       then Some (bs ! (a mod 4096 - off)) else ubyte T (ram s) a)"
  proof (cases "a div 4096 = v")
    case True
    let ?o = "a mod 4096"
    have "unat (p + word_of_nat ?o - (p + word_of_nat off)) < length bs \<longleftrightarrow> off \<le> ?o \<and> ?o < off + length bs"
      and "off \<le> ?o \<Longrightarrow> unat (p + word_of_nat ?o - (p + word_of_nat off)) = ?o - off"
      using page_offset_diff[of off ?o p] bs by (cases "off \<le> ?o"; force)+
    then have "ram u (p + word_of_nat ?o) = (if off \<le> ?o \<and> ?o < off + length bs then bs ! (?o - off) else ram s (p + word_of_nat ?o))"
      by (simp add: u_def store_bytes_def)
    then show ?thesis using True p by (simp add: ubyte_def up)
  next
    case False
    have "ram u (q + word_of_nat (a mod 4096)) = ram s (q + word_of_nat (a mod 4096))"
      if q: "upage T (ram s) (a div 4096) = Some q" for q
    proof -
      have "q \<noteq> p" using D(6)[OF q, of v] p False by auto
      then show ?thesis using same_page_byte[OF same[OF D(5)[OF q]]] by simp
    qed
    then show ?thesis using False by (cases "upage T (ram s) (a div 4096)") (simp_all add: ubyte_def up)
  qed
qed

subsection \<open>copyin\<close>

lemma chunk_eq: "chunk va len = min len (4096 - unat va mod 4096)"
proof -
  have "unat (PGSIZE - (va - PGROUNDDOWN va)) = 4096 - unat va mod 4096"
    using offset_in_page[of va] by (simp add: unat_sub word_le_nat_alt)
  then show ?thesis by (simp add: chunk_def Let_def min_def)
qed

lemma page_off: "va - PGROUNDDOWN va = word_of_nat (unat va mod 4096)"
proof -
  have "word_of_nat (unat (va - PGROUNDDOWN va)) = (word_of_nat (unat va mod 4096) :: uint64)"
    by (simp only: offset_in_page)
  then show ?thesis by simp
qed

lemma vpn_PGROUNDDOWN [simp]: "vpn (PGROUNDDOWN va) = vpn va"
  by (simp add: vpn_def unat_PGROUNDDOWN)

lemma within_page:
  fixes a i :: nat
  assumes "i < 4096 - a mod 4096"
  shows "(a + i) div 4096 = a div 4096" "(a + i) mod 4096 = a mod 4096 + i"
proof -
  define q o1 where "q = a div 4096" and "o1 = a mod 4096"
  have a: "a = 4096 * q + o1" by (simp add: q_def o1_def)
  have lt: "o1 + i < 4096" using assms by (simp add: o1_def)
  have "(a + i) div 4096 = q" "(a + i) mod 4096 = o1 + i" unfolding a add.assoc using lt by simp_all
  then show "(a + i) div 4096 = a div 4096" "(a + i) mod 4096 = a mod 4096 + i" by (simp_all add: q_def o1_def)
qed

lemma next_page:
  assumes "vpn va < 67108864"
  shows "unat (PGROUNDDOWN va + PGSIZE) = unat va + (4096 - unat va mod 4096)"
proof -
  have "unat va = unat va div 4096 * 4096 + unat va mod 4096" by simp
  moreover have "unat (PGROUNDDOWN va + PGSIZE) = unat va div 4096 * 4096 + 4096"
    using assms by (simp add: unat_word_ariths unat_PGROUNDDOWN vpn_def)
  ultimately show ?thesis using mod_less_divisor[of 4096 "unat va"] by linarith
qed

definition ubytes :: "ptree \<Rightarrow> mem \<Rightarrow> nat \<Rightarrow> nat \<Rightarrow> uchar list" where
  "ubytes T m a n = map (\<lambda>i. the (ubyte T m (a + i))) [0..<n]"

lemma ubytes_add: "ubytes T m a (n + k) = ubytes T m a n @ ubytes T m (a + n) k"
  unfolding ubytes_def upt_add_eq_append[OF le0] map_append
  by (simp add: map_add_upt[symmetric] comp_def add.assoc add.left_commute add.commute[of n])

text \<open>The bytes of one page.\<close>

lemma ubytes_page:
  assumes "upage T m (vpn va) = Some p" "n \<le> 4096 - unat va mod 4096"
  shows "load_bytes m (p + (va - PGROUNDDOWN va)) n = ubytes T m (unat va) n"
proof (rule nth_equalityI)
  fix i
  assume "i < length (load_bytes m (p + (va - PGROUNDDOWN va)) n)"
  then have i: "i < n" by simp
  have "ubyte T m (unat va + i) = Some (m (p + word_of_nat (unat va mod 4096 + i)))"
    using within_page[of i "unat va"] i assms by (simp add: ubyte_def vpn_def)
  then show "load_bytes m (p + (va - PGROUNDDOWN va)) n ! i = ubytes T m (unat va) n ! i"
    using i by (simp add: load_bytes_nth ubytes_def page_off add.assoc)
qed (simp add: ubytes_def)

lemma copyin_ok:
  fixes len :: nat
  assumes ok: "space_ok s T free" and r: "T Root = Some r" and m: "\<forall>i<len. ubyte T (ram s) (unat va + i) \<noteq> None"
  shows "copyin r va len s = Ok (0, ubytes T (ram s) (unat va) len)"
  using m
proof (induction len arbitrary: va rule: less_induct)
  case (less len)
  show ?case
  proof (cases "len = 0")
    case False
    then obtain p where p: "upage T (ram s) (vpn va) = Some p"
      using less.prems by (auto simp: ubyte_def vpn_def dest!: spec[of _ 0])
    have v: "vpn va < 67108864" using p by (simp add: upage_def Let_def split: if_splits)
    let ?n = "chunk va len" and ?va = "PGROUNDDOWN va + PGSIZE"
    have n: "0 < ?n" "?n \<le> len" "?n \<le> 4096 - unat va mod 4096" using False chunk_bounds(1)[of len va] chunk_bounds(2)[of va len] by (auto simp: chunk_eq)
    have "copyin r ?va (len - ?n) s = Ok (0, ubytes T (ram s) (unat va + ?n) (len - ?n))"
    proof (cases "?n = len")
      case True
      then show ?thesis by (simp add: copyin.simps ubytes_def)
    next
      case False
      then have "?n = 4096 - unat va mod 4096" using n by (simp add: chunk_eq min_def split: if_splits)
      then have va: "unat ?va = unat va + ?n" using next_page[OF v] by simp
      have "\<forall>i<len - ?n. ubyte T (ram s) (unat ?va + i) \<noteq> None"
        using less.prems unfolding va by (auto simp: add.assoc dest: spec[of _ "?n + i" for i])
      then show ?thesis using less.IH[of "len - ?n" ?va] n va by simp
    qed
    moreover have "walkaddr r (PGROUNDDOWN va) s = Ok p" "p \<noteq> 0"
      using walkaddr_upage[OF ok r] p space_okD(7)[OF ok p] by simp_all
    ultimately have "copyin r va len s = Ok (0, ubytes T (ram s) (unat va) ?n @ ubytes T (ram s) (unat va + ?n) (len - ?n))"
      using False ubytes_page[OF p n(3)] by (subst copyin.simps) (simp add: Let_def)
    then show ?thesis using ubytes_add[of T "ram s" "unat va" ?n "len - ?n"] n(2) by simp
  qed (simp add: copyin.simps ubytes_def)
qed

lemma copyin_fails:
  fixes len :: nat
  assumes ok: "space_ok s T free" and r: "T Root = Some r" and m: "i < len" "ubyte T (ram s) (unat va + i) = None"
  shows "\<exists>bs. copyin r va len s = Ok (- 1, bs)"
  using m
proof (induction len arbitrary: va i rule: less_induct)
  case (less len)
  have len: "len \<noteq> 0" using less.prems by simp
  show ?case
  proof (cases "upage T (ram s) (vpn va)")
    case None
    then show ?thesis using len walkaddr_upage[OF ok r, of "PGROUNDDOWN va"] by (subst copyin.simps) (simp add: Let_def)
  next
    case (Some p)
    have v: "vpn va < 67108864" using Some by (simp add: upage_def Let_def split: if_splits)
    let ?n = "chunk va len" and ?va = "PGROUNDDOWN va + PGSIZE"
    have n: "0 < ?n" "?n \<le> 4096 - unat va mod 4096" using len chunk_bounds(1)[of len va] chunk_bounds(2)[of va len] by (auto simp: chunk_eq)
    have i: "?n \<le> i"
    proof (rule ccontr)
      assume "\<not> ?n \<le> i"
      then have "(unat va + i) div 4096 = vpn va" using within_page[of i "unat va"] n(2) by (simp add: vpn_def)
      then show False using less.prems(2) Some by (simp add: ubyte_def)
    qed
    then have "?n = 4096 - unat va mod 4096" using less.prems(1) by (simp add: chunk_eq min_def split: if_splits)
    then have "unat ?va = unat va + ?n" using next_page[OF v] by simp
    then obtain bs where "copyin r ?va (len - ?n) s = Ok (- 1, bs)"
      using less.IH[of "len - ?n" "i - ?n" ?va] n(1) i less.prems diff_less_mono[OF less.prems(1) i] by auto
    moreover have "walkaddr r (PGROUNDDOWN va) s = Ok p" "p \<noteq> 0"
      using walkaddr_upage[OF ok r] Some space_okD(7)[OF ok Some] by simp_all
    ultimately show ?thesis using len by (subst copyin.simps) (simp add: Let_def)
  qed
qed

subsection \<open>copyout\<close>

text \<open>The bytes \<open>bs\<close> written at user address \<open>a\<close>.\<close>

definition uwrite :: "nat \<Rightarrow> uchar list \<Rightarrow> (nat \<Rightarrow> uchar option) \<Rightarrow> nat \<Rightarrow> uchar option" where
  "uwrite a bs f x = (if a \<le> x \<and> x < a + length bs then Some (bs ! (x - a)) else f x)"

lemma uwrite_append: "uwrite (a + length bs) cs (uwrite a bs f) = uwrite a (bs @ cs) f"
  by (auto simp: uwrite_def fun_eq_iff nth_append)

text \<open>Only pages that are mapped for the user change.\<close>

definition user_frame :: "ptree \<Rightarrow> mem \<Rightarrow> mem \<Rightarrow> bool" where
  "user_frame T m m' \<longleftrightarrow> (\<forall>q. aligned q \<longrightarrow> (\<forall>v. upage T m v \<noteq> Some q) \<longrightarrow> same_page q m m')"

lemma user_frame_trans:
  assumes "user_frame T m m1" "user_frame T m1 m2" "upage T m1 = upage T m"
  shows "user_frame T m m2"
  unfolding user_frame_def
proof (intro allI impI)
  fix q
  assume q: "aligned q" "\<forall>v. upage T m v \<noteq> Some q"
  have "same_page q m m1" using assms(1) q unfolding user_frame_def by blast
  moreover have "same_page q m1 m2" using assms(2,3) q unfolding user_frame_def by simp
  ultimately show "same_page q m m2" by (rule same_page_trans)
qed

lemma chunk_range:
  fixes a x n :: nat
  assumes "n \<le> 4096 - a mod 4096"
  shows "x div 4096 = a div 4096 \<and> a mod 4096 \<le> x mod 4096 \<and> x mod 4096 < a mod 4096 + n \<longleftrightarrow> a \<le> x \<and> x < a + n"
    and "a \<le> x \<and> x < a + n \<Longrightarrow> x mod 4096 - a mod 4096 = x - a"
proof -
  have r: "x div 4096 = a div 4096 \<and> x mod 4096 = a mod 4096 + (x - a)" if "a \<le> x \<and> x < a + n"
  proof -
    have "x - a < 4096 - a mod 4096" "a + (x - a) = x" using that assms by linarith+
    then show ?thesis using within_page[of "x - a" a] by simp
  qed
  have l: "a \<le> x \<and> x < a + n" if "x div 4096 = a div 4096" "a mod 4096 \<le> x mod 4096" "x mod 4096 < a mod 4096 + n"
    using that div_mult_mod_eq[of x 4096] div_mult_mod_eq[of a 4096] by linarith
  show "x div 4096 = a div 4096 \<and> a mod 4096 \<le> x mod 4096 \<and> x mod 4096 < a mod 4096 + n \<longleftrightarrow> a \<le> x \<and> x < a + n"
    using r l by (metis add_less_cancel_left le_add1 less_diff_conv2 add.commute)
  show "x mod 4096 - a mod 4096 = x - a" if "a \<le> x \<and> x < a + n" using r[OF that] by simp
qed

lemma store_user_chunk:
  assumes ok: "space_ok s T free" and p: "upage T (ram s) (vpn va) = Some p" and bs: "length bs \<le> 4096 - unat va mod 4096"
  defines "u \<equiv> s\<lparr>ram := store_bytes (p + (va - PGROUNDDOWN va)) bs (ram s)\<rparr>"
  shows "space_ok u T free" "leaf T (ram u) = leaf T (ram s)" "ubyte T (ram u) = uwrite (unat va) bs (ubyte T (ram s))"
    "user_frame T (ram s) (ram u)"
proof -
  have off: "unat va mod 4096 + length bs \<le> PGBYTES" using bs mod_less_divisor[of 4096 "unat va"] by linarith
  have u: "u = s\<lparr>ram := store_bytes (p + word_of_nat (unat va mod 4096)) bs (ram s)\<rparr>" by (simp add: u_def page_off)
  note su = store_user[OF ok p off, folded u]
  show "space_ok u T free" "leaf T (ram u) = leaf T (ram s)" using su by simp_all
  show "ubyte T (ram u) = uwrite (unat va) bs (ubyte T (ram s))"
  proof
    fix x
    show "ubyte T (ram u) x = uwrite (unat va) bs (ubyte T (ram s)) x"
      unfolding su(3) vpn_def chunk_range(1)[OF bs] uwrite_def using chunk_range(2)[OF bs, of x] by simp
  qed
  show "user_frame T (ram s) (ram u)"
    unfolding user_frame_def
  proof (intro allI impI)
    fix q
    assume q: "aligned q" "\<forall>v. upage T (ram s) v \<noteq> Some q"
    then have "q \<noteq> p" using p by metis
    then show "same_page q (ram s) (ram u)" unfolding u using same_page_store[OF q(1) space_okD(5)[OF ok p] _ off] by simp
  qed
qed

lemma copyout_ok:
  fixes bs :: "uchar list"
  assumes "space_ok s T free" "T Root = Some r" "\<forall>i<length bs. ubyte T (ram s) (unat va + i) \<noteq> None"
  shows "\<exists>m. copyout r va bs s = Ok (0, s\<lparr>ram := m\<rparr>) \<and> space_ok (s\<lparr>ram := m\<rparr>) T free \<and> leaf T m = leaf T (ram s) \<and>
    ubyte T m = uwrite (unat va) bs (ubyte T (ram s)) \<and> user_frame T (ram s) m"
  using assms
proof (induction "length bs" arbitrary: bs va s rule: less_induct)
  case less
  note ok = less.prems(1) and r = less.prems(2)
  show ?case
  proof (cases "bs = []")
    case True
    then show ?thesis using ok by (intro exI[of _ "ram s"]) (auto simp: copyout.simps uwrite_def user_frame_def fun_eq_iff)
  next
    case False
    then obtain p where p: "upage T (ram s) (vpn va) = Some p"
      using less.prems(3) by (auto simp: ubyte_def vpn_def dest!: spec[of _ 0])
    have v: "vpn va < 67108864" using p by (simp add: upage_def Let_def split: if_splits)
    let ?n = "chunk va (length bs)" and ?va = "PGROUNDDOWN va + PGSIZE"
    have n: "0 < ?n" "?n \<le> length bs" "?n \<le> 4096 - unat va mod 4096"
      using False chunk_bounds(1)[of "length bs" va] chunk_bounds(2)[of va "length bs"] by (auto simp: chunk_eq)
    let ?u = "s\<lparr>ram := store_bytes (p + (va - PGROUNDDOWN va)) (take ?n bs) (ram s)\<rparr>"
    have len: "length (take ?n bs) = ?n" using n(2) by simp
    note u = store_user_chunk[OF ok p, of "take ?n bs", unfolded len, OF n(3)]
    have wa: "walkaddr r (PGROUNDDOWN va) s = Ok p" "p \<noteq> 0"
      using walkaddr_upage[OF ok r] p space_okD(7)[OF ok p] by simp_all
    have run: "copyout r va bs s = copyout r ?va (drop ?n bs) ?u"
      using False wa by (subst copyout.simps) (simp add: Let_def)
    show ?thesis
    proof (cases "?n = length bs")
      case True
      then show ?thesis using run u by (intro exI[of _ "ram ?u"]) (simp add: copyout.simps)
    next
      case less_n: False
      then have "?n = 4096 - unat va mod 4096" using n by (simp add: chunk_eq min_def split: if_splits)
      then have va: "unat ?va = unat va + ?n" using next_page[OF v] by simp
      have ub: "\<forall>i<length (drop ?n bs). ubyte T (ram ?u) (unat ?va + i) \<noteq> None"
        using less.prems(3) unfolding u(3) va by (auto simp: uwrite_def add.assoc dest: spec[of _ "?n + i" for i])
      have "length (drop ?n bs) < length bs" using n by simp
      from less.hyps[OF this u(1) r ub] obtain m where
        m: "copyout r ?va (drop ?n bs) ?u = Ok (0, ?u\<lparr>ram := m\<rparr>)" "space_ok (?u\<lparr>ram := m\<rparr>) T free"
        "leaf T m = leaf T (ram ?u)" "ubyte T m = uwrite (unat ?va) (drop ?n bs) (ubyte T (ram ?u))" "user_frame T (ram ?u) m"
        by blast
      have "ubyte T m = uwrite (unat va) bs (ubyte T (ram s))"
        using m(4) uwrite_append[of "unat va" "take ?n bs" "drop ?n bs"] len unfolding u(3) va by simp
      moreover have "user_frame T (ram s) m"
        by (rule user_frame_trans[OF u(4) m(5) upage_same_leaf[OF u(2)]])
      ultimately show ?thesis using m run u(2) by (intro exI[of _ m]) simp
    qed
  qed
qed

end
