(* ===== verification/Xv6_Uvm.thy ===== *)
theory Xv6_Uvm
  imports Xv6_Usermem
begin

section \<open>Growing, shrinking and copying address spaces\<close>

text \<open>
  Proofs about \<open>uvmalloc\<close>, \<open>uvmunmap\<close> and \<open>uvmcopy\<close> in terms of the user's view: new memory is zero,
  freed pages return to the allocator, a copy has the same bytes in other pages, and a failure for
  lack of memory leaves the address space as it was.
\<close>

subsection \<open>Pages outside an address space\<close>

text \<open>A page that something else holds: not free, not a table of \<open>T\<close> and not mapped by it.\<close>

definition own_page :: "kmem \<Rightarrow> ptree \<Rightarrow> uint64 list \<Rightarrow> uint64 \<Rightarrow> bool" where
  "own_page s T free p \<longleftrightarrow> page_ok s p \<and> p \<notin> set free \<and> (\<forall>n. T n \<noteq> Some p) \<and> (\<forall>w. opage T (ram s) w \<noteq> Some p)"

lemma own_pageD:
  assumes "own_page s T free p"
  shows "page_ok s p" "p \<notin> set free" "T n \<noteq> Some p" "opage T (ram s) w \<noteq> Some p" "aligned p"
  using assms page_ok_aligned by (auto simp: own_page_def)

text \<open>All the pages that are free, or used by the address space.\<close>

definition pages :: "kmem \<Rightarrow> ptree \<Rightarrow> uint64 list \<Rightarrow> uint64 set" where
  "pages s T free = set free \<union> ran T \<union> ran (opage T (ram s))"

text \<open>
  A step of the kernel for the address space with root \<open>T Root\<close>: it keeps the invariant, does not touch
  the pages that others hold, and takes no page from them; \<open>pages\<close> is the same set after it, so that no
  page is lost.
\<close>

definition space_step :: "kmem \<Rightarrow> ptree \<Rightarrow> uint64 list \<Rightarrow> kmem \<Rightarrow> ptree \<Rightarrow> uint64 list \<Rightarrow> bool" where
  "space_step s T free t T' free' \<longleftrightarrow> space_ok t T' free' \<and> same_syms s t \<and> T' Root = T Root \<and>
     pages t T' free' = pages s T free \<and> (\<forall>p. own_page s T free p \<longrightarrow> same_page p (ram s) (ram t))"

lemma space_stepD:
  assumes "space_step s T free t T' free'"
  shows "space_ok t T' free'" "same_syms s t" "T' Root = T Root" "pages t T' free' = pages s T free"
    "own_page s T free p \<Longrightarrow> same_page p (ram s) (ram t)"
  using assms by (simp_all add: space_step_def)

lemma own_page_pages: "own_page s T free p \<longleftrightarrow> page_ok s p \<and> p \<notin> pages s T free"
  by (auto simp: own_page_def pages_def ran_def)

lemma space_step_own:
  assumes "space_step s T free t T' free'"
  shows "own_page t T' free' p \<longleftrightarrow> own_page s T free p"
  using space_stepD(2,4)[OF assms] by (simp add: own_page_pages page_ok_same_syms)

lemma space_step_refl: "space_ok s T free \<Longrightarrow> space_step s T free s T free"
  by (simp add: space_step_def)

lemma space_step_trans:
  assumes "space_step s T free t T1 f1" "space_step t T1 f1 u T2 f2"
  shows "space_step s T free u T2 f2"
proof -
  have "same_page p (ram s) (ram u)" if "own_page s T free p" for p
    using space_stepD(5)[OF assms(1) that] space_stepD(5)[OF assms(2)] space_step_own[OF assms(1)] that
    by (blast intro: same_page_trans)
  then show ?thesis
    using space_stepD(1-4)[OF assms(1)] space_stepD(1-4)[OF assms(2)] by (simp add: space_step_def same_syms_def)
qed

lemma ubyte_same_pages:
  assumes "upage T' m' (a div 4096) = upage T m (a div 4096)" "\<And>p. upage T m (a div 4096) = Some p \<Longrightarrow> same_page p m m'"
  shows "ubyte T' m' a = ubyte T m a"
proof -
  have "m' (p + word_of_nat (a mod 4096)) = m (p + word_of_nat (a mod 4096))" if "upage T m (a div 4096) = Some p" for p
    using same_page_byte[OF assms(2)[OF that]] by simp
  then show "ubyte T' m' a = ubyte T m a" using assms(1) by (cases "upage T m (a div 4096)") (simp_all add: ubyte_def)
qed

subsection \<open>Changes that leave the tables alone\<close>

lemma vm_same:
  assumes inv: "vm_inv s T free" and syms: "same_syms s t" and k: "kmem_inv t free'"
    and same: "\<And>n p. T n = Some p \<Longrightarrow> same_page p (ram s) (ram t) \<and> p \<notin> set free'"
  shows "vm_inv t T free'" "leaf T (ram t) = leaf T (ram s)"
proof -
  note V = vm_invD[OF inv]
  have "pgtbl_ok (ram t) T" by (rule pgtbl_ok_same[OF V(2)]) (use same in blast)
  then show "vm_inv t T free'" unfolding vm_inv_def page_ok_same_syms[OF syms] using k V(3,4) same by blast
  show "leaf T (ram t) = leaf T (ram s)"
    using same entry_same by (fastforce simp: leaf_def fun_eq_iff split: option.split)
qed

lemma space_same:
  assumes ok: "space_ok s T free" and syms: "same_syms s t" and k: "kmem_inv t free'"
    and same: "\<And>n p. T n = Some p \<Longrightarrow> same_page p (ram s) (ram t) \<and> p \<notin> set free'"
    and own: "\<And>v p. opage T (ram s) v = Some p \<Longrightarrow> p \<notin> set free'"
  shows "space_ok t T free'" "leaf T (ram t) = leaf T (ram s)"
proof -
  note D = space_ownD[OF ok] and vm = vm_same[OF space_ownD(1)[OF ok] syms k same]
  show lf: "leaf T (ram t) = leaf T (ram s)" by (rule vm(2))
  have "vm_inv t T free'" by (rule vm(1))
  then show "space_ok t T free'"
    unfolding space_ok_def opage_same_leaf[OF lf] page_ok_same_syms[OF syms] using own D(2,4,6) by blast
qed

text \<open>Taking a page from the allocator, and giving one back.\<close>

lemma space_kalloc:
  assumes ok: "space_ok s T (pg # free)"
  obtains t where "kalloc s = (pg, t)" "pg \<noteq> 0" "space_ok t T free" "same_syms s t" "own_page t T free pg"
    "leaf T (ram t) = leaf T (ram s)" "\<And>q. aligned q \<Longrightarrow> q \<noteq> pg \<Longrightarrow> same_page q (ram s) (ram t)"
proof -
  note D = space_ownD[OF ok] and V = vm_invD[OF space_ownD(1)[OF ok]] note K = kmem_invD[OF V(1)]
  obtain t where t: "kalloc s = (pg, t)" "kmem_inv t free" "same_syms s t"
    "\<And>q. aligned q \<Longrightarrow> q \<noteq> pg \<Longrightarrow> same_page q (ram s) (ram t)"
    using kalloc_ok[OF V(1)] by blast
  have T: "same_page p (ram s) (ram t) \<and> p \<notin> set free" if "T n = Some p" for n p
    using t(4)[OF V(6)[OF that]] V(5)[OF that] by auto
  have o: "p \<notin> set free" if "opage T (ram s) v = Some p" for v p using D(3)[OF that] by simp
  note sp = space_same[OF ok t(3) t(2) T o]
  have pg: "page_ok s pg" "pg \<noteq> 0" "pg \<notin> set free" using K(2,3) page_ok_nonzero[of s pg] K(4) by auto
  have lf: "leaf T (ram t) = leaf T (ram s)" by (rule sp(2))
  have sk: "space_ok t T free" by (rule sp(1))
  have op: "own_page t T free pg"
    unfolding own_page_def opage_same_leaf[OF lf] page_ok_same_syms[OF t(3)] using pg V(5)[of _ pg] D(3)[of _ pg] by auto
  show thesis by (rule that[OF t(1) pg(2) sk t(3) op lf t(4)])
qed

lemma space_kfree:
  assumes ok: "space_ok s T free" and p: "own_page s T free p"
  obtains t where "kfree p s = Ok t" "space_ok t T (p # free)" "same_syms s t" "leaf T (ram t) = leaf T (ram s)"
    "\<And>q. aligned q \<Longrightarrow> q \<noteq> p \<Longrightarrow> same_page q (ram s) (ram t)"
proof -
  note D = space_ownD[OF ok] and V = vm_invD[OF space_ownD(1)[OF ok]] and P = own_pageD[OF p]
  obtain t where t: "kfree p s = Ok t" "kmem_inv t (p # free)" "same_syms s t"
    "\<And>q. aligned q \<Longrightarrow> q \<noteq> p \<Longrightarrow> same_page q (ram s) (ram t)"
    using kfree_ok[OF V(1) P(1,2)] by blast
  have T: "same_page q (ram s) (ram t) \<and> q \<notin> set (p # free)" if "T n = Some q" for n q
    using t(4)[OF V(6)[OF that]] V(5)[OF that] P(3)[of n] that by auto
  have o: "q \<notin> set (p # free)" if "opage T (ram s) v = Some q" for v q using D(3)[OF that] P(4)[of v] that by auto
  note sp = space_same[OF ok t(3) t(2) T o]
  show thesis by (rule that[OF t(1) sp(1) t(3) sp(2) t(4)])
qed

text \<open>Writing to a page that the address space does not use.\<close>

lemma space_fill:
  assumes ok: "space_ok s T free" and p: "own_page s T free p" and bs: "length bs = PGBYTES"
  defines "t \<equiv> s\<lparr>ram := store_bytes p bs (ram s)\<rparr>"
  shows "space_ok t T free" "own_page t T free p" "leaf T (ram t) = leaf T (ram s)"
    "\<And>q. aligned q \<Longrightarrow> q \<noteq> p \<Longrightarrow> same_page q (ram s) (ram t)" "\<And>i. i < PGBYTES \<Longrightarrow> ram t (p + word_of_nat i) = bs ! i"
proof -
  note D = space_ownD[OF ok] and V = vm_invD[OF space_ownD(1)[OF ok]] and P = own_pageD[OF p]
  show same: "same_page q (ram s) (ram t)" if "aligned q" "q \<noteq> p" for q
    using same_page_store[OF that(1) P(5) that(2), of 0 bs] bs by (simp add: t_def)
  have syms: "same_syms s t" by (simp add: t_def same_syms_def)
  have k: "kmem_inv t free"
  proof (rule kmem_inv_same[OF V(1)])
    show "same_page q (ram s) (ram t)" if "q \<in> set free" for q
    proof (rule same)
      show "aligned q" by (rule page_ok_aligned[OF kmem_invD(3)[OF V(1) that]])
      show "q \<noteq> p" using that P(2) by metis
    qed
  qed (simp_all add: t_def same_syms_def)
  have T: "same_page q (ram s) (ram t) \<and> q \<notin> set free" if "T n = Some q" for n q
    using same[OF V(6)[OF that]] V(5)[OF that] P(3)[of n] that by auto
  note sp = space_same[OF ok syms k T D(3)]
  show "space_ok t T free" by (rule sp(1))
  show lf: "leaf T (ram t) = leaf T (ram s)" by (rule sp(2))
  show "own_page t T free p" using p by (simp add: own_page_def opage_same_leaf[OF lf] page_ok_same_syms[OF syms])
  show "ram t (p + word_of_nat i) = bs ! i" if "i < PGBYTES" for i
    using that bs by (simp add: t_def store_bytes_def)
qed

subsection \<open>Adding one page\<close>

lemma npages_one: "v < 67108864 \<Longrightarrow> vpn (4096 * word_of_nat v) = v \<and> npages (4096 * word_of_nat v) 4096 = 1"
proof -
  assume v: "v < 67108864"
  have "unat (4096 * word_of_nat v + 4096 - 1 :: uint64) = 4096 * v + 4095"
    using v by (simp add: unat_sub word_le_nat_alt unat_word_ariths)
  then have "vpn (4096 * word_of_nat v + 4096 - 1) = v" by (simp add: vpn_def)
  moreover have "vpn (4096 * word_of_nat v) = v" using vpn_word[OF v] by simp
  ultimately show ?thesis by (simp add: npages_def)
qed

lemma leaf_pte:
  assumes "aligned p" "drop_bit 10 perm = 0"
  shows "PTE2PA (PA2PTE p OR perm OR PTE_V) = p" "(PA2PTE p OR perm OR PTE_V) AND PTE_V \<noteq> 0"
proof -
  have "drop_bit 10 (perm OR PTE_V) = 0" using assms(2) by simp
  then show "PTE2PA (PA2PTE p OR perm OR PTE_V) = p" using PTE2PA_PA2PTE[OF assms(1)] by (simp add: or.assoc)
  have "bit ((PA2PTE p OR perm OR PTE_V) AND PTE_V) 0" by (simp add: bit_simps)
  then show "(PA2PTE p OR perm OR PTE_V) AND PTE_V \<noteq> 0" by auto
qed

text \<open>The pages of the address space keep their content.\<close>

definition kept :: "kmem \<Rightarrow> ptree \<Rightarrow> kmem \<Rightarrow> bool" where
  "kept s T t \<longleftrightarrow> (\<forall>w q. opage T (ram s) w = Some q \<longrightarrow> same_page q (ram s) (ram t))"

lemma kept_upage: "kept s T t \<Longrightarrow> upage T (ram s) v = Some p \<Longrightarrow> same_page p (ram s) (ram t)"
  using upage_opage by (force simp: kept_def)

lemma ubyte_kept:
  assumes "kept s T t" "leaf T' (ram t) = leaf T (ram s)"
  shows "ubyte T' (ram t) = ubyte T (ram s)"
proof
  fix a
  show "ubyte T' (ram t) a = ubyte T (ram s) a"
    by (rule ubyte_same_pages) (simp_all add: upage_same_leaf[OF assms(2)] kept_upage[OF assms(1)])
qed

lemma grows_other_page:
  assumes g: "grows T free s t T' free'" and q: "page_ok s q" "q \<notin> set free" "\<And>n. T n \<noteq> Some q"
  shows "same_page q (ram s) (ram t)" "page_ok t q" "q \<notin> set free'" "T' n \<noteq> Some q"
proof -
  note G = growsD[OF g]
  have f: "same_syms s t" "\<And>p. aligned p \<Longrightarrow> p \<notin> set free \<Longrightarrow> \<forall>n. T n \<noteq> Some p \<Longrightarrow> same_page p (ram s) (ram t)"
    using G(3) unfolding vm_frame_def by blast+
  show "same_page q (ram s) (ram t)" using f(2)[OF page_ok_aligned[OF q(1)]] q(2,3) by blast
  show "page_ok t q" using q(1) page_ok_same_syms[OF f(1)] by simp
  show "q \<notin> set free'" using q(2) G(4) by blast
  show "T' n \<noteq> Some q" using G(5)[of n q] q(2,3) by blast
qed

lemma map_page:
  assumes ok: "space_ok s T free" and r: "T Root = Some r" and v: "v < 67108862" "leaf T (ram s) v AND PTE_V = 0"
    and p: "own_page s T free p" and perm: "drop_bit 10 perm = 0"
  obtains res t T' free' where "mappages r (4096 * word_of_nat v) PGSIZE p perm s = Ok (res, t)"
    "grows T free s t T' free'" "space_ok t T' free'" "kept s T t"
    "res = 0 \<and> leaf T' (ram t) = (leaf T (ram s))(v := PA2PTE p OR perm OR PTE_V) \<and> opage T' (ram t) = (opage T (ram s))(v \<mapsto> p) \<or>
     res = - 1 \<and> leaf T' (ram t) = leaf T (ram s) \<and> free' = []"
    "length free \<le> length free' + 2"
proof -
  have v': "v < 67108864" using v(1) by simp
  note D = space_ownD[OF ok] and n1 = npages_one[OF v'] and P = own_pageD[OF p]
  let ?va = "4096 * word_of_nat v :: uint64" and ?pte = "PA2PTE p OR perm OR PTE_V"
  have un: "\<forall>w. vpn ?va \<le> w \<and> w < vpn ?va + npages ?va 4096 \<longrightarrow> leaf T (ram s) w AND PTE_V = 0"
  proof (intro allI impI)
    fix w
    assume "vpn ?va \<le> w \<and> w < vpn ?va + npages ?va 4096"
    then have "w = v" using n1 by simp
    then show "leaf T (ram s) w AND PTE_V = 0" using v(2) by simp
  qed
  have len: "(PGSIZE :: uint64) \<noteq> 0" "unat ?va + unat (PGSIZE :: uint64) \<le> 2 ^ 38"
    using v(1) by (simp_all add: unat_word_ariths)
  from mappages_ok[OF D(1) r len un, of p perm]
  obtain res k t T' free' where mr: "mappages r ?va PGSIZE p perm s = Ok (res, t)"
    "map_result T free s (mapped (leaf T (ram s)) (vpn ?va) k p perm) (npages ?va PGSIZE) res k t T' free'"
    by (elim exE conjE) (rule that)
  have m: "grows T free s t T' free'" "leaf T' (ram t) = mapped (leaf T (ram s)) v k p perm"
    "res = 0 \<and> k = 1 \<or> res = - 1 \<and> k < 1 \<and> free' = []" "length free \<le> length free' + 2"
    using mr n1 unfolding map_result_def by simp_all
  note gp = grows_other_page[OF m(1) P(1,2,3)]
  have q: "same_page q (ram s) (ram t)" "page_ok t q" "q \<notin> set free'" "T' n \<noteq> Some q"
    if "opage T (ram s) w = Some q" for w q n
    using grows_other_page[OF m(1) D(2,3)[OF that]] D(4)[OF that] by blast+
  have kept: "kept s T t" unfolding kept_def using q(1) by blast
  show thesis
  proof (cases "res = 0")
    case False
    then have "k = 0" "res = - 1" "free' = []" using m(3) by auto
    then have lf: "leaf T' (ram t) = leaf T (ram s)" using m(2) by simp
    have "space_ok t T' free'"
      unfolding space_ok_def opage_same_leaf[OF lf] using growsD(1)[OF m(1)] q(2,3,4) D(6) by blast
    then show thesis using that[OF mr(1) m(1) _ kept _ m(4)] lf \<open>res = - 1\<close> \<open>free' = []\<close> by blast
  next
    case True
    have "mapped (leaf T (ram s)) v 1 p perm = (leaf T (ram s))(v := ?pte)" by (auto simp: mapped_def fun_eq_iff)
    then have lf: "leaf T' (ram t) = (leaf T (ram s))(v := ?pte)" using m(2,3) True by auto
    note pte = leaf_pte[OF P(5) perm]
    have up: "opage T' (ram t) = (opage T (ram s))(v \<mapsto> p)" using v(1) pte by (simp add: opage_def lf fun_eq_iff Let_def)
    have "space_ok t T' free'"
      unfolding space_ok_def up
    proof (intro conjI allI impI)
      show "vm_inv t T' free'" by (rule growsD(1)[OF m(1)])
      fix w x n q'
      show "page_ok t q'" "q' \<notin> set free'" "T' n \<noteq> Some q'" if "((opage T (ram s))(v \<mapsto> p)) w = Some q'"
        using that q[of w q'] gp by (auto split: if_splits)
      show "w = x" if "((opage T (ram s))(v \<mapsto> p)) w = Some q'" "((opage T (ram s))(v \<mapsto> p)) x = Some q'"
        using that D(6)[of w q' x] P(4) by (auto split: if_splits)
    qed
    then show thesis using that[OF mr(1) m(1) _ kept _ m(4)] lf up True by blast
  qed
qed

text \<open>A page with content \<open>bs\<close> becomes the page \<open>v\<close> of the address space, with entry \<open>pte\<close>.\<close>

definition page_added :: "kmem \<Rightarrow> ptree \<Rightarrow> kmem \<Rightarrow> ptree \<Rightarrow> nat \<Rightarrow> uint64 \<Rightarrow> uchar list \<Rightarrow> bool" where
  "page_added s T t T' v pte bs \<longleftrightarrow> kept s T t \<and> leaf T' (ram t) = (leaf T (ram s))(v := pte) \<and>
     opage T' (ram t) v = Some (PTE2PA pte) \<and> load_bytes (ram t) (PTE2PA pte) PGBYTES = bs"

lemma add_page:
  assumes ok: "space_ok s T (pg # free)" and r: "T Root = Some r" and v: "v < 67108862" "leaf T (ram s) v AND PTE_V = 0"
    and perm: "drop_bit 10 perm = 0" and ka: "kalloc s = (pg, s1)" and bs: "length bs = PGBYTES"
  obtains res t T' free' where
    "mappages r (4096 * word_of_nat v) PGSIZE pg perm (s1\<lparr>ram := store_bytes pg bs (ram s1)\<rparr>) = Ok (res, t)"
    "res = 0 \<and> space_step s T (pg # free) t T' free' \<and> page_added s T t T' v (PA2PTE pg OR perm OR PTE_V) bs \<or>
     res = - 1 \<and> free' = [] \<and> (\<exists>u. kfree pg t = Ok u \<and> space_step s T (pg # free) u T' (pg # free') \<and> kept s T u \<and>
       leaf T' (ram u) = leaf T (ram s))"
    "length free \<le> length free' + 2"
proof -
  obtain t1 where t1: "kalloc s = (pg, t1)" "pg \<noteq> 0" "space_ok t1 T free" "same_syms s t1" "own_page t1 T free pg"
    "leaf T (ram t1) = leaf T (ram s)" "\<And>q. aligned q \<Longrightarrow> q \<noteq> pg \<Longrightarrow> same_page q (ram s) (ram t1)"
    by (rule space_kalloc[OF ok]) (rule that)
  have [simp]: "t1 = s1" using t1(1) ka by simp
  let ?s2 = "s1\<lparr>ram := store_bytes pg bs (ram s1)\<rparr>"
  note f = space_fill[OF t1(3,5) bs, simplified]
  have lf: "leaf T (ram ?s2) = leaf T (ram s)" using f(3) t1(6) by simp
  note op = opage_same_leaf[OF lf, simplified]
  have lv: "leaf T (ram ?s2) v AND PTE_V = 0" using v(2) lf by simp
  obtain res t T' free' where t: "mappages r (4096 * word_of_nat v) PGSIZE pg perm ?s2 = Ok (res, t)"
    "grows T free ?s2 t T' free'" "space_ok t T' free'" "kept ?s2 T t"
    "res = 0 \<and> leaf T' (ram t) = (leaf T (ram ?s2))(v := PA2PTE pg OR perm OR PTE_V) \<and>
       opage T' (ram t) = (opage T (ram ?s2))(v \<mapsto> pg) \<or> res = - 1 \<and> leaf T' (ram t) = leaf T (ram ?s2) \<and> free' = []"
    "length free \<le> length free' + 2"
    by (rule map_page[OF f(1) r v(1) lv f(2) perm]) (rule that)
  note gp = grows_other_page[OF t(2) own_pageD(1-3)[OF f(2)]]
  have same: "same_page q (ram s) (ram ?s2)" if "aligned q" "q \<noteq> pg" for q
    using f(4)[OF that] t1(7)[OF that] by (auto intro: same_page_trans)
  have ownpg: "opage T (ram s) w \<noteq> Some pg" for w using own_pageD(4)[OF f(2)] op by simp
  have syms: "same_syms s t" using growsD(3)[OF t(2)] t1(4) by (simp add: vm_frame_def same_syms_def)
  have other: "same_page q (ram s) (ram t)" if "own_page s T (pg # free) q" for q
  proof -
    have q: "own_page ?s2 T free q" using that t1(4) by (simp add: own_page_def op page_ok_def same_syms_def)
    have "same_page q (ram ?s2) (ram t)" by (rule grows_other_page(1)[OF t(2) own_pageD(1-3)[OF q]])
    moreover have "same_page q (ram s) (ram ?s2)" using own_pageD(2,5)[OF that] by (intro same) auto
    ultimately show ?thesis by (blast intro: same_page_trans)
  qed
  have kp: "kept s T t"
    unfolding kept_def
  proof (intro allI impI)
    fix w q
    assume q: "opage T (ram s) w = Some q"
    then have "same_page q (ram ?s2) (ram t)" using t(4) by (simp add: kept_def op)
    moreover have "same_page q (ram s) (ram ?s2)" using q ownpg space_ownD(5)[OF ok q] by (intro same) auto
    ultimately show "same_page q (ram s) (ram t)" by (blast intro: same_page_trans)
  qed
  have root: "T' Root = T Root" by (rule growsD(2)[OF t(2)])
  have pgs: "set free' \<union> ran T' = set free \<union> ran T" by (rule growsD(6)[OF t(2)])
  show thesis
  proof (cases "res = 0")
    case True
    then have lf': "leaf T' (ram t) = (leaf T (ram s))(v := PA2PTE pg OR perm OR PTE_V)"
      "opage T' (ram t) = (opage T (ram s))(v \<mapsto> pg)" using t(5) lf op by simp_all
    have "opage T (ram s) v = None" using v(2) by (simp add: opage_def)
    then have "pages t T' free' = pages s T (pg # free)"
      using pgs by (auto simp: pages_def lf'(2) ran_map_upd)
    then have "space_step s T (pg # free) t T' free'" using t(3) syms root other by (simp add: space_step_def)
    moreover have "load_bytes (ram ?s2) pg PGBYTES = bs" using bs by (intro nth_equalityI) (simp_all add: f(5) load_bytes_nth)
    then have "load_bytes (ram t) pg PGBYTES = bs" using gp(1) by (simp add: same_page_def)
    then have "page_added s T t T' v (PA2PTE pg OR perm OR PTE_V) bs"
      using lf' kp leaf_pte(1)[OF own_pageD(5)[OF f(2)] perm] by (simp add: page_added_def)
    ultimately show thesis using that[OF t(1) _ t(6)] True by blast
  next
    case False
    then have r1: "res = - 1" "free' = []" and lf': "leaf T' (ram t) = leaf T (ram s)" using t(5) lf by auto
    have o: "own_page t T' free' pg" using gp ownpg by (simp add: own_page_def opage_same_leaf[OF lf'])
    obtain u where u: "kfree pg t = Ok u" "space_ok u T' (pg # free')" "same_syms t u" "leaf T' (ram u) = leaf T' (ram t)"
      "\<And>q. aligned q \<Longrightarrow> q \<noteq> pg \<Longrightarrow> same_page q (ram t) (ram u)"
      by (rule space_kfree[OF t(3) o]) (rule that)
    have "pages u T' (pg # free') = pages s T (pg # free)"
      using pgs by (auto simp: pages_def opage_same_leaf[OF u(4)] opage_same_leaf[OF lf'])
    moreover have "same_page q (ram s) (ram u)" if "own_page s T (pg # free) q" for q
      using other[OF that] u(5)[of q] own_pageD(2,5)[OF that] by (auto intro: same_page_trans)
    ultimately have "space_step s T (pg # free) u T' (pg # free')"
      using u(2,3) syms root by (simp add: space_step_def same_syms_def)
    moreover have "kept s T u"
      unfolding kept_def
    proof (intro allI impI)
      fix w q
      assume q: "opage T (ram s) w = Some q"
      then have "q \<noteq> pg" using ownpg by auto
      then show "same_page q (ram s) (ram u)"
        using same_page_trans[OF _ u(5)[OF space_ownD(5)[OF ok q]]] kp q by (simp add: kept_def)
    qed
    ultimately show thesis using that[OF t(1) _ t(6)] r1 u(1,4) lf' by auto
  qed
qed

subsection \<open>uvmunmap\<close>

lemma leaf_table: "leaf T m v \<noteq> 0 \<Longrightarrow> \<exists>q. T (Low (v div 512)) = Some q"
  by (auto simp: leaf_def split: option.splits)

lemma opage_leaf:
  assumes "opage T m v = Some p"
  shows "v < 67108864" "leaf T m v AND PTE_V \<noteq> 0" "PTE2PA (leaf T m v) = p"
  using assms by (auto simp: opage_def Let_def split: if_splits)

lemma ran_del: "f v = Some p \<Longrightarrow> ran f = insert p (ran (f(v := None)))"
  using ran_map_upd[of "f(v := None)" v p] by (simp add: fun_upd_idem)

lemma unmap_page:
  assumes ok: "space_ok s T free" and p: "opage T (ram s) v = Some p"
  obtains u where "kfree p s = Ok u"
    "let t = u\<lparr>ram := store64 (slot T v) 0 (ram u)\<rparr> in
     space_step s T free t T (p # free) \<and> leaf T (ram t) = (leaf T (ram s))(v := 0) \<and>
     (\<forall>w q. w \<noteq> v \<longrightarrow> opage T (ram s) w = Some q \<longrightarrow> same_page q (ram s) (ram t))"
proof -
  note D = space_ownD[OF ok] and V = vm_invD[OF space_ownD(1)[OF ok]]
  obtain u where u: "kfree p s = Ok u" "kmem_inv u (p # free)" "same_syms s u"
    "\<And>q. aligned q \<Longrightarrow> q \<noteq> p \<Longrightarrow> same_page q (ram s) (ram u)"
    using kfree_ok[OF V(1) D(2,3)[OF p]] by blast
  have T: "same_page q (ram s) (ram u) \<and> q \<notin> set (p # free)" if "T n = Some q" for n q
    using u(4)[OF V(6)[OF that]] V(5)[OF that] D(4)[OF p, of n] that by auto
  have inv: "vm_inv u T (p # free)" and lu: "leaf T (ram u) = leaf T (ram s)"
    by (rule vm_same[OF D(1) u(3,2) T]; assumption)+
  have "leaf T (ram s) v \<noteq> 0" using opage_leaf(2)[OF p] by auto
  then obtain l where l: "T (Low (v div 512)) = Some l" using leaf_table by blast
  let ?t = "u\<lparr>ram := store64 (slot T v) 0 (ram u)\<rparr>"
  note sl = set_leaf[OF inv l, of 0]
  have lf: "leaf T (ram ?t) = (leaf T (ram s))(v := 0)" using sl(3) lu by simp
  then have op: "opage T (ram ?t) = (opage T (ram s))(v := None)" by (auto simp: opage_def fun_eq_iff)
  have syms: "same_syms s ?t" using u(3) by (simp add: same_syms_def)
  have same: "same_page q (ram s) (ram ?t)" if "aligned q" "q \<noteq> p" "q \<notin> set free" "\<And>n. T n \<noteq> Some q" for q
    using u(4)[OF that(1,2)] sl(2) that unfolding vm_frame_def by (auto intro: same_page_trans)
  have other: "q \<noteq> p" if "opage T (ram s) w = Some q" "w \<noteq> v" for w q
    using D(6)[OF p, of w] that by auto
  have "space_ok ?t T (p # free)"
    unfolding space_ok_def page_ok_same_syms[OF syms] op
  proof (intro conjI allI impI)
    show "vm_inv ?t T (p # free)" by (rule sl(1))
    fix w x n q
    show "page_ok s q" "q \<notin> set (p # free)" "T n \<noteq> Some q" if "((opage T (ram s))(v := None)) w = Some q"
      using that D(2,3,4)[of w q] other[of w q] by (auto split: if_splits)
    show "w = x" if "((opage T (ram s))(v := None)) w = Some q" "((opage T (ram s))(v := None)) x = Some q"
      using that D(6)[of w q x] by (auto split: if_splits)
  qed
  moreover have "pages ?t T (p # free) = pages s T free"
    using ran_del[where f = "opage T (ram s)", OF p] unfolding pages_def op by auto
  moreover have "same_page q (ram s) (ram ?t)" if "own_page s T free q" for q
    using own_pageD[OF that] p by (intro same) auto
  ultimately have "space_step s T free ?t T (p # free)" using syms by (simp add: space_step_def)
  moreover have "same_page q (ram s) (ram ?t)" if "opage T (ram s) w = Some q" "w \<noteq> v" for w q
    using D(3,4,5)[OF that(1)] other[OF that] by (intro same) auto
  ultimately show thesis using that[OF u(1)] lf by (simp add: Let_def)
qed

text \<open>The pages \<open>v\<close> to \<open>v + n - 1\<close> are gone and went back to the allocator; the other ones are as before.\<close>

definition cleared :: "(nat \<Rightarrow> uint64) \<Rightarrow> nat \<Rightarrow> nat \<Rightarrow> nat \<Rightarrow> uint64" where
  "cleared f v n w = (if v \<le> w \<and> w < v + n then 0 else f w)"

lemma cleared_0 [simp]: "cleared f v 0 = f"
  by (auto simp: cleared_def fun_eq_iff)

lemma cleared_Suc: "cleared (f(v := 0)) (Suc v) n = cleared f v (Suc n)"
  by (auto simp: cleared_def fun_eq_iff)

definition unmapped :: "kmem \<Rightarrow> ptree \<Rightarrow> uint64 list \<Rightarrow> kmem \<Rightarrow> uint64 list \<Rightarrow> nat \<Rightarrow> nat \<Rightarrow> bool" where
  "unmapped s T free t free' v n \<longleftrightarrow> space_step s T free t T free' \<and> leaf T (ram t) = cleared (leaf T (ram s)) v n \<and>
     (\<forall>w q. \<not> (v \<le> w \<and> w < v + n) \<longrightarrow> opage T (ram s) w = Some q \<longrightarrow> same_page q (ram s) (ram t))"

lemma opage_leaf_eq: "leaf T' m' v = leaf T m v \<Longrightarrow> opage T' m' v = opage T m v"
  by (simp add: opage_def)

lemma uvmunmap_loop_ok:
  assumes "space_ok s T free" "T Root = Some r" "v + n \<le> 67108864" "n < fuel"
    "\<forall>w. v \<le> w \<and> w < v + n \<longrightarrow> opage T (ram s) w \<noteq> None \<and> PTE_FLAGS (leaf T (ram s) w) \<noteq> PTE_V"
  shows "\<exists>t free'. uvmunmap_loop fuel r (4096 * word_of_nat v) (4096 * word_of_nat (v + n)) True s = Ok t \<and>
    unmapped s T free t free' v n"
  using assms
proof (induction n arbitrary: v s free fuel)
  case 0
  then obtain k where "fuel = Suc k" by (cases fuel) auto
  then show ?case using space_step_refl[OF "0.prems"(1)] by (auto simp: unmapped_def)
next
  case (Suc n)
  note ok = Suc.prems(1) and r = Suc.prems(2) and v = Suc.prems(3)
  obtain k where k: "fuel = Suc k" "n < k" using Suc.prems(4) by (cases fuel) auto
  obtain p where p: "opage T (ram s) v = Some p" and fl: "PTE_FLAGS (leaf T (ram s) v) \<noteq> PTE_V"
    using Suc.prems(5) by (auto dest!: spec[of _ v])
  note lf = opage_leaf[OF p]
  have v64: "vpn (4096 * word_of_nat v) = v" "4096 * word_of_nat v < MAXVA" using vpn_word[OF lf(1)] by simp_all
  have w: "walk r (4096 * word_of_nat v) False s = Ok (slot T v, s)"
    using walk_lookup[OF space_ownD(1)[OF ok] v64(2) r] v64(1) by simp
  obtain l where l: "T (Low (v div 512)) = Some l" using leaf_table[of T "ram s" v] lf(2) by (cases "leaf T (ram s) v = 0") auto
  have le: "load64 (ram s) (slot T v) = leaf T (ram s) v" "slot T v \<noteq> 0"
    using leaf_slot[of T v l "ram s", OF l] slot_nonzero[OF space_ownD(1)[OF ok], of v] l by simp_all
  obtain u where u: "kfree p s = Ok u"
    "let t = u\<lparr>ram := store64 (slot T v) 0 (ram u)\<rparr> in
     space_step s T free t T (p # free) \<and> leaf T (ram t) = (leaf T (ram s))(v := 0) \<and>
     (\<forall>w q. w \<noteq> v \<longrightarrow> opage T (ram s) w = Some q \<longrightarrow> same_page q (ram s) (ram t))"
    by (rule unmap_page[OF ok p]) (rule that)
  let ?t = "u\<lparr>ram := store64 (slot T v) 0 (ram u)\<rparr>"
  have t: "space_step s T free ?t T (p # free)" "leaf T (ram ?t) = (leaf T (ram s))(v := 0)"
    "\<And>w q. w \<noteq> v \<Longrightarrow> opage T (ram s) w = Some q \<Longrightarrow> same_page q (ram s) (ram ?t)"
    using u(2) unfolding Let_def by blast+
  have op: "opage T (ram ?t) w = opage T (ram s) w" if "w \<noteq> v" for w using t(2) that by (intro opage_leaf_eq) simp
  have pr: "\<forall>w. Suc v \<le> w \<and> w < Suc v + n \<longrightarrow> opage T (ram ?t) w \<noteq> None \<and> PTE_FLAGS (leaf T (ram ?t) w) \<noteq> PTE_V"
  proof (intro allI impI)
    fix w
    assume w: "Suc v \<le> w \<and> w < Suc v + n"
    then have "w \<noteq> v" "leaf T (ram ?t) w = leaf T (ram s) w" using t(2) by auto
    then show "opage T (ram ?t) w \<noteq> None \<and> PTE_FLAGS (leaf T (ram ?t) w) \<noteq> PTE_V"
      using Suc.prems(5)[rule_format, of w] op[of w] w by simp
  qed
  have "Suc v + n \<le> 67108864" using v by simp
  from Suc.IH[OF space_stepD(1)[OF t(1)] r this k(2) pr] obtain t2 free' where
    t2: "uvmunmap_loop k r (4096 * word_of_nat (Suc v)) (4096 * word_of_nat (Suc v + n)) True ?t = Ok t2"
      "unmapped ?t T (p # free) t2 free' (Suc v) n" by blast
  have lt: "(4096 * word_of_nat v :: uint64) < 4096 * word_of_nat (v + Suc n)"
    using v by (simp add: word_less_nat_alt unat_word_ariths)
  have "uvmunmap_loop fuel r (4096 * word_of_nat v) (4096 * word_of_nat (v + Suc n)) True s = Ok t2"
    using k w le lf fl u(1) t2(1) lt by (simp add: Let_def add_ac)
  moreover have "unmapped s T free t2 free' v (Suc n)"
    unfolding unmapped_def
  proof (intro conjI allI impI)
    show "space_step s T free t2 T free'" using space_step_trans[OF t(1)] t2(2) by (simp add: unmapped_def)
    show "leaf T (ram t2) = cleared (leaf T (ram s)) v (Suc n)"
      using t2(2) unfolding unmapped_def t(2) cleared_Suc by blast
    fix w q
    assume w: "\<not> (v \<le> w \<and> w < v + Suc n)" and q: "opage T (ram s) w = Some q"
    then have "w \<noteq> v" by auto
    then have "opage T (ram ?t) w = Some q" using op q by simp
    moreover have "\<not> (Suc v \<le> w \<and> w < Suc v + n)" using w by auto
    ultimately have "same_page q (ram ?t) (ram t2)" using t2(2) unfolding unmapped_def by blast
    then show "same_page q (ram s) (ram t2)" using t(3)[OF \<open>w \<noteq> v\<close> q] by (blast intro: same_page_trans)
  qed
  ultimately show ?case by blast
qed

lemma uvmunmap_ok:
  assumes "space_ok s T free" "T Root = Some r" "v + n \<le> 67108864"
    "\<forall>w. v \<le> w \<and> w < v + n \<longrightarrow> opage T (ram s) w \<noteq> None \<and> PTE_FLAGS (leaf T (ram s) w) \<noteq> PTE_V"
  shows "\<exists>t free'. uvmunmap r (4096 * word_of_nat v) (word_of_nat n) True s = Ok t \<and> unmapped s T free t free' v n"
proof -
  have "unat (4096 * word_of_nat v :: uint64) mod 4096 = 0" using assms(3) by (simp add: unat_word_ariths)
  then have "(4096 * word_of_nat v :: uint64) mod PGSIZE = 0" by (simp add: word_unat_eq_iff unat_mod)
  moreover have "unat (word_of_nat n :: uint64) = n" using assms(3) by simp
  moreover have "(4096 * word_of_nat v + word_of_nat n * PGSIZE :: uint64) = 4096 * word_of_nat (v + n)"
    by (simp add: algebra_simps)
  ultimately have "uvmunmap r (4096 * word_of_nat v) (word_of_nat n) True s =
      uvmunmap_loop (n + 1) r (4096 * word_of_nat v) (4096 * word_of_nat (v + n)) True s"
    by (simp add: uvmunmap_def mult.commute del: uvmunmap_loop.simps)
  then show ?thesis using uvmunmap_loop_ok[OF assms(1-3) _ assms(4), of "n + 1"] by (simp del: uvmunmap_loop.simps)
qed

subsection \<open>uvmdealloc and uvmalloc\<close>

text \<open>The number of pages that \<open>sz\<close> bytes take.\<close>

definition upages :: "uint64 \<Rightarrow> nat" where
  "upages sz = (unat sz + 4095) div 4096"

lemma PGROUNDUP_upages: "unat sz \<le> 2 ^ 38 \<Longrightarrow> PGROUNDUP sz = 4096 * word_of_nat (upages sz)"
  by (simp add: PGROUNDUP_eq PGROUNDDOWN_vpn vpn_def upages_def unat_word_ariths)

lemma upages_mono: "a \<le> b \<Longrightarrow> upages a \<le> upages b"
  by (simp add: upages_def word_le_nat_alt div_le_mono)

lemma upages_bound: "sz \<le> TRAPFRAME \<Longrightarrow> upages sz \<le> 67108862 \<and> unat sz \<le> 2 ^ 38"
proof -
  assume "sz \<le> TRAPFRAME"
  then have "unat sz \<le> 274877898752" by (simp add: word_le_nat_alt)
  then show ?thesis using div_le_mono[of "unat sz + 4095" 274877902847 4096] by (simp add: upages_def)
qed

lemma page_word_less: "v \<le> 67108864 \<Longrightarrow> w \<le> 67108864 \<Longrightarrow> (4096 * word_of_nat v :: uint64) < 4096 * word_of_nat w \<longleftrightarrow> v < w"
  by (simp add: word_less_nat_alt unat_word_ariths)

lemma page_less_size:
  assumes "unat sz \<le> 2 ^ 38" "v \<le> 67108864"
  shows "(4096 * word_of_nat v :: uint64) < sz \<longleftrightarrow> v < upages sz"
proof -
  have "unat (4096 * word_of_nat v :: uint64) = 4096 * v" using assms(2) by (simp add: unat_word_ariths)
  moreover have "4096 * v < unat sz \<longleftrightarrow> v < upages sz"
    unfolding upages_def by (auto simp: less_eq_div_iff_mult_less_eq Suc_le_eq[symmetric])
  ultimately show ?thesis by (simp add: word_less_nat_alt)
qed

lemma unmapped_refl: "space_ok s T free \<Longrightarrow> unmapped s T free s free v 0"
  by (simp add: unmapped_def space_step_refl)

lemma scast_count:
  assumes "n < 2 ^ 31"
  shows "scast (ucast (word_of_nat n :: uint64) :: cint) = (word_of_nat n :: uint64)"
proof -
  have "(ucast (word_of_nat n :: uint64) :: cint) = word_of_nat n"
    using assms by (intro word_unat_eq_iff[THEN iffD2]) (simp add: unsigned_ucast_eq unsigned_of_nat take_bit_nat_eq_self)
  then show ?thesis using sint_word_of_nat[OF assms] by (simp add: scast_eq)
qed

lemma uvmdealloc_ok:
  assumes ok: "space_ok s T free" and r: "T Root = Some r" and sz: "oldsz \<le> TRAPFRAME"
    and pr: "\<forall>w. upages newsz \<le> w \<and> w < upages oldsz \<longrightarrow> opage T (ram s) w \<noteq> None \<and> PTE_FLAGS (leaf T (ram s) w) \<noteq> PTE_V"
  shows "\<exists>t free'. uvmdealloc r oldsz newsz s = Ok (if newsz < oldsz then newsz else oldsz, t) \<and>
    unmapped s T free t free' (upages newsz) (upages oldsz - upages newsz)"
proof (cases "newsz < oldsz")
  case False
  then have "upages oldsz - upages newsz = 0" using upages_mono[of oldsz newsz] by (simp add: not_less)
  then show ?thesis using False unmapped_refl[OF ok] by (auto simp: uvmdealloc_def not_less)
next
  case True
  let ?a = "upages newsz" and ?b = "upages oldsz"
  have b: "?a \<le> ?b" "?b \<le> 67108862" "unat oldsz \<le> 2 ^ 38" "unat newsz \<le> 2 ^ 38"
    using upages_mono[OF less_imp_le[OF True]] upages_bound[OF sz] True by (simp_all add: word_less_nat_alt)
  note up = PGROUNDUP_upages[OF b(3)] PGROUNDUP_upages[OF b(4)]
  have lt: "PGROUNDUP newsz < PGROUNDUP oldsz \<longleftrightarrow> ?a < ?b" unfolding up using b by (intro page_word_less) simp_all
  show ?thesis
  proof (cases "?a < ?b")
    case False
    then show ?thesis using True lt unmapped_refl[OF ok] b(1) by (auto simp: uvmdealloc_def not_le)
  next
    case less: True
    let ?d = "(PGROUNDUP oldsz - PGROUNDUP newsz) div PGSIZE"
    have "PGROUNDUP oldsz - PGROUNDUP newsz = 4096 * word_of_nat (?b - ?a)"
      using b(1) unfolding up by (simp add: of_nat_diff algebra_simps)
    then have "unat ?d = ?b - ?a" using b(2) by (simp add: unat_div unat_word_ariths)
    then have d: "?d = word_of_nat (?b - ?a)" using b(2) by (intro word_unat_eq_iff[THEN iffD2]) simp
    have n: "scast (ucast ?d :: cint) = (word_of_nat (?b - ?a) :: uint64)"
      unfolding d by (rule scast_count) (use b(2) in simp)
    have pr': "\<forall>w. ?a \<le> w \<and> w < ?a + (?b - ?a) \<longrightarrow> opage T (ram s) w \<noteq> None \<and> PTE_FLAGS (leaf T (ram s) w) \<noteq> PTE_V"
      using pr b(1) by simp
    obtain t free' where "uvmunmap r (4096 * word_of_nat ?a) (word_of_nat (?b - ?a)) True s = Ok t" "unmapped s T free t free' ?a (?b - ?a)"
      using uvmunmap_ok[OF ok r _ pr'] b by auto
    then show ?thesis using True lt less n up(2) by (auto simp: uvmdealloc_def Let_def not_le)
  qed
qed

lemma flags_user: "e AND PTE_U \<noteq> 0 \<longleftrightarrow> bit (PTE_FLAGS e) 4"
  using and_exp_eq_0_iff_not_bit[of e 4] by (simp add: PTE_FLAGS_def bit_and_iff bit_mask_iff)

text \<open>The pages \<open>v\<close> to \<open>v + n - 1\<close> are new: page \<open>w\<close> is mapped with the flags \<open>fl w\<close> and holds \<open>bs w\<close>.\<close>

definition filled :: "kmem \<Rightarrow> ptree \<Rightarrow> kmem \<Rightarrow> ptree \<Rightarrow> nat \<Rightarrow> nat \<Rightarrow> (nat \<Rightarrow> uint64) \<Rightarrow> (nat \<Rightarrow> uchar list) \<Rightarrow> bool" where
  "filled s T t T' v n fl bs \<longleftrightarrow> kept s T t \<and> (\<forall>w. \<not> (v \<le> w \<and> w < v + n) \<longrightarrow> leaf T' (ram t) w = leaf T (ram s) w) \<and>
     (\<forall>w. v \<le> w \<and> w < v + n \<longrightarrow> PTE_FLAGS (leaf T' (ram t) w) = fl w \<and>
       (\<exists>p. opage T' (ram t) w = Some p \<and> load_bytes (ram t) p PGBYTES = bs w))"

lemma filled_0: "filled s T s T v 0 fl bs"
  by (auto simp: filled_def kept_def)

lemma filled_step:
  assumes a: "page_added s T t1 T1 v pte (bs v)" "PTE_FLAGS pte = fl v" "leaf T (ram s) v = 0"
    and z: "filled t1 T1 t T' (Suc v) n fl bs"
  shows "filled s T t T' v (Suc n) fl bs"
proof -
  have lf: "leaf T1 (ram t1) = (leaf T (ram s))(v := pte)" and k1: "kept s T t1" and k2: "kept t1 T1 t"
    and p: "opage T1 (ram t1) v = Some (PTE2PA pte)" "load_bytes (ram t1) (PTE2PA pte) PGBYTES = bs v"
    using a z unfolding page_added_def filled_def by blast+
  have out: "leaf T' (ram t) w = leaf T1 (ram t1) w" if "\<not> (Suc v \<le> w \<and> w < Suc v + n)" for w
    using z that unfolding filled_def by blast
  have op: "opage T1 (ram t1) w = Some q" if "opage T (ram s) w = Some q" for w q
  proof -
    have "w \<noteq> v" using that a(3) by (auto simp: opage_def)
    then show ?thesis using that lf opage_leaf_eq[of T1 "ram t1" w T "ram s"] by simp
  qed
  have "kept s T t" using k1 k2 op unfolding kept_def by (blast intro: same_page_trans)
  moreover have "leaf T' (ram t) w = leaf T (ram s) w" if "\<not> (v \<le> w \<and> w < v + Suc n)" for w
    using out[of w] that lf by auto
  moreover have "PTE_FLAGS (leaf T' (ram t) w) = fl w \<and> (\<exists>p. opage T' (ram t) w = Some p \<and> load_bytes (ram t) p PGBYTES = bs w)"
    if "v \<le> w \<and> w < v + Suc n" for w
  proof (cases "w = v")
    case True
    have "leaf T' (ram t) v = leaf T1 (ram t1) v" using out[of v] by simp
    moreover have "load_bytes (ram t) (PTE2PA pte) PGBYTES = bs v"
      using k2 p unfolding kept_def same_page_def by metis
    ultimately show ?thesis using True p(1) a(2) lf opage_leaf_eq[of T' "ram t" v T1 "ram t1"] by simp
  next
    case False
    then have "Suc v \<le> w \<and> w < Suc v + n" using that by simp
    then show ?thesis using z unfolding filled_def by blast
  qed
  ultimately show ?thesis unfolding filled_def by blast
qed

lemma flags_pte: "drop_bit 10 perm = 0 \<Longrightarrow> PTE_FLAGS (PA2PTE p OR perm OR PTE_V) = perm OR PTE_V"
proof -
  assume "drop_bit 10 perm = 0"
  then have "take_bit 10 perm = perm" using bits_ident[of 10 perm] by simp
  moreover have "take_bit 10 (PA2PTE p) = 0" by (simp add: PA2PTE_def take_bit_push_bit)
  moreover have "PTE_FLAGS e = take_bit 10 e" for e by (simp add: PTE_FLAGS_def take_bit_eq_mask mask_eq_exp_minus_1)
  ultimately show ?thesis by (simp add: take_bit_or)
qed

text \<open>The pages \<open>v\<close> to \<open>v' - 1\<close> are gone, and the rest is as before.\<close>

definition released :: "kmem \<Rightarrow> ptree \<Rightarrow> kmem \<Rightarrow> ptree \<Rightarrow> nat \<Rightarrow> nat \<Rightarrow> bool" where
  "released s T t T' v v' \<longleftrightarrow> leaf T' (ram t) = cleared (leaf T (ram s)) v (v' - v) \<and>
     (\<forall>w q. \<not> (v \<le> w \<and> w < v') \<longrightarrow> opage T (ram s) w = Some q \<longrightarrow> same_page q (ram s) (ram t))"

lemma upages_page: "v \<le> 67108864 \<Longrightarrow> upages (4096 * word_of_nat v) = v"
  by (simp add: upages_def unat_word_ariths)

lemma unmapped_released:
  assumes st: "space_step s T free u T' f" and k: "kept s T u" "leaf T' (ram u) = leaf T (ram s)"
    and v: "v0 \<le> v" and t: "unmapped u T' f t free' v0 (v - v0)"
  shows "space_step s T free t T' free' \<and> released s T t T' v0 v"
proof -
  have "space_step s T free t T' free'" using space_step_trans[OF st] t by (simp add: unmapped_def)
  moreover have "released s T t T' v0 v"
    unfolding released_def
  proof (intro conjI allI impI)
    show "leaf T' (ram t) = cleared (leaf T (ram s)) v0 (v - v0)" using t k(2) by (simp add: unmapped_def)
    fix w q
    assume w: "\<not> (v0 \<le> w \<and> w < v)" and q: "opage T (ram s) w = Some q"
    have "opage T' (ram u) w = Some q" using q opage_same_leaf[OF k(2)] by simp
    moreover have "\<not> (v0 \<le> w \<and> w < v0 + (v - v0))" using w v by simp
    ultimately have "same_page q (ram u) (ram t)" using t unfolding unmapped_def by blast
    moreover have "same_page q (ram s) (ram u)" using k(1) q by (simp add: kept_def)
    ultimately show "same_page q (ram s) (ram t)" by (blast intro: same_page_trans)
  qed
  ultimately show ?thesis by blast
qed

lemma dealloc_released:
  assumes st: "space_step s T free u T' f" and k: "kept s T u" "leaf T' (ram u) = leaf T (ram s)" and r: "T Root = Some r"
    and v: "v0 \<le> v" "v \<le> 67108862"
    and pr: "\<forall>w. v0 \<le> w \<and> w < v \<longrightarrow> opage T (ram s) w \<noteq> None \<and> PTE_FLAGS (leaf T (ram s) w) \<noteq> PTE_V"
  shows "\<exists>x t free'. uvmdealloc r (4096 * word_of_nat v) (4096 * word_of_nat v0) u = Ok (x, t) \<and>
    space_step s T free t T' free' \<and> released s T t T' v0 v"
proof -
  have r': "T' Root = Some r" using space_stepD(3)[OF st] r by simp
  have up: "upages (4096 * word_of_nat v) = v" "upages (4096 * word_of_nat v0) = v0" using v by (simp_all add: upages_page)
  have sz: "(4096 * word_of_nat v :: uint64) \<le> TRAPFRAME" using v by (simp add: word_le_nat_alt unat_word_ariths)
  have "\<forall>w. upages (4096 * word_of_nat v0) \<le> w \<and> w < upages (4096 * word_of_nat v) \<longrightarrow>
      opage T' (ram u) w \<noteq> None \<and> PTE_FLAGS (leaf T' (ram u) w) \<noteq> PTE_V"
    unfolding up opage_same_leaf[OF k(2)] k(2) by (rule pr)
  from uvmdealloc_ok[OF space_stepD(1)[OF st] r' sz this, unfolded up] obtain t free' where
    t: "uvmdealloc r (4096 * word_of_nat v) (4096 * word_of_nat v0) u =
          Ok (if 4096 * word_of_nat v0 < (4096 * word_of_nat v :: uint64) then 4096 * word_of_nat v0 else 4096 * word_of_nat v, t)"
      "unmapped u T' f t free' v0 (v - v0)" by blast
  from unmapped_released[OF st k v(1) t(2)] show ?thesis using t(1) by blast
qed

text \<open>
  What the loops of \<open>uvmalloc\<close> and \<open>uvmcopy\<close> do from page \<open>v\<close> on: they succeed and add \<open>n\<close> pages, or they
  run out of memory and give back the pages from \<open>v0\<close> on that they had added.
\<close>

definition grown :: "kmem \<Rightarrow> ptree \<Rightarrow> uint64 list \<Rightarrow> bool \<Rightarrow> kmem \<Rightarrow> nat \<Rightarrow> nat \<Rightarrow> nat \<Rightarrow> (nat \<Rightarrow> uint64) \<Rightarrow> (nat \<Rightarrow> uchar list) \<Rightarrow> bool" where
  "grown s T free succ t v0 v n fl bs \<longleftrightarrow> (\<exists>T' free'. space_step s T free t T' free' \<and>
     (if succ then filled s T t T' v n fl bs \<and> length free \<le> length free' + 3 * n else length free \<le> 3 * n \<and> released s T t T' v0 v))"

lemma grown_0: "space_ok s T free \<Longrightarrow> grown s T free True s v0 v 0 fl bs"
  using space_step_refl[of s T free] filled_0[of s T v fl bs]
  unfolding grown_def by (intro exI[of _ T] exI[of _ free]) simp

text \<open>One round that maps a page, followed by the rest of the loop.\<close>

lemma grown_step:
  assumes st: "space_step s T free t1 T1 f1" and a: "page_added s T t1 T1 v pte (bs v)"
    and pte: "PTE_FLAGS pte = fl v" and lf: "leaf T (ram s) v = 0" and v: "v0 \<le> v" and len: "length free \<le> length f1 + 3"
    and g: "grown t1 T1 f1 succ t v0 (Suc v) n fl bs"
  shows "grown s T free succ t v0 v (Suc n) fl bs"
proof -
  obtain T' free' where st2: "space_step t1 T1 f1 t T' free'"
    and g': "if succ then filled t1 T1 t T' (Suc v) n fl bs \<and> length f1 \<le> length free' + 3 * n
      else length f1 \<le> 3 * n \<and> released t1 T1 t T' v0 (Suc v)"
    using g unfolding grown_def by blast
  have lf1: "leaf T1 (ram t1) = (leaf T (ram s))(v := pte)" and k: "kept s T t1" using a by (simp_all add: page_added_def)
  have "released s T t T' v0 v" if rl: "released t1 T1 t T' v0 (Suc v)"
    unfolding released_def
  proof (intro conjI allI impI)
    have "leaf T' (ram t) = cleared ((leaf T (ram s))(v := pte)) v0 (Suc v - v0)" using rl lf1 by (simp add: released_def)
    also have "\<dots> = cleared (leaf T (ram s)) v0 (v - v0)" using lf v by (auto simp: cleared_def fun_eq_iff)
    finally show "leaf T' (ram t) = cleared (leaf T (ram s)) v0 (v - v0)" .
    fix w q
    assume w: "\<not> (v0 \<le> w \<and> w < v)" and q: "opage T (ram s) w = Some q"
    have "w \<noteq> v" using q lf by (auto simp: opage_def)
    then have "opage T1 (ram t1) w = Some q" "\<not> (v0 \<le> w \<and> w < Suc v)"
      using q w lf1 opage_leaf_eq[of T1 "ram t1" w T "ram s"] by auto
    then have "same_page q (ram t1) (ram t)" using rl unfolding released_def by blast
    moreover have "same_page q (ram s) (ram t1)" using k q by (simp add: kept_def)
    ultimately show "same_page q (ram s) (ram t)" by (blast intro: same_page_trans)
  qed
  moreover have len': "length free \<le> k + 3 * Suc n" if "length f1 \<le> k + 3 * n" for k using that len by simp
  ultimately have "if succ then filled s T t T' v (Suc n) fl bs \<and> length free \<le> length free' + 3 * Suc n
      else length free \<le> 3 * Suc n \<and> released s T t T' v0 v"
    using filled_step[where bs = bs and fl = fl, OF a pte lf] g' len'[of 0] by (cases succ) auto
  then show ?thesis unfolding grown_def using space_step_trans[OF st st2] by blast
qed

abbreviation uflags :: "nat \<Rightarrow> uint64" where
  "uflags \<equiv> \<lambda>_. PTE_W OR PTE_X OR PTE_R OR PTE_U OR PTE_V"

abbreviation zeros :: "nat \<Rightarrow> uchar list" where
  "zeros \<equiv> \<lambda>_. replicate PGBYTES 0"

lemma uvmalloc_loop_ok:
  assumes "space_ok s T free" "T Root = Some r" "newsz \<le> TRAPFRAME" "v0 \<le> v" "v \<le> 67108862" "n = upages newsz - v" "n < fuel"
    "\<forall>w. v0 \<le> w \<and> w < v \<longrightarrow> opage T (ram s) w \<noteq> None \<and> PTE_FLAGS (leaf T (ram s) w) \<noteq> PTE_V"
    "\<forall>w. v \<le> w \<and> w < v + n \<longrightarrow> leaf T (ram s) w = 0"
  shows "\<exists>succ t. uvmalloc_loop fuel r (4096 * word_of_nat v0) newsz (4096 * word_of_nat v) s = Ok (if succ then newsz else 0, t) \<and>
    grown s T free succ t v0 v n uflags zeros"
  using assms
proof (induction n arbitrary: v s T free fuel)
  case 0
  obtain k where k: "fuel = Suc k" using 0 by (cases fuel) auto
  moreover have "\<not> (4096 * word_of_nat v :: uint64) < newsz" using page_less_size[of newsz v] upages_bound[of newsz] 0 by simp
  ultimately show ?case using k grown_0[OF 0(1)] by (intro exI[of _ True] exI[of _ s]) simp
next
  case (Suc n)
  note ok = Suc.prems(1) and r = Suc.prems(2) and pr = Suc.prems(8)
  let ?va = "4096 * word_of_nat v :: uint64" and ?v0 = "4096 * word_of_nat v0 :: uint64"
  have b: "upages newsz \<le> 67108862" "unat newsz \<le> 2 ^ 38" using upages_bound[OF Suc.prems(3)] by simp_all
  obtain k where k: "fuel = Suc k" "n < k" using Suc.prems(7) by (cases fuel) auto
  have lt: "?va < newsz" "v < 67108862" using page_less_size[OF b(2)] Suc.prems(5,6) b(1) by simp_all
  have lf: "leaf T (ram s) v = 0" using Suc.prems(9) by simp
  show ?case
  proof (cases free)
    case Nil
    have "kalloc s = (0, s)" using kalloc_empty vm_invD(1)[OF space_ownD(1)[OF ok]] Nil by simp
    moreover obtain x t free' where "uvmdealloc r ?va ?v0 s = Ok (x, t)" "space_step s T free t T free'" "released s T t T v0 v"
      using dealloc_released[OF space_step_refl[OF ok] _ _ r Suc.prems(4,5) pr] by (auto simp: kept_def)
    ultimately show ?thesis using k lt Nil unfolding grown_def by (intro exI[of _ False] exI[of _ t]) auto
  next
    case (Cons pg rest)
    let ?perm = "PTE_W OR PTE_X OR PTE_R OR PTE_U :: uint64"
    have ok': "space_ok s T (pg # rest)" using ok Cons by simp
    obtain s1 where s1: "kalloc s = (pg, s1)" "pg \<noteq> 0" by (rule space_kalloc[OF ok']) (rule that)
    have fill: "memset pg 0 4096 (ram s1) = store_bytes pg (replicate PGBYTES 0) (ram s1)" by (simp add: memset_bytes)
    obtain res t T' free' where m: "mappages r ?va PGSIZE pg ?perm (s1\<lparr>ram := store_bytes pg (replicate PGBYTES 0) (ram s1)\<rparr>) = Ok (res, t)"
      "res = 0 \<and> space_step s T (pg # rest) t T' free' \<and> page_added s T t T' v (PA2PTE pg OR ?perm OR PTE_V) (replicate PGBYTES 0) \<or>
       res = - 1 \<and> free' = [] \<and> (\<exists>u. kfree pg t = Ok u \<and> space_step s T (pg # rest) u T' (pg # free') \<and> kept s T u \<and>
         leaf T' (ram u) = leaf T (ram s))" "length rest \<le> length free' + 2"
      by (rule add_page[OF ok' r lt(2) _ _ s1(1), where perm = ?perm and bs = "replicate PGBYTES 0"]) (use lf that in simp_all)
    have run: "uvmalloc_loop fuel r ?v0 newsz ?va s =
        (if res \<noteq> 0 then kbind (kfree pg t) (\<lambda>s4. kbind (uvmdealloc r ?va ?v0 s4) (\<lambda>(_, s5). Ok (0, s5)))
         else uvmalloc_loop k r ?v0 newsz (?va + PGSIZE) t)"
      using k lt s1 m(1) fill by (simp add: Let_def)
    show ?thesis
    proof (cases "res = 0")
      case False
      then obtain u where u: "kfree pg t = Ok u" "space_step s T free u T' [pg]" "kept s T u" "leaf T' (ram u) = leaf T (ram s)"
        "free' = []" using m(2) Cons by auto
      obtain x t2 f2 where "uvmdealloc r ?va ?v0 u = Ok (x, t2)" "space_step s T free t2 T' f2" "released s T t2 T' v0 v"
        using dealloc_released[OF u(2,3,4) r Suc.prems(4,5) pr] by blast
      moreover have "length free \<le> 3 * Suc n" using m(3) u(5) Cons by simp
      ultimately show ?thesis using run False u(1) unfolding grown_def by (intro exI[of _ False] exI[of _ t2]) auto
    next
      case True
      have st: "space_step s T free t T' free'" and a: "page_added s T t T' v (PA2PTE pg OR ?perm OR PTE_V) (replicate PGBYTES 0)"
        using m(2) True Cons by auto
      have U: "PTE_FLAGS (PA2PTE pg OR ?perm OR PTE_V) = uflags v" using flags_pte[of ?perm pg] by simp
      have lf1: "leaf T' (ram t) = (leaf T (ram s))(v := PA2PTE pg OR ?perm OR PTE_V)" "opage T' (ram t) v \<noteq> None"
        using a by (simp_all add: page_added_def)
      have pr1: "\<forall>w. v0 \<le> w \<and> w < Suc v \<longrightarrow> opage T' (ram t) w \<noteq> None \<and> PTE_FLAGS (leaf T' (ram t) w) \<noteq> PTE_V"
      proof (intro allI impI)
        fix w
        assume w: "v0 \<le> w \<and> w < Suc v"
        show "opage T' (ram t) w \<noteq> None \<and> PTE_FLAGS (leaf T' (ram t) w) \<noteq> PTE_V"
        proof (cases "w = v")
          case True
          then show ?thesis using lf1 U by simp
        next
          case False
          then have "leaf T' (ram t) w = leaf T (ram s) w" using lf1(1) by simp
          then show ?thesis using pr[rule_format, of w] w False opage_leaf_eq[of T' "ram t" w T "ram s"] by simp
        qed
      qed
      have un: "\<forall>w. Suc v \<le> w \<and> w < Suc v + n \<longrightarrow> leaf T' (ram t) w = 0"
        using Suc.prems(9) by (simp add: lf1(1))
      have args: "v0 \<le> Suc v" "Suc v \<le> 67108862" "n = upages newsz - Suc v" "T' Root = Some r"
        using Suc.prems(4,6) lt(2) r space_stepD(3)[OF st] by simp_all
      obtain succ t2 where t2: "uvmalloc_loop k r ?v0 newsz (4096 * word_of_nat (Suc v)) t = Ok (if succ then newsz else 0, t2)"
        "grown t T' free' succ t2 v0 (Suc v) n uflags zeros"
        using Suc.IH[OF space_stepD(1)[OF st] args(4) Suc.prems(3) args(1-3) k(2) pr1 un] by blast
      have "length free \<le> length free' + 3" using m(3) Cons by simp
      from grown_step[where bs = zeros and fl = uflags, OF st a U lf Suc.prems(4) this t2(2)]
      show ?thesis using run True t2(1) by (intro exI[of _ succ] exI[of _ t2]) (simp add: algebra_simps)
    qed
  qed
qed

lemma upage_leaf_eq: "leaf T' m' v = leaf T m v \<Longrightarrow> upage T' m' v = upage T m v"
  by (simp add: upage_def)

lemma ubyte_zeroed:
  assumes z: "filled s T t T' v n uflags zeros"
  shows "ubyte T' (ram t) = (\<lambda>a. if v \<le> a div 4096 \<and> a div 4096 < v + n then Some 0 else ubyte T (ram s) a)"
proof
  fix a :: nat
  let ?w = "a div 4096"
  show "ubyte T' (ram t) a = (if v \<le> ?w \<and> ?w < v + n then Some 0 else ubyte T (ram s) a)"
  proof (cases "v \<le> ?w \<and> ?w < v + n")
    case True
    then obtain p where p: "PTE_FLAGS (leaf T' (ram t) ?w) = uflags ?w" "opage T' (ram t) ?w = Some p"
      "load_bytes (ram t) p PGBYTES = replicate PGBYTES 0" using z unfolding filled_def by blast
    have "upage T' (ram t) ?w = Some p" using flags_user[of "leaf T' (ram t) ?w"] p(1) opage_leaf[OF p(2)] by (simp add: upage_def Let_def)
    moreover have "ram t (p + word_of_nat (a mod 4096)) = 0"
      using load_bytes_nth[of "a mod 4096" PGBYTES "ram t" p] unfolding p(3) by simp
    ultimately show ?thesis using True by (simp add: ubyte_def)
  next
    case False
    then have lf: "leaf T' (ram t) ?w = leaf T (ram s) ?w" and k: "kept s T t" using z unfolding filled_def by blast+
    show ?thesis unfolding if_not_P[OF False] by (rule ubyte_same_pages) (use upage_leaf_eq[OF lf] kept_upage[OF k] in simp_all)
  qed
qed

lemma alloc_fuel:
  assumes "unat newsz \<le> 2 ^ 38" "unat oldsz \<le> 2 ^ 38"
  shows "upages newsz - upages oldsz < unat (newsz - 4096 * word_of_nat (upages oldsz)) div PGBYTES + 2"
proof (cases "4096 * upages oldsz \<le> unat newsz")
  case True
  have "upages oldsz \<le> 67108865" using assms(2) div_le_mono[of "unat oldsz + 4095" 274877911039 4096] by (simp add: upages_def)
  then have u: "unat (4096 * word_of_nat (upages oldsz) :: uint64) = 4096 * upages oldsz" by (simp add: unat_word_ariths)
  then have "unat (newsz - 4096 * word_of_nat (upages oldsz)) = unat newsz - 4096 * upages oldsz"
    using True by (subst unat_sub) (simp_all add: word_le_nat_alt)
  moreover obtain k where k: "unat newsz = k + 4096 * upages oldsz" using True by (metis le_add_diff_inverse2)
  moreover have "upages newsz = (k + 4095) div 4096 + upages oldsz"
    using div_mult_self4[of 4096 "upages oldsz" "k + 4095"] by (simp add: upages_def[of newsz] k algebra_simps)
  moreover have "(k + 4095) div 4096 < k div 4096 + 2" using div_le_mono[of "k + 4095" "k + 4096" 4096] by simp
  ultimately show ?thesis by simp
next
  case False
  then have "unat newsz + 4095 < 4096 * (upages oldsz + 1)" by simp
  then have "upages newsz \<le> upages oldsz" unfolding upages_def[of newsz] using less_mult_imp_div_less by fastforce
  then show ?thesis by simp
qed

lemma uvmalloc_ok:
  assumes ok: "space_ok s T free" and r: "T Root = Some r" and sz: "oldsz \<le> newsz" "newsz \<le> TRAPFRAME"
    and un: "\<forall>w. upages oldsz \<le> w \<and> w < upages newsz \<longrightarrow> leaf T (ram s) w = 0"
  shows "\<exists>res t T' free'. uvmalloc r oldsz newsz s = Ok (res, t) \<and> space_step s T free t T' free' \<and>
    (res = newsz \<and> filled s T t T' (upages oldsz) (upages newsz - upages oldsz) uflags zeros \<and>
       length free \<le> length free' + 3 * (upages newsz - upages oldsz) \<or>
     res = 0 \<and> length free \<le> 3 * (upages newsz - upages oldsz) \<and> leaf T' (ram t) = leaf T (ram s) \<and> kept s T t)"
proof -
  let ?v = "upages oldsz" and ?n = "upages newsz - upages oldsz"
  have old: "oldsz \<le> TRAPFRAME" using sz by (rule order_trans)
  have b: "?v \<le> 67108862" "unat oldsz \<le> 2 ^ 38" "unat newsz \<le> 2 ^ 38" using upages_bound[OF old] upages_bound[OF sz(2)] by simp_all
  have un': "\<forall>w. ?v \<le> w \<and> w < ?v + ?n \<longrightarrow> leaf T (ram s) w = 0" using un upages_mono[OF sz(1)] by simp
  have none: "\<forall>w. ?v \<le> w \<and> w < ?v \<longrightarrow> opage T (ram s) w \<noteq> None \<and> PTE_FLAGS (leaf T (ram s) w) \<noteq> PTE_V" by auto
  have "uvmalloc r oldsz newsz s = uvmalloc_loop (unat (newsz - 4096 * word_of_nat ?v) div PGBYTES + 2) r
      (4096 * word_of_nat ?v) newsz (4096 * word_of_nat ?v) s"
    unfolding uvmalloc_def Let_def PGROUNDUP_upages[OF b(2)] using leD[OF sz(1)] by (simp only: if_False)
  then obtain succ t where l: "uvmalloc r oldsz newsz s = Ok (if succ then newsz else 0, t)" "grown s T free succ t ?v ?v ?n uflags zeros"
    using uvmalloc_loop_ok[OF ok r sz(2) order_refl b(1) refl alloc_fuel[OF b(3,2)] none un'] by metis
  from l(2) obtain T' free' where g: "space_step s T free t T' free'"
    "if succ then filled s T t T' ?v ?n uflags zeros \<and> length free \<le> length free' + 3 * ?n
     else length free \<le> 3 * ?n \<and> released s T t T' ?v ?v"
    unfolding grown_def by blast
  have "leaf T' (ram t) = leaf T (ram s) \<and> kept s T t" if "released s T t T' ?v ?v"
    using that by (auto simp: released_def kept_def)
  then show ?thesis using l(1) g by (cases succ) fastforce+
qed

subsection \<open>An address space after boot\<close>

lemma example_space:
  "\<exists>s T free r. space_ok s T free \<and> T Root = Some r \<and> (\<forall>w. leaf T (ram s) w = 0) \<and> 21 \<le> length free"
proof -
  from kinit_ok[of example_kmem] obtain s ps where
    s: "kmem_inv s ps" "set ps = {q. aligned q \<and> 0x80001000 \<le> q \<and> q < PHYSTOP}"
    by (auto simp: example_kmem_def)
  let ?P = "{0x80001000, 0x80002000, 0x80003000, 0x80004000, 0x80005000, 0x80006000, 0x80007000, 0x80008000, 0x80009000, 0x8000a000, 0x8000b000, 0x8000c000, 0x8000d000, 0x8000e000, 0x8000f000, 0x80010000, 0x80011000, 0x80012000, 0x80013000, 0x80014000, 0x80015000, 0x80016000} :: uint64 set"
  have "?P \<subseteq> set ps" unfolding s(2) by (simp add: aligned_def)
  then have "card ?P \<le> card (set ps)" by (intro card_mono) simp_all
  then have l: "22 \<le> length ps" using card_length[of ps] by simp
  then obtain pg free where ps: "ps = pg # free" by (cases ps) auto
  then have "kmem_inv s (pg # free)" using s(1) by simp
  from uvmcreate_ok[OF this] obtain t where t: "vm_inv t [Root \<mapsto> pg] free" "leaf [Root \<mapsto> pg] (ram t) = (\<lambda>_. 0)" by blast
  have "opage [Root \<mapsto> pg] (ram t) w = None" for w by (simp add: opage_def t(2))
  then have "space_ok t [Root \<mapsto> pg] free" using t(1) by (simp add: space_ok_def)
  then show ?thesis using t(2) l ps by (intro exI[of _ t] exI[of _ "[Root \<mapsto> pg]"] exI[of _ free] exI[of _ pg]) simp
qed

end
