(* ===== verification/Xv6_Uvmcopy.thy ===== *)
theory Xv6_Uvmcopy
  imports Xv6_Uvm
begin

section \<open>Copying an address space, and the properties of user memory\<close>

text \<open>
  \<open>uvmcopy\<close> works on two address spaces that share the allocator. \<open>apart\<close> says that the one uses no
  page of the other; the steps of one then leave the other alone. The properties of the virtual
  memory are at the end.
\<close>

subsection \<open>Two address spaces\<close>

definition apart :: "kmem \<Rightarrow> ptree \<Rightarrow> ptree \<Rightarrow> uint64 list \<Rightarrow> bool" where
  "apart s P T free \<longleftrightarrow> (\<forall>n p. P n = Some p \<longrightarrow> own_page s T free p) \<and>
     (\<forall>v p. opage P (ram s) v = Some p \<longrightarrow> own_page s T free p)"

lemma apart_step:
  assumes ap: "apart s P T free" and ok: "space_ok s P free" and st: "space_step s T free t T' free'"
  shows "space_ok t P free'" "leaf P (ram t) = leaf P (ram s)" "kept s P t" "apart t P T' free'"
proof -
  have own: "own_page t T' free' p \<and> same_page p (ram s) (ram t)" if "own_page s T free p" for p
    using that space_step_own[OF st] space_stepD(5)[OF st that] by simp
  have T: "same_page p (ram s) (ram t) \<and> p \<notin> set free'" if "P n = Some p" for n p
    using own[of p] that ap unfolding apart_def own_page_def by blast
  have o: "p \<notin> set free'" if "opage P (ram s) v = Some p" for v p
    using own[of p] that ap unfolding apart_def own_page_def by blast
  have k: "kmem_inv t free'" by (rule vm_invD(1)[OF space_ownD(1)[OF space_stepD(1)[OF st]]])
  note sp = space_same[OF ok space_stepD(2)[OF st] k T o]
  show "space_ok t P free'" by (rule sp(1))
  show lf: "leaf P (ram t) = leaf P (ram s)" by (rule sp(2))
  show "kept s P t" using own ap unfolding kept_def apart_def by blast
  show "apart t P T' free'" using own ap unfolding apart_def opage_same_leaf[OF lf] by blast
qed

subsection \<open>uvmcopy\<close>

lemma page_end: "page_ok s p \<Longrightarrow> unat p + 4096 < 2 ^ 64"
  by (simp add: page_ok_def word_less_nat_alt)

lemma drop_bit_flags: "drop_bit 10 (PTE_FLAGS e) = 0"
  by (intro bit_word_eqI) (auto simp: PTE_FLAGS_def bit_simps bit_mask_iff)

lemma flags_valid: "e AND PTE_V \<noteq> 0 \<Longrightarrow> PTE_FLAGS e OR PTE_V = PTE_FLAGS e"
proof -
  assume "e AND PTE_V \<noteq> 0"
  then have "bit e 0" using and_exp_eq_0_iff_not_bit[of e 0] by simp
  then show ?thesis by (intro bit_word_eqI) (auto simp: PTE_FLAGS_def bit_simps)
qed

text \<open>The error exit gives back the pages that the copy had got.\<close>

lemma uvmcopy_err_ok:
  assumes st: "space_step s T free u T' f" and k: "kept s T u" "leaf T' (ram u) = leaf T (ram s)" and r: "T Root = Some r"
    and v: "v \<le> 67108862"
    and pr: "\<forall>w. w < v \<longrightarrow> opage T (ram s) w \<noteq> None \<and> PTE_FLAGS (leaf T (ram s) w) \<noteq> PTE_V"
  shows "\<exists>t free'. uvmcopy_err r (4096 * word_of_nat v) u = Ok (- 1, t) \<and>
    space_step s T free t T' free' \<and> released s T t T' 0 v"
proof -
  have r': "T' Root = Some r" using space_stepD(3)[OF st] r by simp
  have "unat ((4096 * word_of_nat v :: uint64) div PGSIZE) = v" using v by (simp add: unat_div unat_word_ariths)
  then have d: "(4096 * word_of_nat v :: uint64) div PGSIZE = word_of_nat v"
    using v by (intro word_unat_eq_iff[THEN iffD2]) simp
  have "\<forall>w. 0 \<le> w \<and> w < 0 + v \<longrightarrow> opage T' (ram u) w \<noteq> None \<and> PTE_FLAGS (leaf T' (ram u) w) \<noteq> PTE_V"
    unfolding opage_same_leaf[OF k(2)] k(2) using pr by simp
  from uvmunmap_ok[OF space_stepD(1)[OF st] r' _ this] obtain t free' where
    t: "uvmunmap r 0 (word_of_nat v) True u = Ok t" "unmapped u T' f t free' 0 v" using v by auto
  from unmapped_released[OF st k, of 0 v t free'] t d show ?thesis by (auto simp: uvmcopy_err_def)
qed

lemma uvmcopy_loop_ok:
  assumes "space_ok s T free" "T Root = Some r" "space_ok s P free" "P Root = Some pr" "apart s P T free"
    "sz \<le> TRAPFRAME" "v \<le> 67108862" "n = upages sz - v" "n < fuel"
    "\<forall>w. w < v \<longrightarrow> opage T (ram s) w \<noteq> None \<and> PTE_FLAGS (leaf T (ram s) w) \<noteq> PTE_V"
    "\<forall>w. v \<le> w \<and> w < v + n \<longrightarrow> leaf T (ram s) w = 0 \<and> (\<exists>p. opage P (ram s) w = Some p \<and> bs w = load_bytes (ram s) p PGBYTES) \<and>
       fl w = PTE_FLAGS (leaf P (ram s) w) \<and> fl w \<noteq> PTE_V"
  shows "\<exists>succ t. uvmcopy_loop fuel pr r sz (4096 * word_of_nat v) s = Ok (if succ then 0 else - 1, t) \<and>
    grown s T free succ t 0 v n fl bs"
  using assms
proof (induction n arbitrary: v s T free fuel)
  case 0
  obtain k where k: "fuel = Suc k" using 0 by (cases fuel) auto
  moreover have "\<not> (4096 * word_of_nat v :: uint64) < sz" using page_less_size[of sz v] upages_bound[of sz] 0 by simp
  ultimately show ?case using k grown_0[OF 0(1)] by (intro exI[of _ True] exI[of _ s]) simp
next
  case (Suc n)
  note ok = Suc.prems(1) and r = Suc.prems(2) and okP = Suc.prems(3) and rP = Suc.prems(4) and ap = Suc.prems(5)
    and mapped = Suc.prems(10) and todo = Suc.prems(11)
  let ?va = "4096 * word_of_nat v :: uint64"
  have b: "upages sz \<le> 67108862" "unat sz \<le> 2 ^ 38" using upages_bound[OF Suc.prems(6)] by simp_all
  obtain k where k: "fuel = Suc k" "n < k" using Suc.prems(9) by (cases fuel) auto
  have lt: "?va < sz" "v < 67108862" using page_less_size[OF b(2)] Suc.prems(7,8) b(1) by simp_all
  have "v \<le> v \<and> v < v + Suc n" by simp
  then have lf: "leaf T (ram s) v = 0" and fl: "fl v = PTE_FLAGS (leaf P (ram s) v)" "fl v \<noteq> PTE_V"
    and "\<exists>p. opage P (ram s) v = Some p \<and> bs v = load_bytes (ram s) p PGBYTES" using todo by blast+
  then obtain p where p: "opage P (ram s) v = Some p" "bs v = load_bytes (ram s) p PGBYTES" by blast
  let ?e = "leaf P (ram s) v"
  note e = opage_leaf[OF p(1)]
  obtain l where l: "P (Low (v div 512)) = Some l" using leaf_table[of P "ram s" v] e(2) by (cases "?e = 0") auto
  have v64: "vpn ?va = v" "?va < MAXVA" using vpn_word[OF e(1)] by simp_all
  have w: "walk pr ?va False s = Ok (slot P v, s)" "slot P v \<noteq> 0" "load64 (ram s) (slot P v) = ?e"
    using walk_lookup[OF space_ownD(1)[OF okP] v64(2) rP] v64(1) slot_nonzero[OF space_ownD(1)[OF okP], of v] l
      leaf_slot[of P v l "ram s", OF l] by simp_all
  show ?case
  proof (cases free)
    case Nil
    have "kalloc s = (0, s)" using kalloc_empty vm_invD(1)[OF space_ownD(1)[OF ok]] Nil by simp
    moreover obtain t free' where "uvmcopy_err r ?va s = Ok (- 1, t)" "space_step s T free t T free'" "released s T t T 0 v"
      using uvmcopy_err_ok[OF space_step_refl[OF ok] _ _ r Suc.prems(7) mapped] by (auto simp: kept_def)
    ultimately show ?thesis using k lt w e Nil unfolding grown_def by (intro exI[of _ False] exI[of _ t]) (auto simp: Let_def)
  next
    case (Cons pg rest)
    have ok': "space_ok s T (pg # rest)" using ok Cons by simp
    obtain s1 where s1: "kalloc s = (pg, s1)" "pg \<noteq> 0" "own_page s1 T rest pg" "\<And>q. aligned q \<Longrightarrow> q \<noteq> pg \<Longrightarrow> same_page q (ram s) (ram s1)"
      by (rule space_kalloc[OF ok']) (rule that)
    have pok: "page_ok s p" "p \<noteq> pg" using space_ownD(2,3)[OF okP p(1)] Cons by auto
    have "load_bytes (ram s1) p PGBYTES = bs v" using s1(4)[OF page_ok_aligned[OF pok(1)] pok(2)] p(2) by (simp add: same_page_def)
    then have fill: "memmove pg p 4096 (ram s1) = store_bytes pg (bs v) (ram s1)"
      using memmove_bytes[of p 4096 pg "ram s1"] page_end[OF pok(1)] page_end[OF own_pageD(1)[OF s1(3)]] by simp
    have lv: "leaf T (ram s) v AND PTE_V = 0" "length (bs v) = PGBYTES" using lf p(2) by simp_all
    obtain res t T' free' where m: "mappages r ?va PGSIZE pg (PTE_FLAGS ?e) (s1\<lparr>ram := store_bytes pg (bs v) (ram s1)\<rparr>) = Ok (res, t)"
      "res = 0 \<and> space_step s T (pg # rest) t T' free' \<and> page_added s T t T' v (PA2PTE pg OR PTE_FLAGS ?e OR PTE_V) (bs v) \<or>
       res = - 1 \<and> free' = [] \<and> (\<exists>u. kfree pg t = Ok u \<and> space_step s T (pg # rest) u T' (pg # free') \<and> kept s T u \<and>
         leaf T' (ram u) = leaf T (ram s))" "length rest \<le> length free' + 2"
      by (rule add_page[OF ok' r lt(2) lv(1) drop_bit_flags[of ?e] s1(1) lv(2)]) (rule that)
    have run: "uvmcopy_loop fuel pr r sz ?va s =
        (if res \<noteq> 0 then kbind (kfree pg t) (uvmcopy_err r ?va) else uvmcopy_loop k pr r sz (?va + PGSIZE) t)"
      using k lt w e s1(1,2) m(1) fill by (simp add: Let_def)
    show ?thesis
    proof (cases "res = 0")
      case False
      then obtain u where u: "kfree pg t = Ok u" "space_step s T free u T' [pg]" "kept s T u" "leaf T' (ram u) = leaf T (ram s)"
        "free' = []" using m(2) Cons by auto
      obtain t2 f2 where "uvmcopy_err r ?va u = Ok (- 1, t2)" "space_step s T free t2 T' f2" "released s T t2 T' 0 v"
        using uvmcopy_err_ok[OF u(2,3,4) r Suc.prems(7) mapped] by blast
      moreover have "length free \<le> 3 * Suc n" using m(3) u(5) Cons by simp
      ultimately show ?thesis using run False u(1) unfolding grown_def by (intro exI[of _ False] exI[of _ t2]) auto
    next
      case True
      let ?pte = "PA2PTE pg OR PTE_FLAGS ?e OR PTE_V"
      have st: "space_step s T free t T' free'" and a: "page_added s T t T' v ?pte (bs v)" using m(2) True Cons by auto
      have F: "PTE_FLAGS ?pte = fl v" unfolding fl(1) by (rule trans[OF flags_pte[OF drop_bit_flags] flags_valid[OF e(2)]])
      have lf1: "leaf T' (ram t) = (leaf T (ram s))(v := ?pte)" "opage T' (ram t) v \<noteq> None"
        using a by (simp_all add: page_added_def)
      note aps = apart_step[OF ap okP st]
      have pr1: "\<forall>w. w < Suc v \<longrightarrow> opage T' (ram t) w \<noteq> None \<and> PTE_FLAGS (leaf T' (ram t) w) \<noteq> PTE_V"
      proof (intro allI impI)
        fix w
        assume "w < Suc v"
        then consider "w = v" | "w < v" by linarith
        then show "opage T' (ram t) w \<noteq> None \<and> PTE_FLAGS (leaf T' (ram t) w) \<noteq> PTE_V"
        proof cases
          case 2
          then have "leaf T' (ram t) w = leaf T (ram s) w" using lf1(1) by simp
          then show ?thesis using mapped 2 opage_leaf_eq[of T' "ram t" w T "ram s"] by simp
        qed (use lf1 F fl in simp)
      qed
      have todo1: "\<forall>w. Suc v \<le> w \<and> w < Suc v + n \<longrightarrow> leaf T' (ram t) w = 0 \<and>
          (\<exists>p. opage P (ram t) w = Some p \<and> bs w = load_bytes (ram t) p PGBYTES) \<and> fl w = PTE_FLAGS (leaf P (ram t) w) \<and> fl w \<noteq> PTE_V"
        unfolding aps(2) opage_same_leaf[OF aps(2)]
      proof (intro allI impI)
        fix w
        assume w: "Suc v \<le> w \<and> w < Suc v + n"
        then have "v \<le> w \<and> w < v + Suc n" "w \<noteq> v" by auto
        then have "leaf T (ram s) w = 0" "fl w = PTE_FLAGS (leaf P (ram s) w)" "fl w \<noteq> PTE_V"
          "\<exists>p. opage P (ram s) w = Some p \<and> bs w = load_bytes (ram s) p PGBYTES" using todo by blast+
        moreover have "load_bytes (ram t) p PGBYTES = load_bytes (ram s) p PGBYTES" if "opage P (ram s) w = Some p" for p
          using aps(3) that by (simp add: kept_def same_page_def)
        ultimately show "leaf T' (ram t) w = 0 \<and> (\<exists>p. opage P (ram s) w = Some p \<and> bs w = load_bytes (ram t) p PGBYTES) \<and>
            fl w = PTE_FLAGS (leaf P (ram s) w) \<and> fl w \<noteq> PTE_V" using lf1(1) \<open>w \<noteq> v\<close> by auto
      qed
      have args: "Suc v \<le> 67108862" "n = upages sz - Suc v" "T' Root = Some r"
        using Suc.prems(8) lt(2) r space_stepD(3)[OF st] by simp_all
      obtain succ t2 where t2: "uvmcopy_loop k pr r sz (4096 * word_of_nat (Suc v)) t = Ok (if succ then 0 else - 1, t2)"
        "grown t T' free' succ t2 0 (Suc v) n fl bs"
        using Suc.IH[OF space_stepD(1)[OF st] args(3) aps(1) rP aps(4) Suc.prems(6) args(1,2) k(2) pr1 todo1] by blast
      have "length free \<le> length free' + 3" using m(3) Cons by simp
      from grown_step[where bs = bs and fl = fl, OF st a F lf _ this t2(2)]
      show ?thesis using run True t2(1) by (intro exI[of _ succ] exI[of _ t2]) (simp add: algebra_simps)
    qed
  qed
qed

lemma ubyte_filled_copy:
  assumes z: "filled s T t T' 0 n (\<lambda>w. PTE_FLAGS (leaf P (ram s) w)) bs"
    and bs: "\<And>w. w < n \<Longrightarrow> \<exists>p. opage P (ram s) w = Some p \<and> bs w = load_bytes (ram s) p PGBYTES"
  shows "ubyte T' (ram t) a = (if a div 4096 < n then ubyte P (ram s) a else ubyte T (ram s) a)"
proof (cases "a div 4096 < n")
  case False
  then have lf: "leaf T' (ram t) (a div 4096) = leaf T (ram s) (a div 4096)" and k: "kept s T t" using z unfolding filled_def by simp_all
  show ?thesis unfolding if_not_P[OF False] by (rule ubyte_same_pages) (use upage_leaf_eq[OF lf] kept_upage[OF k] in simp_all)
next
  case True
  let ?w = "a div 4096"
  have "0 \<le> ?w \<and> ?w < 0 + n" using True by simp
  then have f: "PTE_FLAGS (leaf T' (ram t) ?w) = PTE_FLAGS (leaf P (ram s) ?w)"
    and "\<exists>q. opage T' (ram t) ?w = Some q \<and> load_bytes (ram t) q PGBYTES = bs ?w" using z unfolding filled_def by blast+
  then obtain q where q: "opage T' (ram t) ?w = Some q" "load_bytes (ram t) q PGBYTES = bs ?w" by blast
  obtain p where p: "opage P (ram s) ?w = Some p" "bs ?w = load_bytes (ram s) p PGBYTES" using bs[OF True] by blast
  have "upage T' (ram t) ?w = (if bit (PTE_FLAGS (leaf P (ram s) ?w)) 4 then Some q else None)"
    "upage P (ram s) ?w = (if bit (PTE_FLAGS (leaf P (ram s) ?w)) 4 then Some p else None)"
    using flags_user[of "leaf T' (ram t) ?w"] flags_user[of "leaf P (ram s) ?w"] f opage_leaf[OF q(1)] opage_leaf[OF p(1)]
    by (simp_all add: upage_def Let_def)
  moreover have "ram t (q + word_of_nat (a mod 4096)) = ram s (p + word_of_nat (a mod 4096))"
    using load_bytes_nth[of "a mod 4096" PGBYTES "ram t" q] load_bytes_nth[of "a mod 4096" PGBYTES "ram s" p] q(2) p(2) by simp
  ultimately show ?thesis using True by (simp add: ubyte_def)
qed

lemma uvmcopy_ok:
  assumes ok: "space_ok s T free" "T Root = Some r" "space_ok s P free" "P Root = Some pr" and ap: "apart s P T free"
    and sz: "sz \<le> TRAPFRAME" and child: "\<forall>w<upages sz. leaf T (ram s) w = 0"
    and parent: "\<forall>w<upages sz. opage P (ram s) w \<noteq> None \<and> PTE_FLAGS (leaf P (ram s) w) \<noteq> PTE_V"
  shows "\<exists>res t T' free'. uvmcopy pr r sz s = Ok (res, t) \<and> space_step s T free t T' free' \<and>
    space_ok t P free' \<and> apart t P T' free' \<and> ubyte P (ram t) = ubyte P (ram s) \<and>
    (res = 0 \<and> (\<forall>a. ubyte T' (ram t) a = (if a div 4096 < upages sz then ubyte P (ram s) a else ubyte T (ram s) a)) \<or>
     res = - 1 \<and> length free \<le> 3 * upages sz \<and> leaf T' (ram t) = leaf T (ram s))"
proof -
  let ?n = "upages sz" and ?fl = "\<lambda>w. PTE_FLAGS (leaf P (ram s) w)" and ?bs = "\<lambda>w. load_bytes (ram s) (the (opage P (ram s) w)) PGBYTES"
  have b: "?n \<le> 67108862" "unat sz \<le> 2 ^ 38" using upages_bound[OF sz] by simp_all
  have fuel: "?n < unat sz div PGBYTES + 2"
    using div_le_mono[of "unat sz + 4095" "unat sz + 4096" 4096] by (simp add: upages_def)
  have bs: "\<exists>p. opage P (ram s) w = Some p \<and> ?bs w = load_bytes (ram s) p PGBYTES" if "w < ?n" for w
    using parent that by auto
  have todo: "\<forall>w. 0 \<le> w \<and> w < 0 + ?n \<longrightarrow> leaf T (ram s) w = 0 \<and> (\<exists>p. opage P (ram s) w = Some p \<and> ?bs w = load_bytes (ram s) p PGBYTES) \<and>
       ?fl w = PTE_FLAGS (leaf P (ram s) w) \<and> ?fl w \<noteq> PTE_V" using child parent bs by simp
  obtain succ t where l: "uvmcopy pr r sz s = Ok (if succ then 0 else - 1, t)" "grown s T free succ t 0 0 ?n ?fl ?bs"
    using uvmcopy_loop_ok[OF ok ap sz _ _ fuel _ todo] by (auto simp: uvmcopy_def simp del: uvmcopy_loop.simps)
  from l(2) obtain T' free' where g: "space_step s T free t T' free'"
    "if succ then filled s T t T' 0 ?n ?fl ?bs \<and> length free \<le> length free' + 3 * ?n else length free \<le> 3 * ?n \<and> released s T t T' 0 0"
    unfolding grown_def by blast
  note aps = apart_step[OF ap ok(3) g(1)]
  have "ubyte P (ram t) = ubyte P (ram s)" by (rule ubyte_kept[OF aps(3,2)])
  moreover have "leaf T' (ram t) = leaf T (ram s)" if "\<not> succ" using g(2) that by (simp add: released_def)
  moreover have "ubyte T' (ram t) a = (if a div 4096 < ?n then ubyte P (ram s) a else ubyte T (ram s) a)" if succ for a
    using g(2) that by (intro ubyte_filled_copy[where bs = ?bs] bs) simp_all
  ultimately show ?thesis using l(1) g aps(1,4) by (cases succ) fastforce+
qed

text \<open>A copy to one address space does not change another one.\<close>

lemma copyout_apart:
  assumes ap: "apart s P T free" and okP: "space_ok s P free" and okT: "space_ok (s\<lparr>ram := m\<rparr>) T free"
    and m: "user_frame T (ram s) m" "leaf T m = leaf T (ram s)"
  shows "ubyte P m = ubyte P (ram s)" "space_ok (s\<lparr>ram := m\<rparr>) P free" "apart (s\<lparr>ram := m\<rparr>) P T free"
proof -
  let ?t = "s\<lparr>ram := m\<rparr>"
  have same: "same_page p (ram s) (ram ?t)" if "own_page s T free p" for p
  proof -
    have "upage T (ram s) v \<noteq> Some p" for v using own_pageD(4)[OF that, of v] upage_opage by fastforce
    then show ?thesis using m(1) own_pageD(5)[OF that] unfolding user_frame_def by simp
  qed
  have syms: "same_syms s ?t" by (simp add: same_syms_def)
  have T: "same_page p (ram s) (ram ?t) \<and> p \<notin> set free" if "P n = Some p" for n p
    using same[of p] own_pageD(2)[of s T free p] that ap unfolding apart_def by blast
  note sp = space_same[OF okP syms vm_invD(1)[OF space_ownD(1)[OF okT]] T space_ownD(3)[OF okP]]
  show "space_ok ?t P free" by (rule sp(1))
  have lf: "leaf P (ram ?t) = leaf P (ram s)" by (rule sp(2))
  have k: "kept s P ?t" using same ap by (simp add: kept_def apart_def)
  show "ubyte P m = ubyte P (ram s)" using ubyte_kept[OF k lf] by simp
  have "leaf T (ram ?t) = leaf T (ram s)" using m(2) by simp
  note op = opage_same_leaf[OF this] opage_same_leaf[OF lf]
  show "apart ?t P T free" using ap by (simp add: apart_def own_page_def op[simplified] page_ok_def)
qed

lemma copyout_two:
  assumes "space_ok s T free" "T Root = Some r" "\<forall>i<length bs. ubyte T (ram s) (unat va + i) \<noteq> None"
    and "space_ok s P free" "apart s P T free"
  obtains m where "copyout r va bs s = Ok (0, s\<lparr>ram := m\<rparr>)" "space_ok (s\<lparr>ram := m\<rparr>) T free"
    "ubyte T m = uwrite (unat va) bs (ubyte T (ram s))" "ubyte P m = ubyte P (ram s)" "space_ok (s\<lparr>ram := m\<rparr>) P free"
    "apart (s\<lparr>ram := m\<rparr>) P T free"
proof -
  obtain m where m: "copyout r va bs s = Ok (0, s\<lparr>ram := m\<rparr>)" "space_ok (s\<lparr>ram := m\<rparr>) T free" "leaf T m = leaf T (ram s)"
    "ubyte T m = uwrite (unat va) bs (ubyte T (ram s))" "user_frame T (ram s) m"
    using copyout_ok[OF assms(1-3)] by blast
  note ca = copyout_apart[OF assms(5,4) m(2,5,3)]
  show thesis by (rule that[OF m(1,2,4) ca])
qed

lemma apart_sym:
  assumes ap: "apart s P T free" and ok: "space_ok s T free"
  shows "apart s T P free"
proof -
  have P: "\<And>n p. P n = Some p \<Longrightarrow> own_page s T free p" "\<And>v p. opage P (ram s) v = Some p \<Longrightarrow> own_page s T free p"
    using ap unfolding apart_def by blast+
  note D = space_ownD[OF ok] and V = vm_invD[OF space_ownD(1)[OF ok]]
  have "own_page s P free p" if "T n = Some p" for n p
    unfolding own_page_def using V(4,5)[OF that] P(1)[THEN own_pageD(3), of _ p n] P(2)[THEN own_pageD(3), of _ p n] that by blast
  moreover have "own_page s P free p" if "opage T (ram s) v = Some p" for v p
    unfolding own_page_def using D(2,3)[OF that] P(1)[THEN own_pageD(4), of _ p v] P(2)[THEN own_pageD(4), of _ p v] that by blast
  ultimately show ?thesis by (simp add: apart_def)
qed

text \<open>A new, empty address space beside another one.\<close>

lemma uvmcreate_apart:
  assumes ok: "space_ok s P (pg # free)"
  shows "\<exists>t. uvmcreate s = (pg, t) \<and> space_ok t [Root \<mapsto> pg] free \<and> leaf [Root \<mapsto> pg] (ram t) = (\<lambda>_. 0) \<and>
    space_ok t P free \<and> apart t P [Root \<mapsto> pg] free \<and> leaf P (ram t) = leaf P (ram s)"
proof -
  note D = space_ownD[OF ok] and V = vm_invD[OF space_ownD(1)[OF ok]]
  obtain t where t: "uvmcreate s = (pg, t)" "vm_inv t [Root \<mapsto> pg] free" "leaf [Root \<mapsto> pg] (ram t) = (\<lambda>_. 0)"
    "same_syms s t" "\<And>p. aligned p \<Longrightarrow> p \<noteq> pg \<Longrightarrow> same_page p (ram s) (ram t)"
    using uvmcreate_ok[OF V(1)] by blast
  have none: "opage [Root \<mapsto> pg] (ram t) w = None" for w by (simp add: opage_def t(3))
  have T: "same_page p (ram s) (ram t) \<and> p \<notin> set free" if "P n = Some p" for n p
    using t(5)[OF V(6)[OF that]] V(5)[OF that] by auto
  have o: "p \<notin> set free" if "opage P (ram s) v = Some p" for v p using D(3)[OF that] by simp
  note sp = space_same[OF ok t(4) vm_invD(1)[OF t(2)] T o]
  have lf: "leaf P (ram t) = leaf P (ram s)" by (rule sp(2))
  have okt: "space_ok t P free" by (rule sp(1))
  have ap: "apart t P [Root \<mapsto> pg] free"
    unfolding apart_def own_page_def none opage_same_leaf[OF lf] page_ok_same_syms[OF t(4)]
    using V(4,5) D(2,3) by (fastforce split: if_splits)
  show ?thesis using t(1-3) okt ap lf none by (auto simp: space_ok_def)
qed

text \<open>After boot: a process with two pages of zeros, and the empty address space of its child.\<close>

lemma zeroed_space:
  assumes ok: "space_ok s P free" "P Root = Some pr" "\<forall>w. leaf P (ram s) w = 0" and ap: "apart s P T free" and okT: "space_ok s T free"
    and len: "7 \<le> length free"
  obtains t P' free' where "space_ok t P' free'" "P' Root = Some pr" "space_ok t T free'" "apart t P' T free'"
    "leaf T (ram t) = leaf T (ram s)" "ubyte T (ram t) = ubyte T (ram s)" "length free \<le> length free' + 6"
    "\<forall>a. ubyte P' (ram t) a = (if a < 8192 then Some 0 else None)"
proof -
  have u: "upages 0 = 0" "upages 8192 = 2" by (simp_all add: upages_def)
  obtain t P' free' where t: "space_step s P free t P' free'" "filled s P t P' 0 2 uflags zeros" "length free \<le> length free' + 6"
    using uvmalloc_ok[OF ok(1,2), of 0 8192] ok(3) len by (auto simp: u)
  note aps = apart_step[OF apart_sym[OF ap okT] okT t(1)]
  have "ubyte P (ram s) a = None" for a using ok(3) by (simp add: ubyte_def upage_def)
  then have z: "\<forall>a. ubyte P' (ram t) a = (if a < 8192 then Some 0 else None)"
    unfolding ubyte_zeroed[OF t(2)] using div_less_iff_less_mult[of 4096 _ 2] by (simp add: numeral_2_eq_2)
  show thesis
    by (rule that[OF space_stepD(1)[OF t(1)] _ aps(1) apart_sym[OF aps(4) space_stepD(1)[OF t(1)]] aps(2) ubyte_kept[OF aps(3,2)] t(3) z])
      (use space_stepD(3)[OF t(1)] ok(2) in simp)
qed

lemma example_spaces:
  "\<exists>s T free r P pr. space_ok s T free \<and> T Root = Some r \<and> space_ok s P free \<and> P Root = Some pr \<and> apart s P T free \<and>
    (\<forall>w. leaf T (ram s) w = 0) \<and> (\<forall>a. ubyte P (ram s) a = (if a < 8192 then Some 0 else None)) \<and> 7 \<le> length free"
proof -
  obtain s P free pr where s: "space_ok s P free" "P Root = Some pr" "\<forall>w. leaf P (ram s) w = 0" "21 \<le> length free"
    using example_space by blast
  then obtain r f where f: "free = r # f" "20 \<le> length f" by (cases free) auto
  let ?T = "[Root \<mapsto> r]"
  obtain t where t: "space_ok t ?T f" "leaf ?T (ram t) = (\<lambda>_. 0)" "space_ok t P f" "apart t P ?T f" "leaf P (ram t) = leaf P (ram s)"
    using uvmcreate_apart[of s P r f] s(1) f(1) by blast
  have z: "\<forall>w. leaf P (ram t) w = 0" "7 \<le> length f" using s(3) t(5) f(2) by simp_all
  obtain t2 P' f2 where t2: "space_ok t2 P' f2" "P' Root = Some pr" "space_ok t2 ?T f2" "apart t2 P' ?T f2"
    "leaf ?T (ram t2) = leaf ?T (ram t)" "ubyte ?T (ram t2) = ubyte ?T (ram t)" "length f \<le> length f2 + 6"
    "\<forall>a. ubyte P' (ram t2) a = (if a < 8192 then Some 0 else None)"
    by (rule zeroed_space[OF t(3) s(2) z(1) t(4,1) z(2)]) (rule that)
  have "\<forall>w. leaf ?T (ram t2) w = 0" "?T Root = Some r" "7 \<le> length f2" using t2(5,7) t(2) f(2) by simp_all
  then show ?thesis using t2 by blast
qed

text \<open>Two processes, each with two pages of zeros.\<close>

lemma example_users:
  "\<exists>s T free r P pr. space_ok s T free \<and> T Root = Some r \<and> space_ok s P free \<and> P Root = Some pr \<and> apart s P T free \<and>
    (\<forall>a. ubyte T (ram s) a = (if a < 8192 then Some 0 else None)) \<and> (\<forall>a. ubyte P (ram s) a = (if a < 8192 then Some 0 else None))"
proof -
  obtain s T free r P pr where s: "space_ok s T free" "T Root = Some r" "space_ok s P free" "P Root = Some pr" "apart s P T free"
    "\<forall>w. leaf T (ram s) w = 0" "\<forall>a. ubyte P (ram s) a = (if a < 8192 then Some 0 else None)" "7 \<le> length free"
    using example_spaces by blast
  obtain t T' f where t: "space_ok t T' f" "T' Root = Some r" "space_ok t P f" "apart t T' P f" "leaf P (ram t) = leaf P (ram s)"
    "ubyte P (ram t) = ubyte P (ram s)" "length free \<le> length f + 6" "\<forall>a. ubyte T' (ram t) a = (if a < 8192 then Some 0 else None)"
    by (rule zeroed_space[OF s(1,2,6) apart_sym[OF s(5,1)] s(3,8)]) (rule that)
  have "apart t P T' f" by (rule apart_sym[OF t(4,3)])
  moreover have "\<forall>a. ubyte P (ram t) a = (if a < 8192 then Some 0 else None)" using t(6) s(7) by simp
  ultimately show ?thesis using t(1-3,8) s(4) by blast
qed

subsection \<open>Properties\<close>

text \<open>
  C5. Fork copies the parent's memory: for a parent whose pages below \<^verbatim>\<open>sz\<close> are all mapped and an empty child
  address space that shares no page with it, \<^verbatim>\<open>uvmcopy\<close> does not panic, keeps both address spaces
  well-formed and disjoint, loses no page and does not change the parent. It returns 0 and the child
  then reads, at every address below the size, what the parent reads; or it returns -1, only when free memory
  is short, and the child is empty again.
\<close>

theorem uvmcopy_duplicates:
  assumes "space_ok s T free" "T Root = Some r" "space_ok s P free" "P Root = Some pr" "apart s P T free"
    and "sz \<le> TRAPFRAME" and "\<forall>w<upages sz. leaf T (ram s) w = 0"
    and "\<forall>w<upages sz. opage P (ram s) w \<noteq> None \<and> PTE_FLAGS (leaf P (ram s) w) \<noteq> PTE_V"
  shows "\<exists>res t T' free'. uvmcopy pr r sz s = Ok (res, t) \<and> space_ok t T' free' \<and> T' Root = Some r \<and>
    pages t T' free' = pages s T free \<and> space_ok t P free' \<and> apart t P T' free' \<and> ubyte P (ram t) = ubyte P (ram s) \<and>
    (res = 0 \<and> (\<forall>a. ubyte T' (ram t) a = (if a div 4096 < upages sz then ubyte P (ram s) a else ubyte T (ram s) a)) \<or>
     res = - 1 \<and> length free \<le> 3 * upages sz \<and> leaf T' (ram t) = leaf T (ram s))"
  using uvmcopy_ok[OF assms] assms(2) unfolding space_step_def by (elim exE conjE) (intro exI conjI, assumption+, simp_all)

lemma user_mapped:
  assumes "ubyte P (ram s) (4096 * w) \<noteq> None"
  shows "opage P (ram s) w \<noteq> None \<and> PTE_FLAGS (leaf P (ram s) w) \<noteq> PTE_V"
proof -
  obtain p where p: "upage P (ram s) w = Some p" using assms by (auto simp: ubyte_def)
  then have "bit (PTE_FLAGS (leaf P (ram s) w)) 4" using flags_user[of "leaf P (ram s) w"] by (simp add: upage_def Let_def split: if_splits)
  then have "PTE_FLAGS (leaf P (ram s) w) \<noteq> PTE_V" by (auto simp: bit_1_iff)
  then show ?thesis using upage_opage[OF p] by simp
qed

theorem uvmcopy_duplicates_witness:
  "\<exists>s free r P pr res t T' free'. space_ok s P free \<and> (\<forall>a. ubyte P (ram s) a = (if a < 8192 then Some 0 else None)) \<and>
    uvmcopy pr r 5000 s = Ok (res, t) \<and> apart t P T' free' \<and> ubyte P (ram t) = ubyte P (ram s) \<and>
    (res = 0 \<and> (\<forall>a<8192. ubyte T' (ram t) a = Some 0) \<or> res = - 1 \<and> length free \<le> 6)"
proof -
  obtain s T free r P pr where e: "space_ok s T free" "T Root = Some r" "space_ok s P free" "P Root = Some pr" "apart s P T free"
    "\<forall>w. leaf T (ram s) w = 0" "\<forall>a. ubyte P (ram s) a = (if a < 8192 then Some 0 else None)" using example_spaces by blast
  have u: "upages 5000 = 2" by (simp add: upages_def)
  have sz: "(5000 :: uint64) \<le> TRAPFRAME" by simp
  have m: "\<forall>w<upages 5000. opage P (ram s) w \<noteq> None \<and> PTE_FLAGS (leaf P (ram s) w) \<noteq> PTE_V"
    unfolding u by (intro allI impI user_mapped) (simp add: e(7))
  have z: "\<forall>w<upages 5000. leaf T (ram s) w = 0" using e(6) by simp
  obtain res t T' free' where t: "uvmcopy pr r 5000 s = Ok (res, t)" "apart t P T' free'" "ubyte P (ram t) = ubyte P (ram s)"
    "res = 0 \<and> (\<forall>a. ubyte T' (ram t) a = (if a div 4096 < 2 then ubyte P (ram s) a else ubyte T (ram s) a)) \<or>
     res = - 1 \<and> length free \<le> 3 * 2" using uvmcopy_duplicates[OF e(1-5) sz z m] unfolding u by blast
  have "a div 4096 < 2" if "a < 8192" for a :: nat using that by (simp add: div_less_iff_less_mult)
  then have "res = 0 \<and> (\<forall>a<8192. ubyte T' (ram t) a = Some 0) \<or> res = - 1 \<and> length free \<le> 6"
    using t(4) e(7) by auto
  then show ?thesis using t(1-3) e(3,7) by blast
qed

text \<open>
  C6. What the kernel writes to user memory is what it reads back: when every byte of the destination is
  mapped for the user, \<^verbatim>\<open>copyout\<close> returns 0, a \<^verbatim>\<open>copyin\<close> of the same range then returns 0 and
  the same bytes, every other byte of that address space is unchanged, and so is the memory of every
  other address space that shares no page with it.
\<close>

theorem copyout_copyin_roundtrip:
  assumes "space_ok s T free" "T Root = Some r" "\<forall>i<length bs. ubyte T (ram s) (unat va + i) \<noteq> None"
    and "space_ok s P free" "apart s P T free"
  shows "\<exists>t. copyout r va bs s = Ok (0, t) \<and> copyin r va (length bs) t = Ok (0, bs) \<and>
    ubyte T (ram t) = uwrite (unat va) bs (ubyte T (ram s)) \<and> ubyte P (ram t) = ubyte P (ram s)"
proof -
  obtain m where m: "copyout r va bs s = Ok (0, s\<lparr>ram := m\<rparr>)" "space_ok (s\<lparr>ram := m\<rparr>) T free"
    "ubyte T m = uwrite (unat va) bs (ubyte T (ram s))" "ubyte P m = ubyte P (ram s)"
    by (rule copyout_two[OF assms]) (rule that)
  have "\<forall>i<length bs. ubyte T (ram (s\<lparr>ram := m\<rparr>)) (unat va + i) \<noteq> None" by (simp add: m(3) uwrite_def)
  from copyin_ok[OF m(2) assms(2) this] have "copyin r va (length bs) (s\<lparr>ram := m\<rparr>) = Ok (0, ubytes T m (unat va) (length bs))" by simp
  moreover have "ubytes T m (unat va) (length bs) = bs" by (intro nth_equalityI) (simp_all add: ubytes_def m(3) uwrite_def)
  ultimately show ?thesis using m(1,3,4) by (intro exI[of _ "s\<lparr>ram := m\<rparr>"]) simp
qed

theorem copyout_copyin_roundtrip_witness:
  "\<exists>s t r P. copyout r 4094 [1, 2, 3, 4] s = Ok (0, t) \<and> copyin r 4094 4 t = Ok (0, [1, 2, 3, 4]) \<and>
    ubyte P (ram t) 4096 = Some 3 \<and> ubyte P (ram t) 4098 = Some 0"
proof -
  obtain s T free P pr where e: "space_ok s T free" "space_ok s P free" "P Root = Some pr" "apart s P T free"
    "\<forall>a. ubyte P (ram s) a = (if a < 8192 then Some 0 else None)" using example_spaces by blast
  have m: "\<forall>i<length [1, 2, 3, 4 :: uchar]. ubyte P (ram s) (unat (4094 :: uint64) + i) \<noteq> None" by (simp add: e(5))
  from copyout_copyin_roundtrip[OF e(2,3) m e(1) apart_sym[OF e(4,1)]] obtain t where
    t: "copyout pr 4094 [1, 2, 3, 4] s = Ok (0, t)" "copyin pr 4094 (length [1, 2, 3, 4 :: uchar]) t = Ok (0, [1, 2, 3, 4])"
    "ubyte P (ram t) = uwrite (unat (4094 :: uint64)) [1, 2, 3, 4] (ubyte P (ram s))" by blast
  have "length [1, 2, 3, 4 :: uchar] = 4" "ubyte P (ram t) 4096 = Some 3" "ubyte P (ram t) 4098 = Some 0"
    by (simp_all add: t(3) uwrite_def e(5))
  then show ?thesis using t(1,2) by (metis (no_types, lifting))
qed

text \<open>
  C37. A bad user pointer is an error and never a panic: \<^verbatim>\<open>copyin\<close> returns 0 with exactly the user's
  bytes when every byte of the range is mapped for the user, and -1 when one of them is not.
\<close>

theorem copyin_checks_range:
  assumes "space_ok s T free" "T Root = Some r"
  shows "if \<forall>i<len. ubyte T (ram s) (unat va + i) \<noteq> None
    then copyin r va len s = Ok (0, map (\<lambda>i. the (ubyte T (ram s) (unat va + i))) [0..<len])
    else \<exists>bs. copyin r va len s = Ok (- 1, bs)"
proof (cases "\<forall>i<len. ubyte T (ram s) (unat va + i) \<noteq> None")
  case True
  from copyin_ok[OF assms this] show ?thesis unfolding if_P[OF True] by (simp add: ubytes_def)
next
  case False
  then obtain i where "i < len" "ubyte T (ram s) (unat va + i) = None" by blast
  from copyin_fails[OF assms this] show ?thesis unfolding if_not_P[OF False] .
qed

theorem copyin_checks_range_witness:
  "\<exists>s r bs. copyin r 8190 2 s = Ok (0, [0, 0]) \<and> copyin r 8190 3 s = Ok (- 1, bs)"
proof -
  obtain s P free pr where e: "space_ok s P free" "P Root = Some pr"
    "\<forall>a. ubyte P (ram s) a = (if a < 8192 then Some 0 else None)" using example_spaces by blast
  have "copyin pr 8190 2 s = Ok (0, map (\<lambda>i. the (ubyte P (ram s) (unat (8190 :: uint64) + i))) [0..<2])"
    using copyin_checks_range[OF e(1,2), of 2 8190] e(3) by simp
  moreover have "\<exists>i<3. ubyte P (ram s) (unat (8190 :: uint64) + i) = None" by (intro exI[of _ 2]) (simp add: e(3))
  then have "\<exists>bs. copyin pr 8190 3 s = Ok (- 1, bs)"
    using copyin_checks_range[OF e(1,2), of 3 8190] by (metis (no_types, lifting))
  ultimately show ?thesis by (auto simp: e(3) upt_conv_Cons)
qed

text \<open>
  C8. Growing a process gives zeroed memory: \<^verbatim>\<open>uvmalloc\<close> from \<^verbatim>\<open>oldsz\<close> to \<^verbatim>\<open>newsz\<close> returns \<^verbatim>\<open>newsz\<close> and the
  pages above the old size read as 0, with all else unchanged; or, only when free memory is short, it
  returns 0 after giving back what it had taken, and the address space is as before. No page is lost.
\<close>

theorem uvmalloc_zeroes:
  assumes "space_ok s T free" "T Root = Some r" "oldsz \<le> newsz" "newsz \<le> TRAPFRAME"
    and "\<forall>w. upages oldsz \<le> w \<and> w < upages newsz \<longrightarrow> leaf T (ram s) w = 0"
  shows "\<exists>res t T' free'. uvmalloc r oldsz newsz s = Ok (res, t) \<and> space_ok t T' free' \<and> T' Root = Some r \<and>
    pages t T' free' = pages s T free \<and>
    (res = newsz \<and> ubyte T' (ram t) =
       (\<lambda>a. if upages oldsz \<le> a div 4096 \<and> a div 4096 < upages newsz then Some 0 else ubyte T (ram s) a) \<or>
     res = 0 \<and> length free \<le> 3 * (upages newsz - upages oldsz) \<and> ubyte T' (ram t) = ubyte T (ram s))"
proof -
  from uvmalloc_ok[OF assms] obtain res t T' free' where t: "uvmalloc r oldsz newsz s = Ok (res, t)" "space_step s T free t T' free'"
    "res = newsz \<and> filled s T t T' (upages oldsz) (upages newsz - upages oldsz) uflags zeros \<or>
     res = 0 \<and> length free \<le> 3 * (upages newsz - upages oldsz) \<and> leaf T' (ram t) = leaf T (ram s) \<and> kept s T t" by blast
  have "res = newsz \<and> ubyte T' (ram t) =
       (\<lambda>a. if upages oldsz \<le> a div 4096 \<and> a div 4096 < upages newsz then Some 0 else ubyte T (ram s) a) \<or>
     res = 0 \<and> length free \<le> 3 * (upages newsz - upages oldsz) \<and> ubyte T' (ram t) = ubyte T (ram s)"
    using t(3) ubyte_zeroed ubyte_kept upages_mono[OF assms(3)] by fastforce
  then show ?thesis using t(1) space_stepD(1,3,4)[OF t(2)] assms(2) by (intro exI conjI) (assumption | simp)+
qed

theorem uvmalloc_zeroes_witness:
  "\<exists>s r t T' free'. uvmalloc r 0 5000 s = Ok (5000, t) \<and> space_ok t T' free' \<and> T' Root = Some r \<and> ubyte T' (ram t) 8191 = Some 0"
proof -
  obtain s T free r where s: "space_ok s T free" "T Root = Some r" "\<forall>w. leaf T (ram s) w = 0" "21 \<le> length free"
    using example_space by blast
  have u: "upages 0 = 0" "upages 5000 = 2" by (simp_all add: upages_def)
  obtain t T' free' where t: "uvmalloc r 0 5000 s = Ok (5000, t)" "space_ok t T' free'" "T' Root = Some r"
    "ubyte T' (ram t) = (\<lambda>a. if a div 4096 < 2 then Some 0 else ubyte T (ram s) a)"
    using uvmalloc_zeroes[OF s(1,2), of 0 5000] s(3,4) by (auto simp: u)
  then have "ubyte T' (ram t) 8191 = Some 0" by simp
  then show ?thesis using t(1-3) by blast
qed

end
