(* ===== verification/Xv6_Boot.thy ===== *)
theory Xv6_Boot
  imports Xv6_State
begin

section \<open>The kernel's data when it starts\<close>

text \<open>
  The global variables of the kernel before \<open>main\<close> runs: the C compiler puts them all, uninitialised,
  into the bss segment, which is zero. The theorems' examples start from this state.
\<close>

definition sleeplock_zero :: sleeplock where
  "sleeplock_zero = \<lparr>sl_locked = 0, sl_name = [], sl_pid = 0\<rparr>"

definition buf_zero :: buf where
  "buf_zero = \<lparr>b_valid = False, b_disk = False, b_dev = 0, b_blockno = 0, b_lock = sleeplock_zero,
     b_refcnt = 0, b_prev = 0, b_next = 0, b_data = replicate BSIZE 0\<rparr>"

definition log_zero :: log where
  "log_zero = \<lparr>l_start = 0, l_size = 0, l_outstanding = 0, l_committing = False, l_dev = 0,
     l_lh = \<lparr>lh_n = 0, lh_block = replicate LOGSIZE 0\<rparr>\<rparr>"

definition superblock_zero :: superblock where
  "superblock_zero = \<lparr>sb_magic = 0, sb_size = 0, sb_nblocks = 0, sb_ninodes = 0, sb_nlog = 0,
     sb_logstart = 0, sb_inodestart = 0, sb_bmapstart = 0\<rparr>"

definition inode_zero :: inode where
  "inode_zero = \<lparr>i_dev = 0, i_inum = 0, i_ref = 0, i_lock = sleeplock_zero, i_valid = False, i_type = 0,
     i_major = 0, i_minor = 0, i_nlink = 0, i_size = 0, i_addrs = replicate (NDIRECT + 1) 0\<rparr>"

definition file_zero :: kfilerec where
  "file_zero = \<lparr>f_type = FD_NONE, f_ref = 0, f_readable = False, f_writable = False, f_pipe = 0,
     f_ip = 0, f_off = 0, f_major = 0\<rparr>"

definition pipe_zero :: pipe where
  "pipe_zero = \<lparr>pi_data = replicate PIPESIZE 0, pi_nread = 0, pi_nwrite = 0, pi_readopen = False,
     pi_writeopen = False\<rparr>"

definition vdisk_zero :: vdisk where
  "vdisk_zero = \<lparr>v_desc = replicate VNUM \<lparr>vd_addr = VNull, vd_len = 0, vd_flags = 0, vd_next = 0\<rparr>,
     v_avail_idx = 0, v_avail_ring = replicate VNUM 0, v_used_ridx = 0, v_used_ring = replicate VNUM 0,
     v_free = replicate VNUM False, v_used_idx = 0, v_info_b = replicate VNUM None,
     v_info_status = replicate VNUM 0, v_ops = replicate VNUM \<lparr>vr_type = 0, vr_sector = 0\<rparr>\<rparr>"

text \<open>\<open>n\<close> harts, the memory \<open>m\<close> and the disk \<open>d\<close> the machine starts with.\<close>

definition kernel_bss :: "nat \<Rightarrow> kmem \<Rightarrow> (uint \<Rightarrow> uchar list) \<Rightarrow> kfile" where
  "kernel_bss n m d =
    \<lparr>cpus = cpus (kproc_boot n), hart = 0, procs = procs (kproc_boot n), initproc = None,
     mlfq = mlfq (kproc_boot n), nextpid = 1, alpha = 0, ticks = 0, kout = [],
     km = m, kernel_pagetable = 0, sym_forkret = 0, sym_usertrap = 0, sym_uservec = 0, sym_userret = 0,
     sym_kernelvec = 0,
     cons_buf = replicate 128 0, cons_r = 0, cons_w = 0, cons_e = 0, uart_tx_buf = replicate 32 0,
     uart_tx_w = 0, uart_tx_r = 0, uart = \<lparr>rhr = [], thr_room = 1, thr_sent = []\<rparr>, devsw = replicate 10 None,
     disk = d, dtrace = [], bufs = replicate (NBUF + 1) buf_zero, klog = log_zero, sb = superblock_zero,
     itable = replicate NINODE inode_zero, vdisk = vdisk_zero,
     ftable = replicate NFILE file_zero, pipes = (\<lambda>_. pipe_zero)\<rparr>"

end
