(* ===== verification/Xv6_Pipe.thy ===== *)
theory Xv6_Pipe
  imports Xv6_File Xv6_Ring Xv6_Uvmcopy Xv6_Boot
begin

section \<open>Pipes between two processes\<close>

text \<open>
  A pipe is a queue of at most 512 bytes with 32-bit counters that wrap around. The theorems follow a
  writer and a reader with address spaces of their own through any interleaving of their turns: the
  bytes that arrive in the reader's memory are, in order, those of the writer's memory.
\<close>

subsection \<open>The queue in the pipe\<close>

interpretation pipe_ring: word_ring PIPESIZE "TYPE(32)"
  by unfold_locales (simp_all add: dvd_def exI[of _ 8388608])

definition pipe_bytes :: "pipe \<Rightarrow> uchar list" where
  "pipe_bytes p = ring_list (pi_data p) PIPESIZE (pi_nread p) (pi_nwrite p)"

definition pipe_ok :: "pipe \<Rightarrow> bool" where
  "pipe_ok p \<longleftrightarrow> length (pi_data p) = PIPESIZE \<and> length (pipe_bytes p) \<le> PIPESIZE"

lemma pipe_full_iff: "pipe_ok p \<Longrightarrow> pipe_full p \<longleftrightarrow> length (pipe_bytes p) = PIPESIZE"
  unfolding pipe_full_def pipe_ok_def pipe_bytes_def using pipe_ring.full_iff[of "pi_nwrite p" "pi_nread p"] by simp

lemma pipe_empty_iff: "pipe_empty p \<longleftrightarrow> pipe_bytes p = []"
  by (simp add: pipe_empty_def pipe_bytes_def ring_list_empty_iff)

lemma pipe_put:
  assumes "pipe_ok p" "\<not> pipe_full p"
  shows "pipe_bytes (pipe_put c p) = pipe_bytes p @ [c]" "pipe_ok (pipe_put c p)"
proof -
  have "unat (pi_nwrite p - pi_nread p) < PIPESIZE" using assms pipe_full_iff[OF assms(1)] by (simp add: pipe_ok_def pipe_bytes_def)
  then show b: "pipe_bytes (pipe_put c p) = pipe_bytes p @ [c]"
    using assms(1) pipe_ring.put[of "pi_data p" "pi_nwrite p" "pi_nread p" c] by (simp add: pipe_bytes_def pipe_put_def pipe_ok_def)
  have "length (pipe_bytes p) < PIPESIZE" using assms pipe_full_iff[OF assms(1)] by (simp add: pipe_ok_def)
  then show "pipe_ok (pipe_put c p)" using assms(1) b by (simp add: pipe_ok_def) (simp add: pipe_put_def)
qed

lemma pipe_get:
  assumes "pipe_ok p" "\<not> pipe_empty p"
  shows "pipe_bytes p = pipe_head p # pipe_bytes (p\<lparr>pi_nread := pi_nread p + 1\<rparr>)" "pipe_ok (p\<lparr>pi_nread := pi_nread p + 1\<rparr>)"
proof -
  show b: "pipe_bytes p = pipe_head p # pipe_bytes (p\<lparr>pi_nread := pi_nread p + 1\<rparr>)"
    using assms(2) pipe_ring.get[of "pi_nread p" "pi_nwrite p" "pi_data p"] by (simp add: pipe_bytes_def pipe_empty_def pipe_head_def)
  have "length (pipe_bytes (p\<lparr>pi_nread := pi_nread p + 1\<rparr>)) \<le> PIPESIZE"
    using arg_cong[OF b, of length] assms(1) by (simp add: pipe_ok_def)
  then show "pipe_ok (p\<lparr>pi_nread := pi_nread p + 1\<rparr>)" using assms(1) by (simp add: pipe_ok_def)
qed

subsection \<open>One turn of the writer\<close>

text \<open>Sleeping and waking do not change what the turns depend on.\<close>

definition same_procs :: "'a kproc_scheme \<Rightarrow> 'a kproc_scheme \<Rightarrow> bool" where
  "same_procs s t \<longleftrightarrow> kproc_ok t \<and>
     (\<forall>i<NPROC. p_pagetable (proc_at t i) = p_pagetable (proc_at s i) \<and> p_killed (proc_at t i) = p_killed (proc_at s i))"

lemma same_procs_trans: "same_procs s t \<Longrightarrow> same_procs t u \<Longrightarrow> same_procs s u"
  by (simp add: same_procs_def)

lemma same_procs_wakeup: "kproc_ok s \<Longrightarrow> same_procs s (wakeup ch s)"
  by (simp add: same_procs_def wakeup_def proc_at_for_procs)

lemma same_procs_sleep:
  assumes "kproc_ok s"
  shows "same_procs s (sleep_begin p ch s)" "same_procs s (sleep_end p s)"
  using assms by (simp_all add: same_procs_def sleep_begin_def sleep_end_def kproc_ok_def[of s])

lemma sleep_kfile [simp]:
  "km (sleep_begin p ch s) = km s" "pipes (sleep_begin p ch s) = pipes s"
  "km (sleep_end p s) = km s" "pipes (sleep_end p s) = pipes s" for s :: "'a kfile_scheme"
  by (simp_all add: sleep_begin_def sleep_end_def upd_proc_def)

lemma upd_pipe_kfile [simp]:
  "km (upd_pipe pi f s) = km s" "proc_at (upd_pipe pi f s) = proc_at s" "pipes (upd_pipe pi f s) = (pipes s)(pi := f (pipes s pi))"
  "kproc_ok (upd_pipe pi f s) = kproc_ok s" for s :: "'a kfile_scheme"
  by (simp_all add: upd_pipe_def proc_at_def fun_eq_iff kproc_ok_def hart_ok_def)

text \<open>The user address that is \<open>j\<close> bytes after a mapped one does not wrap around.\<close>

lemma mapped_offset:
  fixes a :: uint64
  assumes "ubyte T m (unat a + j) \<noteq> None"
  shows "unat (a + of_nat j) = unat a + j"
proof -
  have "(unat a + j) div 4096 < 67108864" using assms by (auto simp: ubyte_def upage_def Let_def split: if_splits)
  then have "unat a + j < 2 ^ 38" using div_less_iff_less_mult[of 4096 "unat a + j" 67108864] by simp
  then show ?thesis by (intro unat_add_offset) simp
qed

definition pipe_now :: "'a kfile_scheme \<Rightarrow> 'a kfile_scheme \<Rightarrow> uint64 \<Rightarrow> uchar list \<Rightarrow> bool" where
  "pipe_now s t pi bs \<longleftrightarrow> same_procs s t \<and> (\<forall>q. q \<noteq> pi \<longrightarrow> pipes t q = pipes s q) \<and> pipe_ok (pipes t pi) \<and>
     pipe_bytes (pipes t pi) = bs \<and> pi_readopen (pipes t pi) = pi_readopen (pipes s pi) \<and>
     pi_writeopen (pipes t pi) = pi_writeopen (pipes s pi)"

lemma pipe_now_trans: "pipe_now s t pi bs \<Longrightarrow> pipe_now t u pi cs \<Longrightarrow> pipe_now s u pi cs"
  using same_procs_trans by (fastforce simp: pipe_now_def)

lemma pipe_now_wakeup:
  "kproc_ok s \<Longrightarrow> pipe_ok (pipes s pi) \<Longrightarrow> pipe_now s (wakeup ch s) pi (pipe_bytes (pipes s pi))"
  by (simp add: pipe_now_def same_procs_wakeup)

definition source :: "ptree \<Rightarrow> mem \<Rightarrow> uint64 \<Rightarrow> nat \<Rightarrow> uchar" where
  "source T m addr j = the (ubyte T m (unat addr + j))"

text \<open>
  A turn copies bytes until all are written or the pipe is full: \<open>j\<close> of the \<open>k\<close> bytes that are left.
\<close>

lemma pipewrite_loop_ok:
  fixes s :: "'a kfile_scheme"
  assumes "kproc_ok s" "w < NPROC" "pipe_ok (pipes s pi)" "pi_readopen (pipes s pi)" "p_killed (proc_at s w) = 0"
    and "space_ok (km s) T free" "T Root = Some (p_pagetable (proc_at s w))"
    and "\<forall>j<i + k. ubyte T (ram (km s)) (unat addr + j) \<noteq> None"
  shows "\<exists>j t. pipewrite_loop pi w addr i k s = Ok (if j = k then PipeDone (of_nat (i + k)) else PipeSleep (i + j) (k - j), t) \<and>
    j \<le> k \<and> km t = km s \<and> pipe_now s t pi (pipe_bytes (pipes s pi) @ map (source T (ram (km s)) addr) [i..<i + j]) \<and>
    j = min k (PIPESIZE - length (pipe_bytes (pipes s pi)))"
  using assms
proof (induction k arbitrary: i s)
  case 0
  then show ?case using pipe_now_wakeup[OF 0(1,3)] by (intro exI[of _ 0]) simp
next
  case (Suc k)
  note prems = Suc.prems
  show ?case
  proof (cases "pipe_full (pipes s pi)")
    case True
    let ?t = "sleep_begin w (ChanPipeWrite pi) (wakeup (Some (ChanPipeRead pi)) s)"
    have "same_procs s ?t"
      using same_procs_trans[OF same_procs_wakeup[OF prems(1)] same_procs_sleep(1)[OF wakeup_kproc(1)[OF prems(1)]]] .
    then have "pipe_now s ?t pi (pipe_bytes (pipes s pi))" using prems(3) by (simp add: pipe_now_def)
    then show ?thesis using True prems(4,5) pipe_full_iff[OF prems(3)] by (intro exI[of _ 0] exI[of _ ?t]) simp
  next
    case False
    let ?c = "source T (ram (km s)) addr i" and ?u = "upd_pipe pi (pipe_put (source T (ram (km s)) addr i)) s"
    have mi: "ubyte T (ram (km s)) (unat addr + i) \<noteq> None" using prems(8) by simp
    have ai: "unat (addr + of_nat i) = unat addr + i" by (rule mapped_offset[OF mi])
    have "\<forall>j<1. ubyte T (ram (km s)) (unat (addr + of_nat i) + j) \<noteq> None" using mi ai by simp
    from copyin_ok[OF prems(6,7) this]
    have cp: "copyin (p_pagetable (proc_at s w)) (addr + of_nat i) 1 (km s) = Ok (0, [?c])"
      by (simp add: ubytes_def ai source_def)
    note pp = pipe_put[OF prems(3) False, of ?c]
    have run: "pipewrite_loop pi w addr i (Suc k) s = pipewrite_loop pi w addr (Suc i) k ?u"
      using False prems(4,5) cp by (simp add: kseq_def read_mem_def kmod_def)
    have nu: "pipe_now s ?u pi (pipe_bytes (pipes s pi) @ [?c])"
      using pp prems(1) by (simp add: pipe_now_def same_procs_def pipe_put_def)
    obtain j t where t: "pipewrite_loop pi w addr (Suc i) k ?u = Ok (if j = k then PipeDone (of_nat (Suc i + k)) else PipeSleep (Suc i + j) (k - j), t)"
      "j \<le> k" "km t = km s" "pipe_now ?u t pi (pipe_bytes (pipes ?u pi) @ map (source T (ram (km s)) addr) [Suc i..<Suc i + j])"
      "j = min k (PIPESIZE - length (pipe_bytes (pipes ?u pi)))"
      using Suc.IH[of ?u "Suc i"] prems pp by (auto simp: pipe_put_def)
    have "length (pipe_bytes (pipes s pi)) < PIPESIZE" using False pipe_full_iff[OF prems(3)] prems(3) by (simp add: pipe_ok_def)
    then have j: "Suc j = min (Suc k) (PIPESIZE - length (pipe_bytes (pipes s pi)))" using t(5) pp(1) by simp
    have out: "pipewrite_loop pi w addr i (Suc k) s =
        Ok (if Suc j = Suc k then PipeDone (of_nat (i + Suc k)) else PipeSleep (i + Suc j) (Suc k - Suc j), t)"
      using t(1) unfolding run by simp
    have "pipe_now s t pi (pipe_bytes (pipes s pi) @ map (source T (ram (km s)) addr) [i..<i + Suc j])"
      using pipe_now_trans[OF nu t(4)] pp(1) by (simp add: upt_conv_Cons del: upt_Suc)
    then show ?thesis using out j t(2,3) by blast
  qed
qed

subsection \<open>One turn of the reader\<close>

text \<open>The memory of the reader changes by \<open>bs\<close> written at \<open>a\<close>; the writer's does not change.\<close>

definition received :: "ptree \<Rightarrow> ptree \<Rightarrow> uint64 list \<Rightarrow> kmem \<Rightarrow> kmem \<Rightarrow> nat \<Rightarrow> uchar list \<Rightarrow> bool" where
  "received T W free m m' a bs \<longleftrightarrow> space_ok m' T free \<and> space_ok m' W free \<and> apart m' W T free \<and>
     ubyte W (ram m') = ubyte W (ram m) \<and> ubyte T (ram m') = uwrite a bs (ubyte T (ram m))"

lemma received_refl: "space_ok m T free \<Longrightarrow> space_ok m W free \<Longrightarrow> apart m W T free \<Longrightarrow> received T W free m m a []"
  by (auto simp: received_def uwrite_def fun_eq_iff)

lemma piperead_loop_ok:
  fixes s :: "'a kfile_scheme"
  assumes "kproc_ok s" "r < NPROC" "pipe_ok (pipes s pi)"
    and "space_ok (km s) T free" "T Root = Some (p_pagetable (proc_at s r))" "space_ok (km s) W free" "apart (km s) W T free"
    and "\<forall>j<i + k. ubyte T (ram (km s)) (unat addr + j) \<noteq> None"
  shows "\<exists>t. piperead_loop pi r addr i k s = Ok (i + min k (length (pipe_bytes (pipes s pi))), t) \<and>
    pipe_now s t pi (drop k (pipe_bytes (pipes s pi))) \<and>
    received T W free (km s) (km t) (unat addr + i) (take k (pipe_bytes (pipes s pi)))"
  using assms
proof (induction k arbitrary: i s)
  case 0
  then show ?case using received_refl[OF 0(4,6,7)] by (simp add: pipe_now_def same_procs_def)
next
  case (Suc k)
  note prems = Suc.prems
  show ?case
  proof (cases "pipe_empty (pipes s pi)")
    case True
    then show ?thesis using received_refl[OF prems(4,6,7)] prems(1,3) pipe_empty_iff[of "pipes s pi"]
      by (simp add: pipe_now_def same_procs_def)
  next
    case False
    let ?c = "pipe_head (pipes s pi)" and ?v = "upd_pipe pi (\<lambda>p. p\<lparr>pi_nread := pi_nread p + 1\<rparr>) s"
    note pg = pipe_get[OF prems(3) False]
    have mi: "ubyte T (ram (km s)) (unat addr + i) \<noteq> None" using prems(8) by simp
    have ai: "unat (addr + of_nat i) = unat addr + i" by (rule mapped_offset[OF mi])
    have "\<forall>j<length [?c]. ubyte T (ram (km s)) (unat (addr + of_nat i) + j) \<noteq> None" using mi ai by simp
    from prems(4,5) this prems(6,7) obtain m where
      m: "copyout (p_pagetable (proc_at s r)) (addr + of_nat i) [?c] (km s) = Ok (0, (km s)\<lparr>ram := m\<rparr>)" "space_ok ((km s)\<lparr>ram := m\<rparr>) T free"
      "ubyte T m = uwrite (unat addr + i) [?c] (ubyte T (ram (km s)))" "ubyte W m = ubyte W (ram (km s))"
      "space_ok ((km s)\<lparr>ram := m\<rparr>) W free" "apart ((km s)\<lparr>ram := m\<rparr>) W T free"
      unfolding ai[symmetric] by (rule copyout_two)
    let ?u = "?v\<lparr>km := (km s)\<lparr>ram := m\<rparr>\<rparr>"
    have u: "pipes ?u pi = (pipes s pi)\<lparr>pi_nread := pi_nread (pipes s pi) + 1\<rparr>" "kproc_ok ?u = kproc_ok s" "proc_at ?u = proc_at s"
      "km ?u = (km s)\<lparr>ram := m\<rparr>" by (simp_all add: upd_pipe_def kproc_ok_def hart_ok_def proc_at_def fun_eq_iff)
    have run: "piperead_loop pi r addr i (Suc k) s = piperead_loop pi r addr (Suc i) k ?u"
      using False m(1) by (simp add: kseq_def kget_def kmod_def on_mem_def)
    have nu: "pipe_now s ?u pi (pipe_bytes (pipes ?u pi))"
      using pg(2) prems(1) u by (simp add: pipe_now_def same_procs_def)
    have map: "\<forall>j<Suc i + k. ubyte T (ram (km ?u)) (unat addr + j) \<noteq> None"
      using prems(8) m(3) by (simp add: uwrite_def)
    have "pipe_ok (pipes ?u pi)" "kproc_ok ?u" "T Root = Some (p_pagetable (proc_at ?u r))" using pg(2) u prems(1,5) by simp_all
    from Suc.IH[OF this(2) prems(2) this(1) _ this(3) _ _ map, unfolded u(4), OF m(2,5,6)]
    obtain t where t: "piperead_loop pi r addr (Suc i) k ?u = Ok (Suc i + min k (length (pipe_bytes (pipes ?u pi))), t)"
      "pipe_now ?u t pi (drop k (pipe_bytes (pipes ?u pi)))"
      "received T W free ((km s)\<lparr>ram := m\<rparr>) (km t) (unat addr + Suc i) (take k (pipe_bytes (pipes ?u pi)))" by blast
    have B: "pipe_bytes (pipes s pi) = ?c # pipe_bytes (pipes ?u pi)" using pg(1) u(1) by simp
    have "received T W free (km s) (km t) (unat addr + i) (take (Suc k) (pipe_bytes (pipes s pi)))"
      using t(3) m(3,4) uwrite_append[of "unat addr + i" "[?c]"] unfolding B by (simp add: received_def)
    moreover have "pipe_now s t pi (drop (Suc k) (pipe_bytes (pipes s pi)))" using pipe_now_trans[OF nu t(2)] unfolding B by simp
    moreover have "piperead_loop pi r addr i (Suc k) s = Ok (i + min (Suc k) (length (pipe_bytes (pipes s pi))), t)"
      using t(1) unfolding run B by simp
    ultimately show ?thesis by blast
  qed
qed

subsection \<open>Both ends\<close>

text \<open>
  The turns of the two processes in the order in which the scheduler gives them: the writer goes on
  with its call, or the reader calls \<^verbatim>\<open>read(fd, dst, n)\<close>. The result has the bytes that the reader finds
  in its buffer after each call that returns, and what the writer's call has come to.
\<close>

datatype pipe_turn = WriterTurn | ReaderTurn uint64 cint

fun pipe_run :: "uint64 \<Rightarrow> nat \<Rightarrow> nat \<Rightarrow> uint64 \<Rightarrow> pipe_turn list \<Rightarrow> pipeio \<Rightarrow> ('a kfile_scheme, uchar list \<times> pipeio) kop" where
  "pipe_run pi w r addr [] out s = Ok (([], out), s)"
| "pipe_run pi w r addr (WriterTurn # turns) out s =
     (case out of
        PipeDone v \<Rightarrow> pipe_run pi w r addr turns out s
      | PipeSleep i k \<Rightarrow> kseq (pipewrite_resume pi w addr i k) (\<lambda>out. pipe_run pi w r addr turns out) s)"
| "pipe_run pi w r addr (ReaderTurn dst n # turns) out s =
     kseq (piperead_pass pi r dst n) (\<lambda>res.
     case res of
       PipeSleep _ _ \<Rightarrow> pipe_run pi w r addr turns out
     | PipeDone v \<Rightarrow>
         kseq (read_mem (copyin (p_pagetable (proc_at s r)) dst (nat (sint v)))) (\<lambda>(_, bs).
         kseq (pipe_run pi w r addr turns out) (\<lambda>(got, out). kret (bs @ got, out)))) s"

text \<open>The state of the system when \<open>i\<close> of the \<open>n\<close> bytes are written.\<close>

record pipe_ends =
  wspace :: ptree
  rspace :: ptree
  ufree :: "uint64 list"

definition pipe_inv :: "pipe_ends \<Rightarrow> uint64 \<Rightarrow> nat \<Rightarrow> nat \<Rightarrow> 'a kfile_scheme \<Rightarrow> bool" where
  "pipe_inv e pi w r s \<longleftrightarrow> kproc_ok s \<and> w < NPROC \<and> r < NPROC \<and> pipe_ok (pipes s pi) \<and>
     pi_readopen (pipes s pi) \<and> p_killed (proc_at s w) = 0 \<and> p_killed (proc_at s r) = 0 \<and>
     space_ok (km s) (wspace e) (ufree e) \<and> wspace e Root = Some (p_pagetable (proc_at s w)) \<and>
     space_ok (km s) (rspace e) (ufree e) \<and> rspace e Root = Some (p_pagetable (proc_at s r)) \<and>
     apart (km s) (wspace e) (rspace e) (ufree e)"

definition writer_at :: "nat \<Rightarrow> nat \<Rightarrow> pipeio" where
  "writer_at i n = (if i = n then PipeDone (of_nat n) else PipeSleep i (n - i))"

text \<open>The buffer of every \<^verbatim>\<open>read\<close> is mapped.\<close>

fun turn_ok :: "nat set \<Rightarrow> pipe_turn \<Rightarrow> bool" where
  "turn_ok D WriterTurn = True"
| "turn_ok D (ReaderTurn dst n) = (\<forall>j<nat (sint n). unat dst + j \<in> D)"

lemma pipe_inv_now:
  assumes inv: "pipe_inv e pi w r s" and now: "pipe_now s t pi bs"
    and m: "space_ok (km t) (wspace e) (ufree e)" "space_ok (km t) (rspace e) (ufree e)" "apart (km t) (wspace e) (rspace e) (ufree e)"
  shows "pipe_inv e pi w r t"
  using assms unfolding pipe_inv_def pipe_now_def same_procs_def by simp

lemma writer_turn:
  fixes s :: "'a kfile_scheme"
  assumes inv: "pipe_inv e pi w r s" and i: "i \<le> n"
    and src: "\<forall>j<n. ubyte (wspace e) (ram (km s)) (unat addr + j) \<noteq> None"
  shows "\<exists>i' t. pipewrite_loop pi w addr i (n - i) s = Ok (writer_at i' n, t) \<and> i \<le> i' \<and> i' \<le> n \<and> pipe_inv e pi w r t \<and> km t = km s \<and>
    pipe_bytes (pipes t pi) = pipe_bytes (pipes s pi) @ map (source (wspace e) (ram (km s)) addr) [i..<i'] \<and>
    i' - i = min (n - i) (PIPESIZE - length (pipe_bytes (pipes s pi))) \<and> pi_writeopen (pipes t pi) = pi_writeopen (pipes s pi)"
proof -
  have I: "kproc_ok s" "w < NPROC" "pipe_ok (pipes s pi)" "pi_readopen (pipes s pi)" "p_killed (proc_at s w) = 0"
    "space_ok (km s) (wspace e) (ufree e)" "wspace e Root = Some (p_pagetable (proc_at s w))"
    "space_ok (km s) (rspace e) (ufree e)" "apart (km s) (wspace e) (rspace e) (ufree e)" using inv by (simp_all add: pipe_inv_def)
  have "\<forall>j<i + (n - i). ubyte (wspace e) (ram (km s)) (unat addr + j) \<noteq> None" using src i by simp
  from pipewrite_loop_ok[OF I(1-7) this] obtain j t where
    t: "pipewrite_loop pi w addr i (n - i) s = Ok (if j = n - i then PipeDone (of_nat (i + (n - i))) else PipeSleep (i + j) (n - i - j), t)"
      "j \<le> n - i" "km t = km s" "pipe_now s t pi (pipe_bytes (pipes s pi) @ map (source (wspace e) (ram (km s)) addr) [i..<i + j])"
      "j = min (n - i) (PIPESIZE - length (pipe_bytes (pipes s pi)))" by blast
  have "pipe_inv e pi w r t" by (rule pipe_inv_now[OF inv t(4)]) (simp_all add: t(3) I(6,8,9))
  moreover have "pipewrite_loop pi w addr i (n - i) s = Ok (writer_at (i + j) n, t)"
    using t(1,2) i by (auto simp: writer_at_def)
  ultimately show ?thesis using t(2-5) i by (intro exI[of _ "i + j"] exI[of _ t]) (simp add: pipe_now_def)
qed

lemma reader_turn:
  fixes s :: "'a kfile_scheme"
  assumes inv: "pipe_inv e pi w r s" and dst: "turn_ok (dom (ubyte (rspace e) (ram (km s)))) (ReaderTurn dst n)"
    and ready: "pipe_bytes (pipes s pi) \<noteq> [] \<or> \<not> pi_writeopen (pipes s pi)"
  shows "\<exists>t. piperead_pass pi r dst n s = Ok (PipeDone (of_nat (min (nat (sint n)) (length (pipe_bytes (pipes s pi))))), t) \<and>
    pipe_inv e pi w r t \<and> pipe_bytes (pipes t pi) = drop (nat (sint n)) (pipe_bytes (pipes s pi)) \<and>
    received (rspace e) (wspace e) (ufree e) (km s) (km t) (unat dst) (take (nat (sint n)) (pipe_bytes (pipes s pi))) \<and>
    p_pagetable (proc_at t r) = p_pagetable (proc_at s r) \<and> pi_writeopen (pipes t pi) = pi_writeopen (pipes s pi)"
proof -
  have I: "kproc_ok s" "r < NPROC" "pipe_ok (pipes s pi)" "space_ok (km s) (rspace e) (ufree e)"
    "rspace e Root = Some (p_pagetable (proc_at s r))" "space_ok (km s) (wspace e) (ufree e)" "apart (km s) (wspace e) (rspace e) (ufree e)"
    using inv by (simp_all add: pipe_inv_def)
  have "\<forall>j<0 + nat (sint n). ubyte (rspace e) (ram (km s)) (unat dst + j) \<noteq> None" using dst by (auto simp: dom_def)
  from piperead_loop_ok[OF I this] obtain t where
    t: "piperead_loop pi r dst 0 (nat (sint n)) s = Ok (min (nat (sint n)) (length (pipe_bytes (pipes s pi))), t)"
      "pipe_now s t pi (drop (nat (sint n)) (pipe_bytes (pipes s pi)))"
      "received (rspace e) (wspace e) (ufree e) (km s) (km t) (unat dst) (take (nat (sint n)) (pipe_bytes (pipes s pi)))" by auto
  let ?t = "wakeup (Some (ChanPipeWrite pi)) t"
  have kt: "kproc_ok t" "pipe_ok (pipes t pi)" using t(2) by (simp_all add: pipe_now_def same_procs_def)
  have now: "pipe_now s ?t pi (pipe_bytes (pipes t pi))" by (rule pipe_now_trans[OF t(2) pipe_now_wakeup[OF kt]])
  have "pipe_inv e pi w r ?t" by (rule pipe_inv_now[OF inv now]) (use t(3) in \<open>simp_all add: received_def\<close>)
  moreover have "piperead_pass pi r dst n s = Ok (PipeDone (of_nat (min (nat (sint n)) (length (pipe_bytes (pipes s pi))))), ?t)"
    using ready t(1) by (auto simp: piperead_pass_def pipe_empty_iff kseq_def kmod_def kret_def)
  moreover have "p_pagetable (proc_at ?t r) = p_pagetable (proc_at s r)" using now I(2) by (simp add: pipe_now_def same_procs_def)
  ultimately show ?thesis using t(2,3) by (intro exI[of _ ?t]) (simp add: pipe_now_def)
qed

lemma uwrite_dom:
  assumes "\<forall>j<length bs. a + j \<in> dom f"
  shows "dom (uwrite a bs f) = dom f"
proof -
  have "x \<in> dom (uwrite a bs f) \<longleftrightarrow> x \<in> dom f" for x
    using assms[rule_format, of "x - a"] by (cases "a \<le> x \<and> x < a + length bs") (auto simp: uwrite_def dom_def)
  then show ?thesis by blast
qed

lemma received_read:
  assumes "received T W free m m' (unat dst) bs" "T Root = Some r"
  shows "copyin r dst (length bs) m' = Ok (0, bs)"
proof -
  have ok: "space_ok m' T free" and f: "ubyte T (ram m') = uwrite (unat dst) bs (ubyte T (ram m))" using assms(1) by (simp_all add: received_def)
  have "\<forall>i<length bs. ubyte T (ram m') (unat dst + i) \<noteq> None" by (simp add: f uwrite_def)
  from copyin_ok[OF ok assms(2) this] have "copyin r dst (length bs) m' = Ok (0, ubytes T (ram m') (unat dst) (length bs))" .
  moreover have "ubytes T (ram m') (unat dst) (length bs) = bs" by (intro nth_equalityI) (simp_all add: ubytes_def f uwrite_def)
  ultimately show ?thesis by simp
qed

lemma pipe_run_ok:
  fixes s :: "'a kfile_scheme"
  assumes "pipe_inv e pi w r s" "i \<le> n" "\<forall>j<n. ubyte (wspace e) (ram (km s)) (unat addr + j) \<noteq> None"
    and "list_all (turn_ok (dom (ubyte (rspace e) (ram (km s))))) turns"
  shows "\<exists>got i' t. pipe_run pi w r addr turns (writer_at i n) s = Ok ((got, writer_at i' n), t) \<and> i \<le> i' \<and> i' \<le> n \<and> pipe_inv e pi w r t \<and>
    got @ pipe_bytes (pipes t pi) = pipe_bytes (pipes s pi) @ map (source (wspace e) (ram (km s)) addr) [i..<i']"
  using assms
proof (induction turns arbitrary: i s)
  case Nil
  then show ?case by (intro exI[of _ "[]"] exI[of _ i] exI[of _ s]) simp
next
  case (Cons turn turns)
  note inv = Cons.prems(1) and i = Cons.prems(2) and src = Cons.prems(3)
  have turns: "turn_ok (dom (ubyte (rspace e) (ram (km s)))) turn" "list_all (turn_ok (dom (ubyte (rspace e) (ram (km s))))) turns"
    using Cons.prems(4) by simp_all
  show ?case
  proof (cases turn)
    case WriterTurn
    show ?thesis
    proof (cases "i = n")
      case True
      then show ?thesis using Cons.IH[OF inv i src turns(2)] WriterTurn by (simp add: writer_at_def)
    next
      case False
      let ?s = "sleep_end w s"
      have I: "kproc_ok s" "pipe_ok (pipes s pi)" "space_ok (km s) (wspace e) (ufree e)" "space_ok (km s) (rspace e) (ufree e)"
        "apart (km s) (wspace e) (rspace e) (ufree e)" using inv by (simp_all add: pipe_inv_def)
      have "pipe_now s ?s pi (pipe_bytes (pipes s pi))" using same_procs_sleep(2)[OF I(1)] I(2) by (simp add: pipe_now_def)
      then have inv1: "pipe_inv e pi w r ?s" by (rule pipe_inv_now[OF inv]) (simp_all add: I)
      obtain i1 t1 where t1: "pipewrite_loop pi w addr i (n - i) ?s = Ok (writer_at i1 n, t1)" "i \<le> i1" "i1 \<le> n" "pipe_inv e pi w r t1"
        "km t1 = km s" "pipe_bytes (pipes t1 pi) = pipe_bytes (pipes s pi) @ map (source (wspace e) (ram (km s)) addr) [i..<i1]"
        using writer_turn[OF inv1 i, of addr] src by auto
      obtain got i2 t where t: "pipe_run pi w r addr turns (writer_at i1 n) t1 = Ok ((got, writer_at i2 n), t)" "i1 \<le> i2" "i2 \<le> n"
        "pipe_inv e pi w r t" "got @ pipe_bytes (pipes t pi) = pipe_bytes (pipes t1 pi) @ map (source (wspace e) (ram (km s)) addr) [i1..<i2]"
        using Cons.IH[OF t1(4,3)] src turns(2) t1(5) by auto
      have "pipe_run pi w r addr (turn # turns) (writer_at i n) s = Ok ((got, writer_at i2 n), t)"
        using WriterTurn False t1(1) t(1) by (simp add: writer_at_def[of i] pipewrite_resume_def kseq_def)
      moreover have "[i..<i1] @ [i1..<i2] = [i..<i2]" using t1(2) t(2) by (metis le_Suc_ex upt_add_eq_append)
      then have "got @ pipe_bytes (pipes t pi) = pipe_bytes (pipes s pi) @ map (source (wspace e) (ram (km s)) addr) [i..<i2]"
        using t(5) t1(6) by (simp flip: map_append)
      ultimately show ?thesis using t(2-4) t1(2) by (intro exI[of _ got] exI[of _ i2] exI[of _ t]) simp
    qed
  next
    case (ReaderTurn dst m)
    show ?thesis
    proof (cases "pipe_bytes (pipes s pi) \<noteq> [] \<or> \<not> pi_writeopen (pipes s pi)")
      case False
      have I: "kproc_ok s" "pipe_ok (pipes s pi)" "p_killed (proc_at s r) = 0" "space_ok (km s) (wspace e) (ufree e)"
        "space_ok (km s) (rspace e) (ufree e)" "apart (km s) (wspace e) (rspace e) (ufree e)" using inv by (simp_all add: pipe_inv_def)
      let ?s = "sleep_begin r (ChanPipeRead pi) s"
      have "pipe_now s ?s pi (pipe_bytes (pipes s pi))" using same_procs_sleep(1)[OF I(1)] I(2) by (simp add: pipe_now_def)
      then have inv1: "pipe_inv e pi w r ?s" by (rule pipe_inv_now[OF inv]) (simp_all add: I)
      have "piperead_pass pi r dst m s = Ok (PipeSleep 0 (nat (sint m)), ?s)"
        using False I(3) by (simp add: piperead_pass_def pipe_empty_iff)
      then have "pipe_run pi w r addr (turn # turns) (writer_at i n) s = pipe_run pi w r addr turns (writer_at i n) ?s"
        using ReaderTurn by (simp add: kseq_def)
      then show ?thesis using Cons.IH[OF inv1 i] src turns(2) by simp
    next
      case ready: True
      let ?k = "nat (sint m)" and ?B = "pipe_bytes (pipes s pi)"
      obtain t1 where t1: "piperead_pass pi r dst m s = Ok (PipeDone (of_nat (min ?k (length ?B))), t1)" "pipe_inv e pi w r t1"
        "pipe_bytes (pipes t1 pi) = drop ?k ?B" "received (rspace e) (wspace e) (ufree e) (km s) (km t1) (unat dst) (take ?k ?B)"
        "p_pagetable (proc_at t1 r) = p_pagetable (proc_at s r)"
        using reader_turn[OF inv turns(1)[unfolded ReaderTurn] ready] by blast
      note got = received_read[OF t1(4)]
      have root: "rspace e Root = Some (p_pagetable (proc_at s r))" using inv by (simp add: pipe_inv_def)
      have "length ?B \<le> PIPESIZE" using inv by (simp add: pipe_inv_def pipe_ok_def)
      then have c: "nat (sint (of_nat (min ?k (length ?B)) :: cint)) = length (take ?k ?B)"
        using sint_word_of_nat[of "min ?k (length ?B)"] by simp
      have W: "ubyte (wspace e) (ram (km t1)) = ubyte (wspace e) (ram (km s))" using t1(4) by (simp add: received_def)
      have D: "dom (ubyte (rspace e) (ram (km t1))) = dom (ubyte (rspace e) (ram (km s)))"
        using t1(4) turns(1) by (simp add: received_def ReaderTurn uwrite_dom)
      obtain rest i2 t where t: "pipe_run pi w r addr turns (writer_at i n) t1 = Ok ((rest, writer_at i2 n), t)" "i \<le> i2" "i2 \<le> n"
        "pipe_inv e pi w r t" "rest @ pipe_bytes (pipes t pi) = drop ?k ?B @ map (source (wspace e) (ram (km s)) addr) [i..<i2]"
        using Cons.IH[OF t1(2) i] src turns(2) unfolding W D t1(3) source_def by blast
      have "pipe_run pi w r addr (turn # turns) (writer_at i n) s = Ok ((take ?k ?B @ rest, writer_at i2 n), t)"
        using ReaderTurn t1(1) t(1) c got[OF root] by (simp add: kseq_def kret_def read_mem_def)
      then show ?thesis using t(2-5) by (intro exI[of _ "take ?k ?B @ rest"] exI[of _ i2] exI[of _ t]) simp
    qed
  qed
qed

subsection \<open>Properties\<close>

text \<open>
  C7. A pipe neither loses, duplicates nor reorders bytes: a process writes \<^verbatim>\<open>n\<close> bytes of its memory to
  an empty pipe and another one reads in calls of any size, with any interleaving of their turns and with
  counters that may wrap around. Neither panics; what the reader has found in its memory, followed by
  what is still in the pipe, is the first part of the writer's bytes, and the writer's call has returned
  \<^verbatim>\<open>n\<close> if that is all of them and is waiting otherwise.
\<close>

theorem pipe_in_order:
  fixes s :: "'a kfile_scheme"
  assumes "pipe_inv e pi w r s" "pipe_bytes (pipes s pi) = []"
    and "\<forall>j<n. ubyte (wspace e) (ram (km s)) (unat addr + j) \<noteq> None"
    and "list_all (turn_ok (dom (ubyte (rspace e) (ram (km s))))) turns"
  shows "\<exists>out s0 got i t. pipewrite_loop pi w addr 0 n s = Ok (out, s0) \<and>
    pipe_run pi w r addr turns out s0 = Ok ((got, if i = n then PipeDone (of_nat n) else PipeSleep i (n - i)), t) \<and> i \<le> n \<and>
    got @ pipe_bytes (pipes t pi) = map (\<lambda>j. the (ubyte (wspace e) (ram (km s)) (unat addr + j))) [0..<i]"
proof -
  obtain i0 s0 where s0: "pipewrite_loop pi w addr 0 n s = Ok (writer_at i0 n, s0)" "i0 \<le> n" "pipe_inv e pi w r s0" "km s0 = km s"
    "pipe_bytes (pipes s0 pi) = map (source (wspace e) (ram (km s)) addr) [0..<i0]"
    using writer_turn[OF assms(1) le0 assms(3)] assms(2) by auto
  have "\<forall>j<n. ubyte (wspace e) (ram (km s0)) (unat addr + j) \<noteq> None"
    "list_all (turn_ok (dom (ubyte (rspace e) (ram (km s0))))) turns" using assms(3,4) s0(4) by simp_all
  from pipe_run_ok[OF s0(3,2) this] obtain got i t where
    t: "pipe_run pi w r addr turns (writer_at i0 n) s0 = Ok ((got, writer_at i n), t)" "i0 \<le> i" "i \<le> n"
      "got @ pipe_bytes (pipes t pi) = pipe_bytes (pipes s0 pi) @ map (source (wspace e) (ram (km s)) addr) [i0..<i]"
    unfolding s0(4) by blast
  have "[0..<i0] @ [i0..<i] = [0..<i]" using t(2) by (metis le0 le_Suc_ex upt_add_eq_append)
  then have "got @ pipe_bytes (pipes t pi) = map (source (wspace e) (ram (km s)) addr) [0..<i]"
    using t(4) unfolding s0(5) map_append[symmetric] by simp
  then show ?thesis using s0(1) t(1,3) unfolding writer_at_def source_def by blast
qed

text \<open>A writer and a reader after boot, with a pipe whose counters are about to wrap around.\<close>

definition example_pipe :: "kmem \<Rightarrow> uint64 \<Rightarrow> uint64 \<Rightarrow> kfile" where
  "example_pipe m pw pr =
     (upd_proc 1 (\<lambda>p. p\<lparr>p_pagetable := pw, p_state := RUNNABLE\<rparr>) (upd_proc 2 (\<lambda>p. p\<lparr>p_pagetable := pr, p_state := RUNNABLE\<rparr>)
       (kernel_bss 1 m (\<lambda>_. replicate BSIZE 0))))
       \<lparr>pipes := (\<lambda>_. (pipe_open pipe_zero)\<lparr>pi_nread := - 1, pi_nwrite := - 1\<rparr>)\<rparr>"

lemma example_pipe_facts:
  "\<exists>s e pw pr. pipe_inv e 0 1 2 (example_pipe s pw pr) \<and> pipe_bytes (pipes (example_pipe s pw pr) 0) = [] \<and> km (example_pipe s pw pr) = s \<and>
    (\<forall>a. ubyte (wspace e) (ram s) a = uwrite 0 [1, 2, 3] (\<lambda>a. if a < 8192 then Some 0 else None) a) \<and>
    dom (ubyte (rspace e) (ram s)) = {..<8192} \<and> pi_writeopen (pipes (example_pipe s pw pr) 0) \<and>
    p_state (proc_at (example_pipe s pw pr) 1) = RUNNABLE \<and> p_state (proc_at (example_pipe s pw pr) 2) = RUNNABLE"
proof -
  obtain s T free r P pr where e: "space_ok s T free" "T Root = Some r" "space_ok s P free" "P Root = Some pr" "apart s P T free"
    "\<forall>a. ubyte T (ram s) a = (if a < 8192 then Some 0 else None)" "\<forall>a. ubyte P (ram s) a = (if a < 8192 then Some 0 else None)"
    using example_users by blast
  have m3: "\<forall>i<length [1, 2, 3 :: uchar]. ubyte P (ram s) (unat (0 :: uint64) + i) \<noteq> None" by (simp add: e(7))
  obtain m where m: "space_ok (s\<lparr>ram := m\<rparr>) P free" "ubyte P m = uwrite (unat (0 :: uint64)) [1, 2, 3] (ubyte P (ram s))"
    "ubyte T m = ubyte T (ram s)" "space_ok (s\<lparr>ram := m\<rparr>) T free" "apart (s\<lparr>ram := m\<rparr>) T P free"
    by (rule copyout_two[OF e(3,4) m3 e(1) apart_sym[OF e(5,1)]]) (rule that)
  let ?s = "s\<lparr>ram := m\<rparr>" let ?k = "example_pipe ?s pr r" let ?e = "\<lparr>wspace = P, rspace = T, ufree = free\<rparr>"
  have f: "km ?k = ?s" "kproc_ok ?k" "p_pagetable (proc_at ?k 1) = pr" "p_pagetable (proc_at ?k 2) = r"
    "p_killed (proc_at ?k 1) = 0" "p_killed (proc_at ?k 2) = 0" "p_state (proc_at ?k 1) = RUNNABLE" "p_state (proc_at ?k 2) = RUNNABLE"
    by (simp_all add: example_pipe_def kernel_bss_def upd_proc_def proc_at_def kproc_ok_def hart_ok_def kproc_boot_def proc_zero_def)
  have p: "pipe_ok (pipes ?k 0)" "pi_readopen (pipes ?k 0)" "pipe_bytes (pipes ?k 0) = []" "pi_writeopen (pipes ?k 0)"
    by (simp_all add: example_pipe_def pipe_open_def pipe_zero_def pipe_ok_def pipe_bytes_def)
  have "pipe_inv ?e 0 1 2 ?k" unfolding pipe_inv_def f(1,3-6) using f(2) p e(2,4) m(1,4) apart_sym[OF m(5,1)] by simp
  moreover have "ubyte P (ram s) = (\<lambda>a. if a < 8192 then Some 0 else None)" "ubyte T (ram s) = (\<lambda>a. if a < 8192 then Some 0 else None)"
    using e(6,7) by (simp_all add: fun_eq_iff)
  ultimately show ?thesis using p(3,4) f(1,7,8) m(2,3) by (intro exI[of _ ?s] exI[of _ ?e] exI[of _ pr] exI[of _ r]) (auto simp: dom_def split: if_splits)
qed

theorem pipe_in_order_witness:
  "\<exists>s pw pr out s0 got i t. pipewrite_loop 0 1 0 0 3 (example_pipe s pw pr) = Ok (out, s0) \<and>
    pipe_run 0 1 2 0 [ReaderTurn 100 2, WriterTurn, ReaderTurn 102 2] out s0 = Ok ((got, if i = 3 then PipeDone 3 else PipeSleep i (3 - i)), t) \<and>
    i \<le> 3 \<and> got @ pipe_bytes (pipes t 0) = take i [1, 2, 3]"
proof -
  obtain s e pw pr where x: "pipe_inv e 0 1 2 (example_pipe s pw pr)" "pipe_bytes (pipes (example_pipe s pw pr) 0) = []"
    "km (example_pipe s pw pr) = s" "\<forall>a. ubyte (wspace e) (ram s) a = uwrite 0 [1, 2, 3] (\<lambda>a. if a < 8192 then Some 0 else None) a"
    "dom (ubyte (rspace e) (ram s)) = {..<8192}" using example_pipe_facts by blast
  have h: "\<forall>j<3. ubyte (wspace e) (ram (km (example_pipe s pw pr))) (unat (0 :: uint64) + j) \<noteq> None" by (simp add: x(3,4) uwrite_def)
  have d: "list_all (turn_ok (dom (ubyte (rspace e) (ram (km (example_pipe s pw pr)))))) [ReaderTurn 100 2, WriterTurn, ReaderTurn 102 2]"
    by (simp add: x(3,5))
  have n: "(of_nat 3 :: cint) = 3" by simp
  from pipe_in_order[OF x(1,2) h d, unfolded x(3) n] obtain out s0 got i t where
    t: "pipewrite_loop 0 1 0 0 3 (example_pipe s pw pr) = Ok (out, s0)"
    "pipe_run 0 1 2 0 [ReaderTurn 100 2, WriterTurn, ReaderTurn 102 2] out s0 = Ok ((got, if i = 3 then PipeDone 3 else PipeSleep i (3 - i)), t)"
    "i \<le> 3" "got @ pipe_bytes (pipes t 0) = map (\<lambda>j. the (ubyte (wspace e) (ram s) (unat (0 :: uint64) + j))) [0..<i]" by blast
  have "map (\<lambda>j. the (ubyte (wspace e) (ram s) (unat (0 :: uint64) + j))) [0..<i] = take i [1, 2, 3]"
    using t(3) by (intro nth_equalityI) (auto simp: x(4) uwrite_def)
  then show ?thesis using t by metis
qed

end
