(* ===== verification/Xv6_Policy.thy ===== *)
theory Xv6_Policy
  imports Xv6_Sched
begin

section \<open>What each scheduling policy guarantees\<close>

text \<open>
  Facts on the selection functions of \<open>Xv6_Sched\<close>: the round-robin cursor visits every slot,
  FCFS selects a runnable process of least creation time, PBS the lexicographic minimum of
  dynamic priority, number of runs and creation time. Then the effect of a clock tick on each
  table entry, the range of the priorities, and the length of a feedback-queue time slice.
\<close>

subsection \<open>Round robin\<close>

fun rr_picks :: "nat \<Rightarrow> 'a kproc_scheme \<Rightarrow> nat list" where
  "rr_picks 0 s = []"
| "rr_picks (Suc n) s = (let (p, s') = RoundRobin s in p # rr_picks n s')"

lemma RoundRobin_eq:
  assumes "unat (alpha s) < NPROC"
  shows "RoundRobin s = (Suc (unat (alpha s)) mod NPROC,
    s\<lparr>alpha := word_of_nat (Suc (unat (alpha s)) mod NPROC)\<rparr>)"
proof -
  let ?a = "unat (alpha s)"
  have "alpha s + 1 = word_of_nat (Suc ?a)"
    by (simp add: add.commute)
  then have "sint (alpha s + 1) = int (Suc ?a)"
    using assms sint_word_of_nat[of "Suc ?a"] by (simp del: of_nat_Suc)
  then have "sint (alpha s + 1) smod int NPROC = int (Suc ?a mod NPROC)"
    by (simp add: signed_modulo_int_def signed_divide_int_def sgn_if abs_if zmod_int minus_mult_div_eq_mod
        div_mult_mod_eq algebra_simps del: of_nat_Suc)
  moreover have "unat (word_of_nat (Suc ?a mod NPROC) :: cint) = Suc ?a mod NPROC"
    by (rule unat_word_of_nat) (simp add: less_trans[OF mod_less_divisor])
  ultimately show ?thesis
    by (simp add: RoundRobin_def Let_def)
qed

lemma rr_picks_eq:
  "unat (alpha s) < NPROC \<Longrightarrow> rr_picks n s = map (\<lambda>k. (unat (alpha s) + Suc k) mod NPROC) [0..<n]"
proof (induction n arbitrary: s)
  case 0
  then show ?case by simp
next
  case (Suc n)
  let ?a = "unat (alpha s)"
  let ?s = "s\<lparr>alpha := word_of_nat (Suc ?a mod NPROC)\<rparr>"
  have a: "unat (alpha ?s) = Suc ?a mod NPROC"
    by (simp add: less_trans[OF mod_less_divisor])
  then have "rr_picks n ?s = map (\<lambda>k. (Suc ?a mod NPROC + Suc k) mod NPROC) [0..<n]"
    using Suc.IH[of ?s] by simp
  also have "\<dots> = map (\<lambda>k. (?a + Suc k) mod NPROC) (map Suc [0..<n])"
  proof -
    have "(Suc ?a mod NPROC + Suc k) mod NPROC = (?a + Suc (Suc k)) mod NPROC" for k
      using mod_add_left_eq[of "Suc ?a" NPROC "Suc k"] by simp
    then show ?thesis by (simp del: add_Suc_right)
  qed
  finally show ?case
    using Suc.prems by (simp add: RoundRobin_eq map_Suc_upt upt_conv_Cons[of 0] del: upt_Suc)
qed

lemma rr_visits:
  assumes "unat (alpha s) < NPROC" and "i < NPROC"
  shows "i \<in> set (rr_picks NPROC s)"
proof -
  let ?a = "unat (alpha s)"
  let ?k = "(i + (NPROC - Suc ?a)) mod NPROC"
  have "(?a + Suc ?k) mod NPROC = (?a + Suc (i + (NPROC - Suc ?a))) mod NPROC"
    by (metis add_Suc_right add_Suc mod_add_right_eq)
  also have "\<dots> = i"
    using assms by simp
  finally have "i = (?a + Suc ?k) mod NPROC" by simp
  moreover have "?k < NPROC" by simp
  ultimately show ?thesis
    unfolding rr_picks_eq[OF assms(1)] set_map set_upt by (intro image_eqI[of _ _ ?k]) simp_all
qed

subsection \<open>First come, first served\<close>

definition runnable :: "'a kproc_scheme \<Rightarrow> nat \<Rightarrow> bool" where
  "runnable s i \<longleftrightarrow> i < NPROC \<and> p_state (proc_at s i) = RUNNABLE"

lemma fcfs_prefix:
  fixes s :: "'a kproc_scheme"
  defines "c \<equiv> \<lambda>i. sint (p_ctime (proc_at s i))"
  assumes "fold (fcfs_step s) [0..<n] (0, ticks s) = (index, mintime)"
  shows "(\<forall>j<n. p_state (proc_at s j) = RUNNABLE \<longrightarrow> sint mintime \<le> c j) \<and>
    sint mintime \<le> sint (ticks s) \<and>
    (if \<exists>j<n. p_state (proc_at s j) = RUNNABLE \<and> c j \<le> sint (ticks s)
     then index < n \<and> p_state (proc_at s index) = RUNNABLE \<and> c index = sint mintime
     else index = 0 \<and> mintime = ticks s)"
  using assms(2)
proof (induction n arbitrary: index mintime)
  case 0
  then show ?case by simp
next
  case (Suc n)
  obtain x m where xm: "fold (fcfs_step s) [0..<n] (0, ticks s) = (x, m)" by fastforce
  note IH = Suc.IH[OF xm]
  from Suc.prems xm have step: "fcfs_step s n (x, m) = (index, mintime)" by simp
  show ?case
  proof (cases "p_state (proc_at s n) = RUNNABLE \<and> c n \<le> sint m")
    case True
    then have "index = n" "mintime = p_ctime (proc_at s n)"
      using step by (auto simp: fcfs_step_def c_def word_sle_eq)
    with True IH show ?thesis
      by (auto simp: c_def less_Suc_eq)
  next
    case False
    then have eq: "index = x" "mintime = m"
      using step by (auto simp: fcfs_step_def c_def word_sle_eq split: if_splits)
    show ?thesis
    proof (cases "\<exists>j<n. p_state (proc_at s j) = RUNNABLE \<and> c j \<le> sint (ticks s)")
      case True
      with IH False eq show ?thesis by (auto simp: less_Suc_eq)
    next
      case none: False
      with IH have "m = ticks s" "x = 0" by auto
      with False none IH eq show ?thesis by (auto simp: less_Suc_eq)
    qed
  qed
qed

lemma fcfs_least:
  assumes "runnable s i" and "sint (p_ctime (proc_at s i)) \<le> sint (ticks s)"
  shows "runnable s (fcfs s) \<and>
    (\<forall>j. runnable s j \<longrightarrow> sint (p_ctime (proc_at s (fcfs s))) \<le> sint (p_ctime (proc_at s j)))"
proof -
  obtain x m where xm: "fold (fcfs_step s) [0..<NPROC] (0, ticks s) = (x, m)" by fastforce
  from fcfs_prefix[OF xm] assms have
    "\<forall>j<NPROC. p_state (proc_at s j) = RUNNABLE \<longrightarrow> sint m \<le> sint (p_ctime (proc_at s j))"
    "x < NPROC" "p_state (proc_at s x) = RUNNABLE" "sint (p_ctime (proc_at s x)) = sint m"
    by (auto simp: runnable_def split: if_splits)
  moreover have "fcfs s = x" by (simp add: fcfs_def xm)
  ultimately show ?thesis by (simp add: runnable_def)
qed

subsection \<open>Priorities\<close>

text \<open>The order in which PBS prefers processes: smaller is better, ties go to the next key.\<close>

definition pbs_before :: "proc \<Rightarrow> proc \<Rightarrow> bool" where
  "pbs_before p q \<longleftrightarrow>
     sint (p_dynamic_priority p) < sint (p_dynamic_priority q) \<or>
     sint (p_dynamic_priority p) = sint (p_dynamic_priority q) \<and>
       (sint (p_n_run p) < sint (p_n_run q) \<or>
        sint (p_n_run p) = sint (p_n_run q) \<and> sint (p_ctime p) \<le> sint (p_ctime q))"

lemma pbs_before_refl [simp]: "pbs_before p p"
  by (simp add: pbs_before_def)

lemma pbs_before_trans: "pbs_before p q \<Longrightarrow> pbs_before q r \<Longrightarrow> pbs_before p r"
  by (auto simp: pbs_before_def)

lemma pbs_step_valid:
  assumes "m = p_dynamic_priority (proc_at s x)" and "pbs_step s i (m, x) = (m', x')"
    and "p_state (proc_at s i) = RUNNABLE"
  shows "m' = p_dynamic_priority (proc_at s x') \<and> x' \<in> {i, x} \<and>
    pbs_before (proc_at s x') (proc_at s i) \<and> pbs_before (proc_at s x') (proc_at s x)"
  using assms
  by (auto simp: pbs_step_def pbs_before_def word_sless_alt Let_def cint_eq_sint split: if_splits)

lemma pbs_step_first:
  "p_state (proc_at s i) = RUNNABLE \<Longrightarrow> sint (p_dynamic_priority (proc_at s i)) < 10000 \<Longrightarrow>
    pbs_step s i (10000, x) = (p_dynamic_priority (proc_at s i), i)"
  by (simp add: pbs_step_def word_sless_alt)

lemma pbs_prefix:
  assumes "\<forall>j<n. p_state (proc_at s j) = RUNNABLE \<longrightarrow> sint (p_dynamic_priority (proc_at s j)) < 10000"
    and "fold (pbs_step s) [0..<n] (10000, 1) = (m, x)"
  shows "if \<exists>j<n. p_state (proc_at s j) = RUNNABLE
    then x < n \<and> p_state (proc_at s x) = RUNNABLE \<and> m = p_dynamic_priority (proc_at s x) \<and>
      (\<forall>j<n. p_state (proc_at s j) = RUNNABLE \<longrightarrow> pbs_before (proc_at s x) (proc_at s j))
    else m = 10000 \<and> x = 1"
  using assms
proof (induction n arbitrary: m x)
  case 0
  then show ?case by simp
next
  case (Suc n)
  obtain m0 x0 where f: "fold (pbs_step s) [0..<n] (10000, 1) = (m0, x0)" by fastforce
  have IH: "if \<exists>j<n. p_state (proc_at s j) = RUNNABLE
    then x0 < n \<and> p_state (proc_at s x0) = RUNNABLE \<and> m0 = p_dynamic_priority (proc_at s x0) \<and>
      (\<forall>j<n. p_state (proc_at s j) = RUNNABLE \<longrightarrow> pbs_before (proc_at s x0) (proc_at s j))
    else m0 = 10000 \<and> x0 = 1"
    by (rule Suc.IH) (use Suc.prems(1) f in simp_all)
  from Suc.prems(2) f have step: "pbs_step s n (m0, x0) = (m, x)" by simp
  show ?case
  proof (cases "p_state (proc_at s n) = RUNNABLE")
    case False
    then have "m = m0" "x = x0" using step by (simp_all add: pbs_step_def)
    with IH False show ?thesis by (auto simp: less_Suc_eq split: if_splits)
  next
    case run: True
    show ?thesis
    proof (cases "\<exists>j<n. p_state (proc_at s j) = RUNNABLE")
      case True
      with IH have v: "m0 = p_dynamic_priority (proc_at s x0)" "x0 < n" "p_state (proc_at s x0) = RUNNABLE"
        "\<forall>j<n. p_state (proc_at s j) = RUNNABLE \<longrightarrow> pbs_before (proc_at s x0) (proc_at s j)"
        by simp_all
      from pbs_step_valid[OF v(1) step run] v(2-4) run show ?thesis
        by (auto simp: less_Suc_eq intro: pbs_before_trans)
    next
      case False
      with IH Suc.prems(1) step run have "m = p_dynamic_priority (proc_at s n)" "x = n"
        by (auto simp: pbs_step_first)
      with False run show ?thesis by (auto simp: less_Suc_eq)
    qed
  qed
qed

lemma pbs_least:
  assumes "\<forall>j. runnable s j \<longrightarrow> sint (p_dynamic_priority (proc_at s j)) < 10000" and "runnable s i"
  shows "runnable s (pbs_scheduler s) \<and>
    (\<forall>j. runnable s j \<longrightarrow> pbs_before (proc_at s (pbs_scheduler s)) (proc_at s j))"
proof -
  obtain m x where f: "fold (pbs_step s) [0..<NPROC] (10000, 1) = (m, x)" by fastforce
  with assms pbs_prefix[OF _ f] have "x < NPROC \<and> p_state (proc_at s x) = RUNNABLE \<and>
      (\<forall>j<NPROC. p_state (proc_at s j) = RUNNABLE \<longrightarrow> pbs_before (proc_at s x) (proc_at s j))"
    by (auto simp: runnable_def split: if_splits)
  moreover have "pbs_scheduler s = x" unfolding pbs_scheduler_def f by simp
  ultimately show ?thesis by (simp add: runnable_def)
qed

subsection \<open>One clock tick\<close>

definition ticked :: "bool \<Rightarrow> proc \<Rightarrow> proc" where
  "ticked mine pr =
     (let pr1 = (if p_state pr = RUNNING then pr\<lparr>p_rtime := p_rtime pr + 1\<rparr> else pr);
          pr2 = (if \<not> mine \<and> p_state pr1 = SLEEPING \<and> p_chan pr1 = Some ChanTicks
                 then pr1\<lparr>p_state := RUNNABLE\<rparr> else pr1);
          pr3 = (if mine then pr2\<lparr>p_rtime := p_rtime pr2 + 1,
                                  p_q := (p_q pr2)[plevel pr2 := p_q pr2 ! plevel pr2 + 1],
                                  p_change_queue := p_change_queue pr2 - 1\<rparr> else pr2)
      in clock_proc pr3)"

lemma kproc_ok_ticks [simp]: "kproc_ok (s\<lparr>ticks := t\<rparr>) = kproc_ok s"
  by (simp add: kproc_ok_def hart_ok_def)

lemma myproc_frame [simp]:
  "myproc (s\<lparr>ticks := t\<rparr>) = myproc s" "myproc (upd_proc i f s) = myproc s"
  "kproc_ok s \<Longrightarrow> myproc (for_procs g s) = myproc s"
  by (simp_all add: myproc_def mycpu_def cpuid_def)

lemma proc_at_ticks [simp]: "proc_at (s\<lparr>ticks := t\<rparr>) i = proc_at s i"
  by (simp add: proc_at_def)

lemma proc_at_clockintr:
  assumes "kproc_ok s" and "i < NPROC"
  shows "proc_at (clockintr s) i = ticked (myproc s = Some i) (proc_at s i)"
proof -
  have len: "i < length (procs s)" using assms by (simp add: kproc_ok_def)
  show ?thesis
    using assms len
    by (auto simp: clockintr_def wakeup_def update_time_def ticked_def proc_at_for_procs Let_def
        split: option.split)
qed

lemma cmin_sint: "sint (cmin a b) = min (sint a) (sint b)"
  by (simp add: cmin_def word_sless_alt min_def)

lemma cmax_sint: "sint (cmax a b) = max (sint a) (sint b)"
  by (simp add: cmax_def word_sless_alt max_def)

text \<open>Every tick leaves every dynamic priority between 0 and 100.\<close>

lemma clock_proc_priority:
  "0 \<le> sint (p_dynamic_priority (clock_proc pr)) \<and> sint (p_dynamic_priority (clock_proc pr)) \<le> 100"
  by (simp add: clock_proc_def Let_def cmin_sint cmax_sint)

lemma ticked_clock: "\<exists>pr'. ticked mine pr = clock_proc pr'"
  unfolding ticked_def Let_def by blast

text \<open>
  The quotient in the niceness formula is an integer division of a number by a larger one, so
  it is 1 for a process that slept and never ran, 0 for one that ran, and the \<open>divw\<close> of zero by
  zero, \<open>-1\<close>, for one that did neither.
\<close>

lemma divw_fraction:
  assumes "0 \<le> sint a" "0 \<le> sint b" "sint a + sint b < 2 ^ 31"
  shows "divw a (a + b) = (if sint a = 0 \<and> sint b = 0 then -1 else if sint b = 0 then 1 else 0)"
proof -
  have sum: "sint (a + b) = sint a + sint b"
    using assms by (intro sint_add) simp_all
  then have "a + b = 0 \<longleftrightarrow> sint a = 0 \<and> sint b = 0"
    using assms by (simp add: cint_eq_sint add_nonneg_eq_0_iff)
  moreover have "sint a sdiv (sint a + sint b) = (if sint b = 0 then 1 else 0)"
    if "\<not> (sint a = 0 \<and> sint b = 0)"
    using that assms by (auto simp: signed_divide_int_def sgn_if div_pos_pos_trivial)
  ultimately show ?thesis
    by (auto simp: divw_def sum)
qed

text \<open>
  A process that runs through a tick has a positive run time, so its niceness is 0 and its
  dynamic priority is its static priority plus 5, at most 100.
\<close>

lemma clock_proc_running:
  assumes "p_state pr = RUNNING" "0 \<le> sint (p_sleep_time pr)" "0 \<le> sint (p_rtime pr)"
    "sint (p_sleep_time pr) + sint (p_rtime pr) < 2 ^ 31 - 1"
    "0 \<le> sint (p_static_priority pr)" "sint (p_static_priority pr) \<le> 100"
  shows "p_niceness (clock_proc pr) = 0"
    and "sint (p_dynamic_priority (clock_proc pr)) = min (sint (p_static_priority pr) + 5) 100"
proof -
  have rt: "sint (p_rtime pr + 1) = sint (p_rtime pr) + 1"
    using assms by (subst sint_add) simp_all
  then have "divw (p_sleep_time pr) (p_sleep_time pr + (p_rtime pr + 1)) = 0"
    using assms by (subst divw_fraction) simp_all
  then have n: "clock_proc pr = pr\<lparr>p_rtime := p_rtime pr + 1, p_niceness := 0,
      p_dynamic_priority := cmax 0 (cmin (p_static_priority pr + 5) 100)\<rparr>"
    using assms(1) by (simp add: clock_proc_def Let_def)
  then show "p_niceness (clock_proc pr) = 0" by simp
  have "sint (p_static_priority pr + 5) = sint (p_static_priority pr) + 5"
    using assms by (subst sint_add) simp_all
  with n assms show "sint (p_dynamic_priority (clock_proc pr)) = min (sint (p_static_priority pr) + 5) 100"
    by (simp add: cmax_sint cmin_sint)
qed

subsection \<open>Dispatch\<close>

definition dispatched :: "uint \<Rightarrow> proc \<Rightarrow> proc" where
  "dispatched t pr =
     pr\<lparr>p_static_priority := p_dynamic_priority pr, p_niceness := 5, p_sleep_time := 0,
        p_change_queue := push_bit (plevel pr) 1,
        p_q := (p_q pr)[plevel pr := p_q pr ! plevel pr + 1],
        p_state := RUNNING, p_q_enter := t, p_n_run := p_n_run pr + 1\<rparr>"

lemma find_upt_unique:
  assumes "i < n" and "P i" and "\<forall>j<n. P j \<longrightarrow> j = i"
  shows "find P [0..<n] = Some i"
proof -
  have before: "\<not> P j" if "j < i" for j
  proof
    assume "P j"
    moreover have "j < n" using that assms(1) by simp
    ultimately show False using assms(3) that by blast
  qed
  show ?thesis
    unfolding find_Some_iff using assms(1,2) before by (intro exI[of _ i]) simp
qed

lemma upd_mycpu_proc_at [simp]:
  "proc_at (upd_mycpu f s) i = proc_at s i" "ticks (upd_mycpu f s) = ticks s"
  "mlfq (upd_mycpu f s) = mlfq s" "procs (upd_mycpu f s) = procs s" "kproc_ok (upd_mycpu f s) = kproc_ok s"
  by (simp_all add: proc_at_def upd_mycpu_def kproc_ok_def hart_ok_def)

lemma proc_at_sched_dispatch:
  assumes "kproc_ok s" and "i < NPROC" and "j < NPROC"
    and "\<forall>j<NPROC. p_pid (proc_at s j) = p_pid (proc_at s i) \<longrightarrow> j = i"
  shows "proc_at (sched_dispatch i s) j =
      (if j = i then dispatched (ticks s) (proc_at s i) else proc_at s j)"
    and "myproc (sched_dispatch i s) = Some i"
proof -
  have "find (\<lambda>j. p_pid (proc_at s j) = p_pid (proc_at s i)) [0..<NPROC] = Some i"
    using assms(2,4) by (intro find_upt_unique) auto
  then have d: "sched_dispatch i s =
      upd_proc i (\<lambda>pr. pr\<lparr>p_q_enter := ticks s, p_n_run := p_n_run pr + 1\<rparr>)
       (upd_mycpu (\<lambda>c. c\<lparr>c_proc := Some i\<rparr>)
         (upd_proc i (\<lambda>pr. pr\<lparr>p_change_queue := push_bit (plevel pr) 1,
                               p_q := (p_q pr)[plevel pr := p_q pr ! plevel pr + 1], p_state := RUNNING\<rparr>)
           (upd_proc i (\<lambda>pr. pr\<lparr>p_static_priority := p_dynamic_priority (proc_at s i),
                                 p_niceness := 5, p_sleep_time := 0\<rparr>) s)))"
    by (simp add: sched_dispatch_def actually_set_priority_def)
  have len: "length (procs s) = NPROC" "hart_ok s" using assms(1) by (simp_all add: kproc_ok_def)
  then show "proc_at (sched_dispatch i s) j =
      (if j = i then dispatched (ticks s) (proc_at s i) else proc_at s j)"
    using assms(2,3) by (auto simp: d dispatched_def plevel_def)
  show "myproc (sched_dispatch i s) = Some i"
    using len(2) unfolding d by (simp add: myproc_def mycpu_def cpuid_def upd_mycpu_def hart_ok_def)
qed

lemma kproc_ok_sched_dispatch: "kproc_ok s \<Longrightarrow> kproc_ok (sched_dispatch i s)"
  by (simp add: sched_dispatch_def actually_set_priority_def split_def Let_def split: option.split)

text \<open>What every dispatch does to the process that gets the CPU, whatever the pids in the table are.\<close>

lemma sched_dispatch_runs:
  assumes "kproc_ok s" "i < NPROC"
  shows "myproc (sched_dispatch i s) = Some i" "p_state (proc_at (sched_dispatch i s) i) = RUNNING"
    and "p_level (proc_at (sched_dispatch i s) i) = p_level (proc_at s i)"
    and "p_change_queue (proc_at (sched_dispatch i s) i) = push_bit (plevel (proc_at s i)) 1"
proof -
  let ?s1 = "snd (actually_set_priority (p_dynamic_priority (proc_at s i)) (p_pid (proc_at s i)) s)"
  have k: "kproc_ok ?s1" "p_level (proc_at ?s1 i) = p_level (proc_at s i)"
    using assms by (auto simp: actually_set_priority_def kproc_ok_def[of s] split: option.split)
  then have l: "length (procs ?s1) = NPROC" "hart_ok ?s1" by (simp_all add: kproc_ok_def)
  show "myproc (sched_dispatch i s) = Some i"
    using l by (simp add: sched_dispatch_def Let_def split_def myproc_def mycpu_def cpuid_def upd_mycpu_def hart_ok_def)
  show "p_state (proc_at (sched_dispatch i s) i) = RUNNING" "p_level (proc_at (sched_dispatch i s) i) = p_level (proc_at s i)"
    "p_change_queue (proc_at (sched_dispatch i s) i) = push_bit (plevel (proc_at s i)) 1"
    using l k(2) assms(2) by (simp_all add: sched_dispatch_def Let_def split_def plevel_def)
qed

subsection \<open>The feedback-queue time slice\<close>

text \<open>A timer interrupt on hart 0 while process \<open>i\<close> runs there.\<close>

definition mlfq_tick :: "nat \<Rightarrow> 'a kproc_scheme \<Rightarrow> 'a kproc_scheme" where
  "mlfq_tick i s = timer_yield MLFQ i (clockintr s)"

lemma kproc_ok_clockintr [simp]: "kproc_ok s \<Longrightarrow> kproc_ok (clockintr s)"
  by (simp add: clockintr_def wakeup_def update_time_def Let_def split: option.split)

lemma myproc_clockintr [simp]: "kproc_ok s \<Longrightarrow> myproc (clockintr s) = myproc s"
  by (simp add: clockintr_def wakeup_def update_time_def Let_def split: option.split)

lemma timer_yield_frame [simp]:
  "kproc_ok (timer_yield pol i s) = kproc_ok s" "myproc (timer_yield pol i s) = myproc s"
  by (simp_all add: timer_yield_def yield_def Let_def split: policy.split)

lemma mlfq_tick_frame [simp]:
  "kproc_ok s \<Longrightarrow> kproc_ok (mlfq_tick i s)" "kproc_ok s \<Longrightarrow> myproc (mlfq_tick i s) = myproc s"
  by (simp_all add: mlfq_tick_def)

lemma ticked_mine:
  "p_state pr = RUNNING \<Longrightarrow> p_state (ticked True pr) = RUNNING \<and> p_level (ticked True pr) = p_level pr \<and>
    p_change_queue (ticked True pr) = p_change_queue pr - 1 \<and> p_rtime (ticked True pr) = p_rtime pr + 3"
  by (simp add: ticked_def clock_proc_def Let_def)

lemma mlfq_tick_proc:
  assumes "kproc_ok s" "i < NPROC" "myproc s = Some i" "p_state (proc_at s i) = RUNNING"
  shows "proc_at (mlfq_tick i s) i =
    (let pr = ticked True (proc_at s i)
     in if p_change_queue pr \<le>s 0
        then (if p_level pr + 1 \<noteq> 5 then pr\<lparr>p_level := p_level pr + 1\<rparr> else pr)\<lparr>p_state := RUNNABLE\<rparr>
        else pr)"
proof -
  have len: "i < length (procs (clockintr s))"
    using kproc_ok_clockintr[OF assms(1)] assms(2) by (simp add: kproc_ok_def)
  show ?thesis
    using len by (simp add: mlfq_tick_def timer_yield_def yield_def proc_at_clockintr[OF assms(1,2)]
        assms(3) Let_def)
qed

lemma mlfq_tick_running:
  assumes "kproc_ok s" "i < NPROC" "myproc s = Some i" "p_state (proc_at s i) = RUNNING"
    and "p_change_queue (proc_at s i) = word_of_nat (Suc (Suc n))" "Suc (Suc n) < 2 ^ 31"
  shows "p_state (proc_at (mlfq_tick i s) i) = RUNNING"
    and "p_level (proc_at (mlfq_tick i s) i) = p_level (proc_at s i)"
    and "p_change_queue (proc_at (mlfq_tick i s) i) = word_of_nat (Suc n)"
proof -
  let ?pr = "ticked True (proc_at s i)"
  note t = ticked_mine[OF assms(4)]
  have c: "p_change_queue ?pr = word_of_nat (Suc n)" using t assms(5) by simp
  have "\<not> p_change_queue ?pr \<le>s 0"
    using sint_word_of_nat[of "Suc n"] assms(6) by (simp add: c word_sle_eq del: of_nat_Suc)
  then have "proc_at (mlfq_tick i s) i = ?pr"
    by (simp add: mlfq_tick_proc[OF assms(1-4)])
  with t c show "p_state (proc_at (mlfq_tick i s) i) = RUNNING"
    "p_level (proc_at (mlfq_tick i s) i) = p_level (proc_at s i)"
    "p_change_queue (proc_at (mlfq_tick i s) i) = word_of_nat (Suc n)"
    by simp_all
qed

lemma mlfq_tick_last:
  assumes "kproc_ok s" "i < NPROC" "myproc s = Some i" "p_state (proc_at s i) = RUNNING"
    and "p_change_queue (proc_at s i) = 1"
  shows "p_state (proc_at (mlfq_tick i s) i) = RUNNABLE"
    and "p_level (proc_at (mlfq_tick i s) i) =
      (if p_level (proc_at s i) + 1 \<noteq> 5 then p_level (proc_at s i) + 1 else p_level (proc_at s i))"
  using ticked_mine[OF assms(4)] assms(5)
  by (simp_all add: mlfq_tick_proc[OF assms(1-4)] Let_def word_sle_eq)

lemma mlfq_slice:
  assumes "kproc_ok s" "i < NPROC" "myproc s = Some i" "p_state (proc_at s i) = RUNNING"
    and "p_change_queue (proc_at s i) = word_of_nat m" "m < 2 ^ 31" "n < m"
  shows "kproc_ok ((mlfq_tick i ^^ n) s) \<and> myproc ((mlfq_tick i ^^ n) s) = Some i \<and>
    p_state (proc_at ((mlfq_tick i ^^ n) s) i) = RUNNING \<and>
    p_level (proc_at ((mlfq_tick i ^^ n) s) i) = p_level (proc_at s i) \<and>
    p_change_queue (proc_at ((mlfq_tick i ^^ n) s) i) = word_of_nat (m - n)"
  using assms(7)
proof (induction n)
  case 0
  with assms show ?case by simp
next
  case (Suc n)
  let ?s = "(mlfq_tick i ^^ n) s"
  from Suc have IH: "kproc_ok ?s" "myproc ?s = Some i" "p_state (proc_at ?s i) = RUNNING"
    "p_level (proc_at ?s i) = p_level (proc_at s i)"
    "p_change_queue (proc_at ?s i) = word_of_nat (m - n)" by simp_all
  obtain k where k: "m - n = Suc (Suc k)" "m - Suc n = Suc k"
    using Suc.prems by (metis Suc_diff_Suc Suc_lessD)
  have "Suc (Suc k) < 2 ^ 31" using k assms(6) by linarith
  with mlfq_tick_running[OF IH(1) assms(2) IH(2,3), of k] IH k show ?case
    by simp
qed

text \<open>An iteration of the scheduler loop under MLFQ that dispatches a process.\<close>

lemma mlfq_inv_intr_on: "mlfq_inv s \<Longrightarrow> mlfq_inv (intr_on s)"
  by (simp add: intr_on_def mlfq_inv_def queue_of_def)

lemma mlfq_iter_runs:
  assumes "mlfq_inv s" "i < NPROC" "p_state (proc_at s i) = RUNNABLE"
  obtains j t where "scheduler_iter MLFQ s = Ok (Some j, t)"
proof -
  let ?s = "intr_on s"
  note inv = mlfq_inv_intr_on[OF assms(1)]
  from mlfq_scheduler_ok[OF inv] obtain u where u: "mlfq_scheduler ?s = Ok (mlfq_choice ?s, u)"
    "\<forall>i<NPROC. proc_at u i = (if mlfq_choice ?s = Some i then picked (ticks ?s) else id) (queued (aged (ticks ?s) (proc_at ?s i)))" by blast
  obtain j where j: "mlfq_choice ?s = Some j"
    using mlfq_choice_None[OF inv] assms(2,3) by (cases "mlfq_choice ?s") (auto simp: intr_on_def)
  then have "p_state (proc_at u j) = RUNNABLE"
    using u(2) mlfq_choice_Some[OF inv j] by (simp add: picked_def aged_def)
  then show thesis using that u(1) j by (simp add: scheduler_iter_def sched_pick_def)
qed

lemma mlfq_iter_choice:
  assumes "mlfq_inv s" "scheduler_iter MLFQ s = Ok (Some i, t)"
  shows "i < NPROC \<and> p_state (proc_at s i) = RUNNABLE \<and> (\<forall>j<NPROC. p_state (proc_at s j) = RUNNABLE \<longrightarrow>
      plevel (aged (ticks s) (proc_at s i)) \<le> plevel (aged (ticks s) (proc_at s j)))"
    and "\<exists>u. t = sched_dispatch i u \<and> kproc_ok u \<and> plevel (proc_at u i) = plevel (aged (ticks s) (proc_at s i))"
proof -
  let ?s = "intr_on s"
  note inv = mlfq_inv_intr_on[OF assms(1)]
  from mlfq_scheduler_ok[OF inv] obtain u where u: "mlfq_scheduler ?s = Ok (mlfq_choice ?s, u)" "mlfq_inv u"
    "\<forall>i<NPROC. proc_at u i = (if mlfq_choice ?s = Some i then picked (ticks ?s) else id) (queued (aged (ticks ?s) (proc_at ?s i)))" by blast
  have ch: "mlfq_choice ?s = Some i" "t = sched_dispatch i u"
    using assms(2) u(1) by (auto simp: scheduler_iter_def sched_pick_def split: option.splits if_splits)
  note c = mlfq_choice_Some[OF inv ch(1)]
  then show "i < NPROC \<and> p_state (proc_at s i) = RUNNABLE \<and> (\<forall>j<NPROC. p_state (proc_at s j) = RUNNABLE \<longrightarrow>
      plevel (aged (ticks s) (proc_at s i)) \<le> plevel (aged (ticks s) (proc_at s j)))" by (simp add: intr_on_def)
  have "plevel (proc_at u i) = plevel (queued (aged (ticks ?s) (proc_at ?s i)))"
    using u(3) c ch(1) by (simp add: picked_def plevel_def)
  then show "\<exists>u. t = sched_dispatch i u \<and> kproc_ok u \<and> plevel (proc_at u i) = plevel (aged (ticks s) (proc_at s i))"
    using ch(2) mlfq_invD(1)[OF u(2)] by (auto simp: intr_on_def)
qed

lemma mlfq_iter_dispatch:
  assumes "mlfq_inv s" "scheduler_iter MLFQ s = Ok (Some i, t)"
  shows "kproc_ok t" "i < NPROC" "myproc t = Some i" "p_state (proc_at t i) = RUNNING"
    and "p_change_queue (proc_at t i) = word_of_nat (2 ^ plevel (aged (ticks s) (proc_at s i)))"
    and "plevel (proc_at t i) = plevel (aged (ticks s) (proc_at s i))" "plevel (aged (ticks s) (proc_at s i)) < NMLFQ"
proof -
  obtain u where u: "t = sched_dispatch i u" "kproc_ok u" "plevel (proc_at u i) = plevel (aged (ticks s) (proc_at s i))"
    using mlfq_iter_choice(2)[OF assms] by blast
  show i: "i < NPROC" using mlfq_iter_choice(1)[OF assms] by simp
  note d = sched_dispatch_runs[OF u(2) i]
  show "kproc_ok t" "myproc t = Some i" "p_state (proc_at t i) = RUNNING" using d u(1) kproc_ok_sched_dispatch[OF u(2)] by simp_all
  show "p_change_queue (proc_at t i) = word_of_nat (2 ^ plevel (aged (ticks s) (proc_at s i)))"
    "plevel (proc_at t i) = plevel (aged (ticks s) (proc_at s i))" using d u(1,3) by (simp_all add: plevel_def push_bit_eq_mult)
  show "plevel (aged (ticks s) (proc_at s i)) < NMLFQ" by (rule plevel_aged_bound[OF assms(1) i])
qed

subsection \<open>Properties\<close>

text \<open>
  C20. FCFS selects a runnable process of least creation time whenever there is a runnable
  process whose creation time is not after the current tick.
\<close>

theorem fcfs_selects_oldest:
  assumes "runnable s i" and "sint (p_ctime (proc_at s i)) \<le> sint (ticks s)"
  shows "runnable s (fcfs s) \<and>
    (\<forall>j. runnable s j \<longrightarrow> sint (p_ctime (proc_at s (fcfs s))) \<le> sint (p_ctime (proc_at s j)))"
  using assms by (rule fcfs_least)

lemma example_runnable: "runnable example_kproc i \<longleftrightarrow> i = 1 \<or> i = 5"
  by (auto simp: runnable_def example_kproc_at proc_zero_def split: if_splits)

theorem fcfs_selects_oldest_witness: "fcfs example_kproc = 1"
proof -
  have "runnable example_kproc (fcfs example_kproc) \<and> (\<forall>j. runnable example_kproc j \<longrightarrow>
      sint (p_ctime (proc_at example_kproc (fcfs example_kproc))) \<le> sint (p_ctime (proc_at example_kproc j)))"
    by (rule fcfs_selects_oldest[of example_kproc 1])
      (simp_all add: example_runnable example_kproc_at, simp add: example_kproc_def proc_zero_def)
  then show ?thesis
    by (auto simp: example_runnable example_kproc_at proc_zero_def)
qed

text \<open>
  C19. PBS selects a runnable process that no other runnable process precedes in the order
  of dynamic priority, then number of runs, then creation time, for any table whose runnable
  processes have dynamic priorities below 10000.
\<close>

theorem pbs_selects_minimum:
  assumes "\<forall>j. runnable s j \<longrightarrow> sint (p_dynamic_priority (proc_at s j)) < 10000" and "runnable s i"
  shows "runnable s (pbs_scheduler s) \<and>
    (\<forall>j. runnable s j \<longrightarrow> pbs_before (proc_at s (pbs_scheduler s)) (proc_at s j))"
  using assms by (rule pbs_least)

theorem pbs_selects_minimum_witness: "pbs_scheduler example_kproc = 5"
proof -
  have "runnable example_kproc (pbs_scheduler example_kproc) \<and> (\<forall>j. runnable example_kproc j \<longrightarrow>
      pbs_before (proc_at example_kproc (pbs_scheduler example_kproc)) (proc_at example_kproc j))"
    by (rule pbs_selects_minimum[of example_kproc 1]) (auto simp: example_runnable example_kproc_at)
  then show ?thesis
    by (auto simp: example_runnable example_kproc_at pbs_before_def)
qed

text \<open>
  C30. The round-robin cursor is fair: from any cursor within the table, the next NPROC picks
  visit every slot of the process table, in order, each exactly once.
\<close>

theorem round_robin_fair:
  assumes "unat (alpha s) < NPROC"
  shows "rr_picks NPROC s = map (\<lambda>k. (unat (alpha s) + Suc k) mod NPROC) [0..<NPROC] \<and>
    (\<forall>i<NPROC. i \<in> set (rr_picks NPROC s))"
  using rr_picks_eq[OF assms] rr_visits[OF assms] by blast

theorem round_robin_fair_witness: "63 \<in> set (rr_picks NPROC (kproc_boot 3))"
proof -
  have "unat (alpha (kproc_boot 3)) < NPROC" by (simp add: kproc_boot_def)
  from round_robin_fair[OF this] have "\<forall>i<NPROC. i \<in> set (rr_picks NPROC (kproc_boot 3))" ..
  then show ?thesis by (rule allE[of _ 63]) simp
qed

text \<open>
  C32. After a clock interrupt every entry of the process table has a dynamic priority between 0
  and 100, whatever the fields were before.
\<close>

theorem clock_priority_range:
  assumes "kproc_ok s" and "i < NPROC"
  shows "0 \<le> sint (p_dynamic_priority (proc_at (clockintr s) i)) \<and>
    sint (p_dynamic_priority (proc_at (clockintr s) i)) \<le> 100"
  using proc_at_clockintr[OF assms] ticked_clock[of "myproc s = Some i" "proc_at s i"]
    clock_proc_priority by metis

theorem clock_priority_range_witness:
  "sint (p_dynamic_priority (proc_at (clockintr example_kproc) 1)) \<le> 100"
  using clock_priority_range[of example_kproc 1] mlfq_invD(1)[OF example_kproc_inv] by simp

text \<open>
  C18. The MLFQ time slice: when an iteration of the scheduler loop on hart 0 dispatches process \<open>i\<close>, at the level \<open>L\<close> that ageing
  has left it, the process keeps the CPU and its level through its first \<open>2^L - 1\<close> timer interrupts, and at timer interrupt number
  \<open>2^L\<close> it gives up the CPU and moves one level down, unless it already is at the last level.
\<close>

theorem mlfq_slice_length:
  assumes "mlfq_inv s" "scheduler_iter MLFQ s = Ok (Some i, t)" "L = plevel (aged (ticks s) (proc_at s i))" "n < 2 ^ L"
  shows "p_state (proc_at ((mlfq_tick i ^^ n) t) i) = RUNNING \<and> plevel (proc_at ((mlfq_tick i ^^ n) t) i) = L \<and>
    p_state (proc_at ((mlfq_tick i ^^ 2 ^ L) t) i) = RUNNABLE \<and>
    plevel (proc_at ((mlfq_tick i ^^ 2 ^ L) t) i) = min (Suc L) (NMLFQ - 1)"
proof -
  note t = mlfq_iter_dispatch[OF assms(1,2)]
  have L: "L < NMLFQ" "plevel (proc_at t i) = L" using t assms(3) by simp_all
  have m: "0 < (2 :: nat) ^ L" "(2 :: nat) ^ L < 2 ^ 31" using L(1) power_strict_increasing[of L 31 "2 :: nat"] by auto
  note sl = mlfq_slice[OF t(1,2,3,4) t(5)[folded assms(3)] m(2)]
  let ?s = "(mlfq_tick i ^^ (2 ^ L - 1)) t"
  have last: "kproc_ok ?s" "myproc ?s = Some i" "p_state (proc_at ?s i) = RUNNING"
    "p_level (proc_at ?s i) = p_level (proc_at t i)" "p_change_queue (proc_at ?s i) = 1"
    using sl[of "2 ^ L - 1"] m by simp_all
  have step: "(mlfq_tick i ^^ 2 ^ L) t = mlfq_tick i ?s"
    using m(1) by (metis One_nat_def Suc_pred comp_apply funpow.simps(2))
  note fin = mlfq_tick_last[OF last(1) t(2) last(2,3,5)]
  have "L \<in> {0, 1, 2, 3, 4}" "p_level (proc_at t i) = word_of_nat L" using L by (auto simp: plevel_def)
  then have "plevel (proc_at ((mlfq_tick i ^^ 2 ^ L) t) i) = min (Suc L) (NMLFQ - 1)"
    using fin(2) step last(4) by (auto simp: plevel_def)
  with sl[OF assms(4)] fin(1) step L(2) show ?thesis by (simp add: plevel_def)
qed

text \<open>Two runnable processes of levels 2 and 1, neither of which has waited long enough to be aged.\<close>

definition example_fresh :: kproc where
  "example_fresh = example_kproc\<lparr>ticks := 7\<rparr>"

lemma example_fresh_facts:
  "mlfq_inv example_fresh" "ticks example_fresh = 7" "proc_at example_fresh i = proc_at example_kproc i"
  using example_kproc_inv
  by (simp_all add: example_fresh_def mlfq_inv_def kproc_ok_def hart_ok_def proc_at_def queue_of_def)

theorem mlfq_slice_length_witness:
  "\<exists>t. scheduler_iter MLFQ example_fresh = Ok (Some 5, t) \<and> p_state (proc_at (mlfq_tick 5 t) 5) = RUNNING \<and>
   p_state (proc_at (mlfq_tick 5 (mlfq_tick 5 t)) 5) = RUNNABLE \<and> plevel (proc_at (mlfq_tick 5 (mlfq_tick 5 t)) 5) = 2"
proof -
  have lv: "plevel (aged 7 (proc_at example_fresh 5)) = 1" "plevel (aged 7 (proc_at example_fresh 1)) = 2"
    by (simp_all add: example_fresh_facts(3) example_kproc_at aged_def expired_def proc_zero_def plevel_def)
  have run: "p_state (proc_at example_fresh j) = RUNNABLE \<longleftrightarrow> j = 1 \<or> j = 5" if "j < NPROC" for j
    using that by (simp add: example_fresh_facts(3) example_kproc_at proc_zero_def)
  obtain i t where it: "scheduler_iter MLFQ example_fresh = Ok (Some i, t)"
    using mlfq_iter_runs[OF example_fresh_facts(1), of 5] run[of 5] by auto
  note c = mlfq_iter_choice(1)[OF example_fresh_facts(1) it, unfolded example_fresh_facts(2)]
  then have "plevel (aged 7 (proc_at example_fresh i)) \<le> plevel (aged 7 (proc_at example_fresh 5))" using run[of 5] by simp
  with c have "i < NPROC" "p_state (proc_at example_fresh i) = RUNNABLE" "plevel (aged 7 (proc_at example_fresh i)) \<le> 1"
    using lv by simp_all
  then have i: "i = 5" using run[of i] lv by auto
  show ?thesis
    using mlfq_slice_length[OF example_fresh_facts(1) it, of 1 1] it lv(1) example_fresh_facts(2) i
    by (simp add: numeral_2_eq_2)
qed

text \<open>A dispatched process of level 2 on hart 0.\<close>

definition example_running :: kproc where
  "example_running = (kproc_boot 1)\<lparr>cpus := [cpu_zero\<lparr>c_proc := Some 3\<rparr>],
     procs := (replicate NPROC proc_zero)[3 := dispatched 7 (proc_zero\<lparr>p_level := 2, p_pid := 4\<rparr>)]\<rparr>"

lemma example_running_facts:
  "kproc_ok example_running" "myproc example_running = Some 3"
  "proc_at example_running 3 = dispatched 7 (proc_zero\<lparr>p_level := 2, p_pid := 4\<rparr>)"
  by (simp_all add: example_running_def kproc_ok_def kproc_boot_def hart_ok_def myproc_def mycpu_def
      cpuid_def proc_at_def)

text \<open>
  C34. Time accounting of the running process: a clock tick taken on the hart that runs a process
  adds 3 to its run time, once in \<^verbatim>\<open>update_time\<close> and twice in \<^verbatim>\<open>clockintr\<close>; a running process of
  another hart gains 2, and a process that is not running gains nothing.
\<close>

theorem clock_runtime:
  assumes "kproc_ok s" and "i < NPROC" and "myproc s = Some i \<Longrightarrow> p_state (proc_at s i) = RUNNING"
  shows "p_rtime (proc_at (clockintr s) i) = p_rtime (proc_at s i) +
    (if p_state (proc_at s i) \<noteq> RUNNING then 0 else if myproc s = Some i then 3 else 2)"
  using assms(3) by (auto simp: proc_at_clockintr[OF assms(1,2)] ticked_def clock_proc_def Let_def)

theorem clock_runtime_witness:
  "p_rtime (proc_at (clockintr example_running) 3) = 3"
  using clock_runtime[OF example_running_facts(1), of 3] example_running_facts(2,3)
  by (simp add: dispatched_def proc_zero_def)

text \<open>
  C33. Under PBS the dispatch of a process overwrites the static priority it was given with its
  dynamic priority, so a process that is dispatched and then runs through a clock tick has its
  dynamic priority number raised by 5, up to 100, at every such round: the priority asked for
  with \<^verbatim>\<open>set_priority\<close> does not persist.
\<close>

theorem pbs_priority_ratchet:
  assumes "kproc_ok s" "i < NPROC"
    and "\<forall>j<NPROC. p_pid (proc_at s j) = p_pid (proc_at s i) \<longrightarrow> j = i"
    and "0 \<le> sint (p_dynamic_priority (proc_at s i))" "sint (p_dynamic_priority (proc_at s i)) \<le> 100"
    and "0 \<le> sint (p_rtime (proc_at s i))" "sint (p_rtime (proc_at s i)) < 2 ^ 31 - 4"
  shows "p_static_priority (proc_at (clockintr (sched_dispatch i s)) i) = p_dynamic_priority (proc_at s i) \<and>
    sint (p_dynamic_priority (proc_at (clockintr (sched_dispatch i s)) i)) =
      min (sint (p_dynamic_priority (proc_at s i)) + 5) 100"
proof -
  let ?d = "dispatched (ticks s) (proc_at s i)"
  let ?pr = "?d\<lparr>p_rtime := p_rtime ?d + 1 + 1,
    p_q := (p_q ?d)[plevel ?d := p_q ?d ! plevel ?d + 1], p_change_queue := p_change_queue ?d - 1\<rparr>"
  note D = proc_at_sched_dispatch[OF assms(1,2,2,3)]
  have "kproc_ok (sched_dispatch i s)" by (rule kproc_ok_sched_dispatch[OF assms(1)])
  then have "proc_at (clockintr (sched_dispatch i s)) i = ticked True ?d"
    using D assms(2) by (simp add: proc_at_clockintr)
  also have "\<dots> = clock_proc ?pr"
    by (simp add: ticked_def dispatched_def Let_def plevel_def)
  finally have c: "proc_at (clockintr (sched_dispatch i s)) i = clock_proc ?pr" .
  have rt: "sint (2 + p_rtime (proc_at s i)) = 2 + sint (p_rtime (proc_at s i))"
    using assms(6,7) by (subst sint_add) simp_all
  have "sint (p_dynamic_priority (clock_proc ?pr)) = min (sint (p_static_priority ?pr) + 5) 100"
    by (rule clock_proc_running) (use assms rt in \<open>simp_all add: dispatched_def\<close>)
  moreover have "p_static_priority (clock_proc ?pr) = p_static_priority ?pr"
    by (simp add: clock_proc_def Let_def)
  ultimately show ?thesis
    by (simp add: c dispatched_def)
qed

theorem pbs_priority_ratchet_witness:
  "p_static_priority (proc_at (clockintr (sched_dispatch 1 example_kproc)) 1) = 60 \<and>
   sint (p_dynamic_priority (proc_at (clockintr (sched_dispatch 1 example_kproc)) 1)) = 65"
  using pbs_priority_ratchet[of example_kproc 1] mlfq_invD(1)[OF example_kproc_inv]
  by (simp add: example_kproc_at proc_zero_def split: if_splits)

end
