(* ===== verification/Xv6_Pipelive.thy ===== *)
theory Xv6_Pipelive
  imports Xv6_Pipe Xv6_Policy
begin

section \<open>Pipes make progress\<close>

text \<open>
  A writer and a reader on one CPU under an arbitrary scheduler that respects the process states: it dispatches one of them only
  while it is RUNNABLE, so a process that sleeps runs again only after a \<open>wakeup\<close> on its channel. No wakeup is lost: every schedule
  transfers all bytes.
\<close>

subsection \<open>A turn\<close>

text \<open>
  \<open>sched_dispatch\<close> switches to the process. Its turn is the rest of \<open>pipewrite\<close> or a pass of \<open>piperead\<close>, both under the lock of the
  pipe, and ends in \<open>sleep\<close>, or the call returns and a timer interrupt makes the process yield. Then the scheduler goes on behind its
  \<^verbatim>\<open>swtch\<close>. The reader calls \<^verbatim>\<open>read(fd, dst, m)\<close> again and again and looks at its buffer after each call that returns;
  \<open>sleep_end\<close> at the start of its turn changes nothing when it did not sleep. A configuration has what the reader has got,
  what the call of the writer has come to, and the state of the kernel.
\<close>

definition end_turn :: "nat \<Rightarrow> pipeio \<Rightarrow> 'a kproc_scheme \<Rightarrow> 'a kproc_scheme" where
  "end_turn p res s = sched_return (case res of PipeDone _ \<Rightarrow> yield p s | PipeSleep _ _ \<Rightarrow> s)"

inductive pipe_step :: "uint64 \<Rightarrow> nat \<Rightarrow> nat \<Rightarrow> uint64 \<Rightarrow> uint64 \<Rightarrow> cint \<Rightarrow>
    uchar list \<times> pipeio \<times> 'a kfile_scheme \<Rightarrow> uchar list \<times> pipeio \<times> 'a kfile_scheme \<Rightarrow> bool"
  for pi w r addr dst m where
  writer_step: "p_state (proc_at s w) = RUNNABLE \<Longrightarrow> pipewrite_resume pi w addr i k (sched_dispatch w s) = Ok (out, t) \<Longrightarrow>
     pipe_step pi w r addr dst m (got, PipeSleep i k, s) (got, out, end_turn w out t)"
| reader_sleeps: "p_state (proc_at s r) = RUNNABLE \<Longrightarrow>
     piperead_pass pi r dst m (sleep_end r (sched_dispatch r s)) = Ok (PipeSleep i k, t) \<Longrightarrow>
     pipe_step pi w r addr dst m (got, out, s) (got, out, end_turn r (PipeSleep i k) t)"
| reader_step: "p_state (proc_at s r) = RUNNABLE \<Longrightarrow>
     piperead_pass pi r dst m (sleep_end r (sched_dispatch r s)) = Ok (PipeDone v, t) \<Longrightarrow>
     copyin (p_pagetable (proc_at t r)) dst (nat (sint v)) (km t) = Ok (0, bs) \<Longrightarrow>
     pipe_step pi w r addr dst m (got, out, s) (got @ bs, out, end_turn r (PipeDone v) t)"

subsection \<open>What a turn does to the process table\<close>

definition same_table :: "'a kproc_scheme \<Rightarrow> 'a kproc_scheme \<Rightarrow> bool" where
  "same_table s t \<longleftrightarrow> procs t = procs s \<and> cpus t = cpus s \<and> hart t = hart s"

lemma same_tableD: "same_table s t \<Longrightarrow> proc_at t = proc_at s \<and> myproc t = myproc s \<and> kproc_ok t = kproc_ok s"
  by (simp add: same_table_def proc_at_def myproc_def mycpu_def cpuid_def kproc_ok_def hart_ok_def fun_eq_iff)

lemma same_table_trans: "same_table s t \<Longrightarrow> same_table t u \<Longrightarrow> same_table s u"
  by (simp add: same_table_def)

lemma same_table_upd: "same_table s (upd_pipe pi f s)" "same_table s (s\<lparr>km := m\<rparr>)" for s :: "'a kfile_scheme"
  by (simp_all add: same_table_def upd_pipe_def)

lemma pipewrite_loop_table:
  fixes s :: "'a kfile_scheme"
  assumes "pipewrite_loop pi w addr i k s = Ok (out, t)" "pi_readopen (pipes s pi)" "p_killed (proc_at s w) = 0"
  shows "\<exists>u. same_table s u \<and> t = (case out of PipeDone _ \<Rightarrow> wakeup (Some (ChanPipeRead pi)) u
    | PipeSleep _ _ \<Rightarrow> sleep_begin w (ChanPipeWrite pi) (wakeup (Some (ChanPipeRead pi)) u))"
  using assms
proof (induction k arbitrary: i s)
  case 0
  then show ?case by (intro exI[of _ s]) (auto simp: same_table_def)
next
  case (Suc k)
  show ?case
  proof (cases "pipe_full (pipes s pi)")
    case True
    then show ?thesis using Suc.prems by (intro exI[of _ s]) (auto simp: same_table_def)
  next
    case False
    let ?c = "copyin (p_pagetable (proc_at s w)) (addr + of_nat i) 1 (km s)"
    obtain rv bs where c: "?c = Ok (rv, bs)" using Suc.prems False by (cases ?c) (auto simp: kseq_def read_mem_def)
    show ?thesis
    proof (cases "rv = - 1")
      case True
      then show ?thesis using Suc.prems False c by (intro exI[of _ s]) (auto simp: same_table_def read_mem_def kseq_def kmod_def kret_def)
    next
      case ok: False
      let ?u = "upd_pipe pi (pipe_put (hd bs)) s"
      have run: "pipewrite_loop pi w addr (Suc i) k ?u = Ok (out, t)"
        using Suc.prems False c ok by (simp add: kseq_def read_mem_def kmod_def)
      obtain v where v: "same_table ?u v" "t = (case out of PipeDone _ \<Rightarrow> wakeup (Some (ChanPipeRead pi)) v
        | PipeSleep _ _ \<Rightarrow> sleep_begin w (ChanPipeWrite pi) (wakeup (Some (ChanPipeRead pi)) v))"
        using Suc.IH[OF run] Suc.prems(2,3) by (auto simp: pipe_put_def)
      then show ?thesis using same_table_trans[OF same_table_upd(1) v(1)] by blast
    qed
  qed
qed

lemma piperead_loop_table:
  fixes s :: "'a kfile_scheme"
  shows "piperead_loop pi r addr i k s = Ok (j, t) \<Longrightarrow> same_table s t"
proof (induction k arbitrary: i s)
  case 0
  then show ?case by (simp add: same_table_def)
next
  case (Suc k)
  show ?case
  proof (cases "pipe_empty (pipes s pi)")
    case True
    then show ?thesis using Suc.prems by (simp add: same_table_def)
  next
    case False
    let ?u = "upd_pipe pi (\<lambda>p. p\<lparr>pi_nread := pi_nread p + 1\<rparr>) s"
    let ?c = "copyout (p_pagetable (proc_at s r)) (addr + of_nat i) [pipe_head (pipes s pi)] (km ?u)"
    obtain rv mm where c: "?c = Ok (rv, mm)" using Suc.prems False by (cases ?c) (auto simp: kseq_def on_mem_def kmod_def kget_def)
    have "same_table s (?u\<lparr>km := mm\<rparr>)" by (rule same_table_trans[OF same_table_upd(1) same_table_upd(2)])
    then show ?thesis using Suc.prems False c Suc.IH same_table_trans
      by (cases "rv = - 1") (fastforce simp: kseq_def on_mem_def kmod_def kget_def kret_def)+
  qed
qed

lemma piperead_pass_table:
  fixes s :: "'a kfile_scheme"
  assumes "piperead_pass pi r dst m s = Ok (PipeDone v, t)" "p_killed (proc_at s r) = 0"
  shows "\<exists>u. same_table s u \<and> t = wakeup (Some (ChanPipeWrite pi)) u"
proof -
  have "\<not> (pipe_empty (pipes s pi) \<and> pi_writeopen (pipes s pi))" using assms by (auto simp: piperead_pass_def)
  then show ?thesis using assms(1) piperead_loop_table[of pi r dst 0 "nat (sint m)" s]
    by (auto simp: piperead_pass_def kseq_def kmod_def kret_def split: kres.splits) blast+
qed


text \<open>What a dispatch and the end of a turn keep.\<close>

lemma dispatch_keeps:
  assumes "kproc_ok s" "p < NPROC" "j < NPROC"
  shows "p_chan (proc_at (sched_dispatch p s) j) = p_chan (proc_at s j)" "p_killed (proc_at (sched_dispatch p s) j) = p_killed (proc_at s j)"
    and "p_pagetable (proc_at (sched_dispatch p s) j) = p_pagetable (proc_at s j)"
    and "p_state (proc_at (sched_dispatch p s) j) = (if j = p then RUNNING else p_state (proc_at s j))"
  using assms by (auto simp: sched_dispatch_def actually_set_priority_def split_def Let_def kproc_ok_def split: option.split)

lemma more_dispatch: "kproc.more (sched_dispatch p s) = kproc.more s" "kproc.more (end_turn p res s) = kproc.more s"
  by (auto simp: sched_dispatch_def actually_set_priority_def split_def Let_def upd_mycpu_def end_turn_def sched_return_def yield_def
      split: option.split pipeio.split)

lemma dispatch_kfile [simp]:
  "km (sched_dispatch p s) = km s" "pipes (sched_dispatch p s) = pipes s"
  "km (end_turn p res s) = km s" "pipes (end_turn p res s) = pipes s" for s :: "'a kfile_scheme"
  using more_dispatch(1)[of p s] more_dispatch(2)[of p res s]
  by (cases "sched_dispatch p s"; cases "end_turn p res s"; cases s; simp)+

lemma end_turn_keeps:
  assumes "kproc_ok s" "j < NPROC"
  shows "proc_at (end_turn p res s) j = (case res of PipeDone _ \<Rightarrow> if j = p then (proc_at s j)\<lparr>p_state := RUNNABLE\<rparr> else proc_at s j
      | PipeSleep _ _ \<Rightarrow> proc_at s j)"
    and "kproc_ok (end_turn p res s)"
  using assms by (auto simp: end_turn_def sched_return_def yield_def kproc_ok_def[of s] split: pipeio.split)

lemma pipe_inv_start:
  assumes inv: "pipe_inv e pi w r s" and p: "p < NPROC"
  shows "pipe_inv e pi w r (sleep_end p (sched_dispatch p s))"
proof -
  let ?t = "sleep_end p (sched_dispatch p s)"
  have ok: "kproc_ok s" "pipe_ok (pipes s pi)" using inv by (simp_all add: pipe_inv_def)
  have "same_procs s (sched_dispatch p s)" using dispatch_keeps[OF ok(1) p] kproc_ok_sched_dispatch[OF ok(1)] by (simp add: same_procs_def)
  then have "same_procs s ?t" by (rule same_procs_trans[OF _ same_procs_sleep(2)[OF kproc_ok_sched_dispatch[OF ok(1)]]])
  then have "pipe_now s ?t pi (pipe_bytes (pipes s pi))" using ok(2) by (simp add: pipe_now_def)
  then show ?thesis by (rule pipe_inv_now[OF inv]) (use inv in \<open>simp_all add: pipe_inv_def\<close>)
qed

lemma pipe_inv_end: "pipe_inv e pi w r s \<Longrightarrow> pipe_inv e pi w r (end_turn p res s)"
  by (auto simp: pipe_inv_def end_turn_keeps split: pipeio.split)

text \<open>The states of the processes after a turn of \<open>p\<close> that ends with \<open>wakeup\<close>: a sleeper on that channel is RUNNABLE.\<close>

definition wake_state :: "chan \<Rightarrow> proc \<Rightarrow> procstate" where
  "wake_state ch pr = (if p_state pr = SLEEPING \<and> p_chan pr = Some ch then RUNNABLE else p_state pr)"

lemma turn_wakes:
  assumes ok: "kproc_ok s" "p < NPROC" "j < NPROC" "j \<noteq> p" and u: "same_table (sleep_end p (sched_dispatch p s)) u"
  shows "kproc_ok (wakeup (Some ch) u)" "p_state (proc_at (wakeup (Some ch) u) j) = wake_state ch (proc_at s j)"
    and "p_chan (proc_at (wakeup (Some ch) u) j) = p_chan (proc_at s j)"
proof -
  have k: "kproc_ok (sched_dispatch p s)" by (rule kproc_ok_sched_dispatch[OF ok(1)])
  then have l: "length (procs (sched_dispatch p s)) = NPROC" by (simp add: kproc_ok_def)
  have u': "proc_at u j = proc_at (sched_dispatch p s) j" "myproc u = Some p" "kproc_ok u"
    using same_tableD[OF u] k l ok(3,4) sched_dispatch_runs(1)[OF ok(1,2)]
    by (simp_all add: sleep_end_def myproc_def mycpu_def cpuid_def)
  show "kproc_ok (wakeup (Some ch) u)" using u'(3) by simp
  show "p_state (proc_at (wakeup (Some ch) u) j) = wake_state ch (proc_at s j)" "p_chan (proc_at (wakeup (Some ch) u) j) = p_chan (proc_at s j)"
    using u' ok dispatch_keeps[OF ok(1-3)] by (simp_all add: wakeup_def proc_at_for_procs wake_state_def)
qed

subsection \<open>The transfer\<close>

text \<open>
  The state of a transfer of which \<open>i\<close> bytes are written. Nobody sleeps without a reason: a writer that sleeps waits for a full pipe
  to be read, a reader that sleeps waits for an empty pipe to be written.
\<close>

definition asleep :: "chan \<Rightarrow> proc \<Rightarrow> bool" where
  "asleep ch pr \<longleftrightarrow> p_state pr = SLEEPING \<and> p_chan pr = Some ch"

definition transfer :: "pipe_ends \<Rightarrow> uint64 \<Rightarrow> nat \<Rightarrow> nat \<Rightarrow> uint64 \<Rightarrow> uint64 \<Rightarrow> cint \<Rightarrow> (nat \<Rightarrow> uchar option) \<Rightarrow> nat \<Rightarrow>
    nat \<Rightarrow> uchar list \<Rightarrow> 'a kfile_scheme \<Rightarrow> bool" where
  "transfer e pi w r addr dst m f n i got s \<longleftrightarrow> pipe_inv e pi w r s \<and> pi_writeopen (pipes s pi) \<and> i \<le> n \<and>
     got @ pipe_bytes (pipes s pi) = map (\<lambda>j. the (f (unat addr + j))) [0..<i] \<and>
     ubyte (wspace e) (ram (km s)) = f \<and> (\<forall>j<n. f (unat addr + j) \<noteq> None) \<and>
     turn_ok (dom (ubyte (rspace e) (ram (km s)))) (ReaderTurn dst m) \<and>
     (p_state (proc_at s w) = RUNNABLE \<or> asleep (ChanPipeWrite pi) (proc_at s w) \<and> length (pipe_bytes (pipes s pi)) = PIPESIZE \<and> i < n) \<and>
     (p_state (proc_at s r) = RUNNABLE \<or> asleep (ChanPipeRead pi) (proc_at s r) \<and> pipe_bytes (pipes s pi) = [])"

definition work_left :: "nat \<Rightarrow> nat \<Rightarrow> nat \<Rightarrow> nat \<Rightarrow> uchar list \<Rightarrow> 'a kproc_scheme \<Rightarrow> nat" where
  "work_left w r n i got s = 3 * ((n - i) + (n - length got)) +
     of_bool (p_state (proc_at s w) = RUNNABLE) + of_bool (p_state (proc_at s r) = RUNNABLE)"

lemma work_left_less:
  assumes "(n - i') + (n - length got') < (n - i) + (n - length got)"
  shows "work_left w r n i' got' t < work_left w r n i got s"
proof -
  let ?b = "of_bool (p_state (proc_at t w) = RUNNABLE) + of_bool (p_state (proc_at t r) = RUNNABLE) :: nat"
  have "?b \<le> 2" by simp
  then have "work_left w r n i' got' t \<le> 3 * ((n - i') + (n - length got')) + 2" by (simp only: work_left_def add.assoc add_le_cancel_left)
  also have "\<dots> < 3 * ((n - i) + (n - length got))"
  proof -
    have "a < b \<Longrightarrow> 3 * a + 2 < 3 * b" for a b :: nat by simp
    then show ?thesis using assms by blast
  qed
  also have "\<dots> \<le> work_left w r n i got s" by (simp add: work_left_def)
  finally show ?thesis .
qed

lemma wake_state_asleep: "p_state pr = RUNNABLE \<or> asleep ch pr \<Longrightarrow> wake_state ch pr = RUNNABLE"
  by (auto simp: asleep_def wake_state_def)

lemma writer_transfers:
  fixes s :: "'a kfile_scheme"
  assumes T: "transfer e pi w r addr dst m f n i got s" and w: "p_state (proc_at s w) = RUNNABLE" "w \<noteq> r" "i < n"
  shows "\<exists>i' t. pipewrite_resume pi w addr i (n - i) (sched_dispatch w s) = Ok (writer_at i' n, t) \<and>
    transfer e pi w r addr dst m f n i' got (end_turn w (writer_at i' n) t) \<and>
    work_left w r n i' got (end_turn w (writer_at i' n) t) < work_left w r n i got s"
proof -
  let ?s = "sleep_end w (sched_dispatch w s)" and ?B = "pipe_bytes (pipes s pi)"
  have inv: "pipe_inv e pi w r s" and ok: "kproc_ok s" "w < NPROC" "r < NPROC" "pi_readopen (pipes s pi)" "length ?B \<le> PIPESIZE"
    and src: "\<forall>j<n. ubyte (wspace e) (ram (km ?s)) (unat addr + j) \<noteq> None" and f: "ubyte (wspace e) (ram (km s)) = f"
    using T by (simp_all add: transfer_def pipe_inv_def pipe_ok_def)
  note inv1 = pipe_inv_start[OF inv ok(2)]
  obtain i' t where t: "pipewrite_loop pi w addr i (n - i) ?s = Ok (writer_at i' n, t)" "i \<le> i'" "i' \<le> n" "pipe_inv e pi w r t" "km t = km s"
    "pipe_bytes (pipes t pi) = ?B @ map (source (wspace e) (ram (km s)) addr) [i..<i']" "i' - i = min (n - i) (PIPESIZE - length ?B)"
    "pi_writeopen (pipes t pi) = pi_writeopen (pipes s pi)"
    using writer_turn[OF inv1 _ src, of i] w(3) by auto
  let ?t = "end_turn w (writer_at i' n) t"
  have "pi_readopen (pipes ?s pi)" "p_killed (proc_at ?s w) = 0" using inv1 by (simp_all add: pipe_inv_def)
  from pipewrite_loop_table[OF t(1) this] obtain u where u: "same_table ?s u"
    "t = (case writer_at i' n of PipeDone _ \<Rightarrow> wakeup (Some (ChanPipeRead pi)) u
        | PipeSleep _ _ \<Rightarrow> sleep_begin w (ChanPipeWrite pi) (wakeup (Some (ChanPipeRead pi)) u))" by blast
  note wk = turn_wakes[OF ok(1-3) w(2)[symmetric] u(1), of "ChanPipeRead pi"]
  have l: "length (procs (wakeup (Some (ChanPipeRead pi)) u)) = NPROC" using wk(1) by (simp add: kproc_ok_def)
  have kt: "kproc_ok t" using t(4) by (simp add: pipe_inv_def)
  have "wake_state (ChanPipeRead pi) (proc_at s r) = RUNNABLE" using T by (intro wake_state_asleep) (auto simp: transfer_def)
  then have r: "p_state (proc_at ?t r) = RUNNABLE" using wk u(2) w(2) ok(3) l kt
    by (auto simp: end_turn_keeps writer_at_def sleep_begin_def)
  have wt: "if i' = n then p_state (proc_at ?t w) = RUNNABLE else asleep (ChanPipeWrite pi) (proc_at ?t w)"
    using u(2) ok(2) l kt by (auto simp: end_turn_keeps writer_at_def sleep_begin_def asleep_def)
  have full: "length (pipe_bytes (pipes t pi)) = PIPESIZE" if "i' < n" using t(2,3,6,7) that ok(5) by auto
  have S: "source (wspace e) (ram (km s)) addr = (\<lambda>j. the (f (unat addr + j)))" by (simp add: source_def fun_eq_iff f)
  have "[0..<i] @ [i..<i'] = [0..<i']" using t(2) by (metis le0 le_Suc_ex upt_add_eq_append)
  then have got: "got @ pipe_bytes (pipes t pi) = map (\<lambda>j. the (f (unat addr + j))) [0..<i']"
    using T t(6) unfolding S by (simp add: transfer_def flip: map_append append_assoc)
  have "transfer e pi w r addr dst m f n i' got ?t"
    using T t(3,4,5,8) r wt full got by (auto simp: transfer_def pipe_inv_end split: if_splits)
  moreover have "work_left w r n i' got ?t < work_left w r n i got s"
  proof (cases "i' = i")
    case True
    then have "length ?B = PIPESIZE" using t(7) w(3) ok(5) by auto
    then have "p_state (proc_at s r) = RUNNABLE" using T by (auto simp: transfer_def)
    then show ?thesis using True wt r w(1,3) by (auto simp: work_left_def asleep_def)
  next
    case False
    then show ?thesis using t(2,3) by (intro work_left_less) auto
  qed
  ultimately show ?thesis using t(1) by (auto simp: pipewrite_resume_def)
qed

lemma reader_waits:
  fixes s :: "'a kfile_scheme"
  assumes T: "transfer e pi w r addr dst m f n i got s" and r: "p_state (proc_at s r) = RUNNABLE" "w \<noteq> r" and empty: "pipe_bytes (pipes s pi) = []"
  shows "\<exists>k t. piperead_pass pi r dst m (sleep_end r (sched_dispatch r s)) = Ok (PipeSleep 0 k, t) \<and>
    transfer e pi w r addr dst m f n i got (end_turn r (PipeSleep 0 k) t) \<and>
    work_left w r n i got (end_turn r (PipeSleep 0 k) t) < work_left w r n i got s"
proof -
  let ?s = "sleep_end r (sched_dispatch r s)"
  let ?t = "sleep_begin r (ChanPipeRead pi) ?s"
  let ?u = "end_turn r (PipeSleep 0 (nat (sint m))) ?t"
  have inv: "pipe_inv e pi w r s" and ok: "kproc_ok s" "w < NPROC" "r < NPROC" using T by (simp_all add: transfer_def pipe_inv_def)
  note inv1 = pipe_inv_start[OF inv ok(3)]
  then have I: "kproc_ok ?s" "pipe_ok (pipes ?s pi)" by (simp_all add: pipe_inv_def)
  then have l: "length (procs ?s) = NPROC" by (simp add: kproc_ok_def)
  have "pipe_now ?s ?t pi (pipe_bytes (pipes ?s pi))" using same_procs_sleep(1)[OF I(1)] I(2) by (simp add: pipe_now_def)
  then have inv2: "pipe_inv e pi w r ?t" by (rule pipe_inv_now[OF inv1]) (use inv in \<open>simp_all add: pipe_inv_def\<close>)
  have kt: "kproc_ok ?t" using inv2 by (simp add: pipe_inv_def)
  have l2: "length (procs (sched_dispatch r s)) = NPROC" using kproc_ok_sched_dispatch[OF ok(1)] by (simp add: kproc_ok_def)
  have "proc_at ?u w = proc_at (sched_dispatch r s) w" using kt ok(2) r(2) l l2 by (simp add: end_turn_keeps sleep_begin_def) (simp add: sleep_end_def)
  then have w: "p_state (proc_at ?u w) = p_state (proc_at s w)" "p_chan (proc_at ?u w) = p_chan (proc_at s w)"
    using dispatch_keeps[OF ok(1,3,2)] r(2) by simp_all
  have u: "asleep (ChanPipeRead pi) (proc_at ?u r)" using kt ok(3) l by (simp add: end_turn_keeps sleep_begin_def asleep_def)
  have "transfer e pi w r addr dst m f n i got ?u" using T inv2 w u empty by (auto simp: transfer_def pipe_inv_end asleep_def)
  moreover have "work_left w r n i got ?u < work_left w r n i got s" using r(1) u w by (simp add: work_left_def asleep_def)
  moreover have "piperead_pass pi r dst m ?s = Ok (PipeSleep 0 (nat (sint m)), ?t)"
    using T empty inv1 by (simp add: piperead_pass_def pipe_empty_iff transfer_def pipe_inv_def)
  ultimately show ?thesis by blast
qed

lemma reader_transfers:
  fixes s :: "'a kfile_scheme"
  assumes T: "transfer e pi w r addr dst m f n i got s" and r: "p_state (proc_at s r) = RUNNABLE" "w \<noteq> r" "0 < sint m"
    and ready: "pipe_bytes (pipes s pi) \<noteq> []"
  shows "\<exists>v t bs. piperead_pass pi r dst m (sleep_end r (sched_dispatch r s)) = Ok (PipeDone v, t) \<and>
    copyin (p_pagetable (proc_at t r)) dst (nat (sint v)) (km t) = Ok (0, bs) \<and>
    transfer e pi w r addr dst m f n i (got @ bs) (end_turn r (PipeDone v) t) \<and>
    work_left w r n i (got @ bs) (end_turn r (PipeDone v) t) < work_left w r n i got s"
proof -
  let ?s = "sleep_end r (sched_dispatch r s)" and ?B = "pipe_bytes (pipes s pi)" and ?k = "nat (sint m)"
  have inv: "pipe_inv e pi w r s" and ok: "kproc_ok s" "w < NPROC" "r < NPROC" "length ?B \<le> PIPESIZE"
    and dst: "turn_ok (dom (ubyte (rspace e) (ram (km ?s)))) (ReaderTurn dst m)"
    using T by (simp_all add: transfer_def pipe_inv_def pipe_ok_def)
  note inv1 = pipe_inv_start[OF inv ok(3)]
  let ?v = "of_nat (min ?k (length ?B)) :: cint"
  have "pipe_bytes (pipes ?s pi) \<noteq> [] \<or> \<not> pi_writeopen (pipes ?s pi)" using ready by simp
  from reader_turn[OF inv1 dst this] obtain t where t: "piperead_pass pi r dst m ?s = Ok (PipeDone ?v, t)" "pipe_inv e pi w r t"
    "pipe_bytes (pipes t pi) = drop ?k ?B" "received (rspace e) (wspace e) (ufree e) (km s) (km t) (unat dst) (take ?k ?B)"
    "p_pagetable (proc_at t r) = p_pagetable (proc_at ?s r)" "pi_writeopen (pipes t pi) = pi_writeopen (pipes s pi)" by auto
  let ?u = "end_turn r (PipeDone ?v) t"
  have c: "nat (sint ?v) = length (take ?k ?B)" using ok(4) sint_word_of_nat[of "min ?k (length ?B)"] by simp
  have root: "rspace e Root = Some (p_pagetable (proc_at t r))" "kproc_ok t" using t(2) by (simp_all add: pipe_inv_def)
  have copy: "copyin (p_pagetable (proc_at t r)) dst (nat (sint ?v)) (km t) = Ok (0, take ?k ?B)"
    unfolding c by (rule received_read[OF t(4) root(1)])
  have "p_killed (proc_at ?s r) = 0" using inv1 by (simp add: pipe_inv_def)
  from piperead_pass_table[OF t(1) this] obtain x where x: "same_table ?s x" "t = wakeup (Some (ChanPipeWrite pi)) x" by blast
  note wk = turn_wakes[OF ok(1,3,2) r(2) x(1), of "ChanPipeWrite pi", folded x(2)]
  have "wake_state (ChanPipeWrite pi) (proc_at s w) = RUNNABLE" using T by (intro wake_state_asleep) (auto simp: transfer_def)
  then have u: "p_state (proc_at ?u w) = RUNNABLE" "p_state (proc_at ?u r) = RUNNABLE"
    using wk(2) root(2) ok(2,3) r(2) by (simp_all add: end_turn_keeps)
  have M: "ubyte (wspace e) (ram (km t)) = ubyte (wspace e) (ram (km s))"
    "dom (ubyte (rspace e) (ram (km t))) = dom (ubyte (rspace e) (ram (km s)))" using t(4) dst by (simp_all add: received_def uwrite_dom)
  have got: "(got @ take ?k ?B) @ drop ?k ?B = got @ ?B" by simp
  have "transfer e pi w r addr dst m f n i (got @ take ?k ?B) ?u"
    using T u t(2,6) M unfolding transfer_def dispatch_kfile t(3) got by (simp add: pipe_inv_end)
  moreover have "work_left w r n i (got @ take ?k ?B) ?u < work_left w r n i got s"
  proof -
    have "length (got @ ?B) = i" "i \<le> n" using T by (simp_all add: transfer_def)
    then have "length got + length ?B \<le> n" "length (take ?k ?B) \<ge> 1" using ready r(3) by (auto simp: Suc_le_eq)
    then show ?thesis using ready by (intro work_left_less) auto
  qed
  ultimately show ?thesis using t(1) copy by blast
qed

subsection \<open>Every schedule\<close>

lemma pipe_step_transfers:
  fixes s :: "'a kfile_scheme"
  assumes T: "transfer e pi w r addr dst m f n i got s" and a: "w \<noteq> r" "0 < sint m"
    and step: "pipe_step pi w r addr dst m (got, writer_at i n, s) c"
  shows "\<exists>i' got' t. c = (got', writer_at i' n, t) \<and> transfer e pi w r addr dst m f n i' got' t \<and> work_left w r n i' got' t < work_left w r n i got s"
  using step
proof cases
  case (writer_step i0 k out t)
  then have i: "i0 = i" "k = n - i" "i \<noteq> n" by (auto simp: writer_at_def split: if_splits)
  have "i < n" using T i(3) by (simp add: transfer_def)
  from writer_transfers[OF T writer_step(3) a(1) this] show ?thesis using writer_step(2,4) i(1,2) by simp blast
next
  case (reader_sleeps i0 k t)
  have "pipe_bytes (pipes s pi) = []"
  proof (rule ccontr)
    assume "pipe_bytes (pipes s pi) \<noteq> []"
    from reader_transfers[OF T reader_sleeps(2) a this] show False using reader_sleeps(3) by simp
  qed
  from reader_waits[OF T reader_sleeps(2) a(1) this] show ?thesis using reader_sleeps(1,3) by simp blast
next
  case (reader_step v t bs)
  have "pipe_bytes (pipes s pi) \<noteq> []"
  proof
    assume "pipe_bytes (pipes s pi) = []"
    from reader_waits[OF T reader_step(2) a(1) this] show False using reader_step(3) by simp
  qed
  from reader_transfers[OF T reader_step(2) a this] show ?thesis using reader_step(1,3,4) by simp blast
qed

lemma pipe_stuck:
  fixes s :: "'a kfile_scheme"
  assumes T: "transfer e pi w r addr dst m f n i got s" and a: "w \<noteq> r" "0 < sint m"
    and stuck: "\<nexists>c. pipe_step pi w r addr dst m (got, writer_at i n, s) c"
  shows "i = n \<and> pipe_bytes (pipes s pi) = []"
proof -
  have "p_state (proc_at s r) \<noteq> RUNNABLE"
  proof
    assume r: "p_state (proc_at s r) = RUNNABLE"
    show False
    proof (cases "pipe_bytes (pipes s pi) = []")
      case True
      then show False using reader_waits[OF T r a(1)] pipe_step.reader_sleeps[OF r] stuck by blast
    next
      case False
      then show False using reader_transfers[OF T r a] pipe_step.reader_step[OF r] stuck by blast
    qed
  qed
  then have empty: "pipe_bytes (pipes s pi) = []" and w: "p_state (proc_at s w) = RUNNABLE" using T by (auto simp: transfer_def)
  have "\<not> i < n"
  proof
    assume i: "i < n"
    obtain i' t where "pipewrite_resume pi w addr i (n - i) (sched_dispatch w s) = Ok (writer_at i' n, t)"
      using writer_transfers[OF T w a(1) i] by blast
    from pipe_step.writer_step[OF w this] have "\<exists>c. pipe_step pi w r addr dst m (got, PipeSleep i (n - i), s) c" by blast
    then show False using stuck i by (simp add: writer_at_def[of i])
  qed
  then show ?thesis using T empty by (simp add: transfer_def)
qed

lemma pipe_steps_transfer:
  fixes s :: "'a kfile_scheme"
  assumes T: "transfer e pi w r addr dst m f n i got s" and a: "w \<noteq> r" "0 < sint m"
    and "(pipe_step pi w r addr dst m ^^ k) (got, writer_at i n, s) c"
  shows "\<exists>i' got' t. c = (got', writer_at i' n, t) \<and> transfer e pi w r addr dst m f n i' got' t \<and> work_left w r n i' got' t + k \<le> work_left w r n i got s"
  using assms(4)
proof (induction k arbitrary: c)
  case 0
  then show ?case using T by auto
next
  case (Suc k)
  then obtain d where d: "(pipe_step pi w r addr dst m ^^ k) (got, writer_at i n, s) d" "pipe_step pi w r addr dst m d c" by auto
  from Suc.IH[OF d(1)] obtain j g t where j: "d = (g, writer_at j n, t)" "transfer e pi w r addr dst m f n j g t"
    "work_left w r n j g t + k \<le> work_left w r n i got s" by blast
  from pipe_step_transfers[OF j(2) a d(2)[unfolded j(1)]] j(3) show ?case by fastforce
qed

lemma maximal_run:
  assumes bound: "\<And>k y. (R ^^ k) x y \<Longrightarrow> k \<le> b"
  shows "\<exists>k y. (R ^^ k) x y \<and> (\<nexists>z. R y z)"
proof (rule ccontr)
  assume "\<nexists>k y. (R ^^ k) x y \<and> (\<nexists>z. R y z)"
  then have "\<exists>y. (R ^^ k) x y" for k by (induction k) (simp, metis relpowp_Suc_I)
  then obtain y where "(R ^^ Suc b) x y" by blast
  then show False using bound by fastforce
qed

subsection \<open>Properties\<close>

text \<open>
  C21. No wakeup is lost and a write to a pipe of any length completes. A process begins to write \<^verbatim>\<open>n\<close> bytes to an empty
  pipe and another one reads it in calls of \<^verbatim>\<open>m\<close> bytes. The scheduler may choose freely between the two, but dispatches only a process that
  is RUNNABLE. Then no schedule has more than \<^verbatim>\<open>6 * n + 2\<close> turns, and wherever one of them is, another turn is possible unless the
  call of the writer has returned \<^verbatim>\<open>n\<close> and the reader has got exactly the \<^verbatim>\<open>n\<close> bytes: the two never sleep both while bytes are left.
\<close>

theorem pipe_delivers_all:
  fixes s :: "'a kfile_scheme"
  assumes "pipe_inv e pi w r s" "w \<noteq> r" "pipe_bytes (pipes s pi) = []" "pi_writeopen (pipes s pi)"
    and "p_state (proc_at s w) = RUNNABLE" "p_state (proc_at s r) = RUNNABLE" "0 < n"
    and "\<forall>j<n. ubyte (wspace e) (ram (km s)) (unat addr + j) \<noteq> None"
    and "turn_ok (dom (ubyte (rspace e) (ram (km s)))) (ReaderTurn dst m)" "0 < sint m"
    and "(pipe_step pi w r addr dst m ^^ k) ([], PipeSleep 0 n, s) (got, out, t)"
  shows "k \<le> 6 * n + 2 \<and>
    ((\<exists>c. pipe_step pi w r addr dst m (got, out, t) c) \<or>
     (out = PipeDone (of_nat n) \<and> got = map (\<lambda>j. the (ubyte (wspace e) (ram (km s)) (unat addr + j))) [0..<n]))"
proof -
  let ?f = "ubyte (wspace e) (ram (km s))"
  have T: "transfer e pi w r addr dst m ?f n 0 [] s" using assms(1-9) by (simp add: transfer_def)
  have w0: "PipeSleep 0 n = writer_at 0 n" using assms(7) by (simp add: writer_at_def)
  from pipe_steps_transfer[OF T assms(2,10) assms(11)[unfolded w0]] obtain i where
    i: "out = writer_at i n" "transfer e pi w r addr dst m ?f n i got t" "work_left w r n i got t + k \<le> work_left w r n 0 [] s" by blast
  have "work_left w r n 0 [] s = 6 * n + 2" using assms(5,6) by (simp add: work_left_def)
  moreover have "out = PipeDone (of_nat n) \<and> got = map (\<lambda>j. the (?f (unat addr + j))) [0..<n]" if "\<nexists>c. pipe_step pi w r addr dst m (got, out, t) c"
  proof -
    have "i = n \<and> pipe_bytes (pipes t pi) = []" by (rule pipe_stuck[OF i(2) assms(2,10) that[unfolded i(1)]])
    then show ?thesis using i(1,2) by (simp add: transfer_def writer_at_def)
  qed
  ultimately show ?thesis using i(3) by (intro conjI) (linarith, blast)
qed

theorem pipe_delivers_all_witness:
  "\<exists>s pw pr k t. (pipe_step 0 1 2 0 4096 100 ^^ k) ([], PipeSleep 0 1300, example_pipe s pw pr) ([1, 2, 3] @ replicate 1297 0, PipeDone 1300, t)"
proof -
  obtain s e pw pr where x: "pipe_inv e 0 1 2 (example_pipe s pw pr)" "pipe_bytes (pipes (example_pipe s pw pr) 0) = []"
    "km (example_pipe s pw pr) = s" "\<forall>a. ubyte (wspace e) (ram s) a = uwrite 0 [1, 2, 3] (\<lambda>a. if a < 8192 then Some 0 else None) a"
    "dom (ubyte (rspace e) (ram s)) = {..<8192}" "pi_writeopen (pipes (example_pipe s pw pr) 0)"
    "p_state (proc_at (example_pipe s pw pr) 1) = RUNNABLE" "p_state (proc_at (example_pipe s pw pr) 2) = RUNNABLE"
    using example_pipe_facts by blast
  have h: "\<forall>j<1300. ubyte (wspace e) (ram (km (example_pipe s pw pr))) (unat (0 :: uint64) + j) \<noteq> None" by (simp add: x(3,4) uwrite_def)
  have d: "turn_ok (dom (ubyte (rspace e) (ram (km (example_pipe s pw pr))))) (ReaderTurn 4096 100)" by (simp add: x(3,5))
  have n: "(of_nat 1300 :: cint) = 1300" "(1 :: nat) \<noteq> 2" "0 < (1300 :: nat)" "0 < sint (100 :: cint)" by simp_all
  have bytes: "map (\<lambda>j. the (ubyte (wspace e) (ram s) (unat (0 :: uint64) + j))) [0..<1300] = [1, 2, 3] @ replicate 1297 0"
  proof (rule nth_equalityI)
    fix j
    assume "j < length (map (\<lambda>j. the (ubyte (wspace e) (ram s) (unat (0 :: uint64) + j))) [0..<1300])"
    then have "j < 1300" by simp
    then show "map (\<lambda>j. the (ubyte (wspace e) (ram s) (unat (0 :: uint64) + j))) [0..<1300] ! j = ([1, 2, 3] @ replicate 1297 0) ! j"
      by (cases "j < 3") (simp_all add: x(4) uwrite_def nth_append del: append.simps)
  qed simp
  note run = pipe_delivers_all[OF x(1) n(2) x(2,6,7,8) n(3) h d n(4), unfolded x(3) n(1) bytes]
  let ?R = "pipe_step 0 1 2 0 4096 100"
  obtain k c where c: "(?R ^^ k) ([], PipeSleep 0 1300, example_pipe s pw pr) c" "\<nexists>z. ?R c z"
  proof -
    have "\<exists>k c. (?R ^^ k) ([], PipeSleep 0 1300, example_pipe s pw pr) c \<and> (\<nexists>z. ?R c z)"
    proof (rule maximal_run)
      fix k c
      assume "(?R ^^ k) ([], PipeSleep 0 1300, example_pipe s pw pr) c"
      then show "k \<le> 6 * 1300 + 2" using run[of k "fst c" "fst (snd c)" "snd (snd c)"] by simp
    qed
    then show ?thesis using that by blast
  qed
  obtain got out t where t: "c = (got, out, t)" by (cases c)
  from run[OF c(1)[unfolded t]] c show ?thesis unfolding t by blast
qed

end
