(* ===== verification/Xv6_Lifecycle.thy ===== *)
theory Xv6_Lifecycle
  imports Xv6_File
begin

section \<open>Creating, waiting for and ending processes (kernel/proc.c)\<close>

text \<open>
  The part of kernel/proc.c that allocates and frees processes: page tables and trap frames,
  \<open>fork\<close>, \<open>exit\<close>, \<open>wait\<close> and \<open>waitx\<close>, and \<open>growproc\<close>. A field of the trap frame is read and
  written at its byte offset in the page \<open>p_trapframe\<close>.
\<close>

abbreviation (input) TF_kernel_satp :: uint64 where "TF_kernel_satp \<equiv> 0"
abbreviation (input) TF_kernel_sp :: uint64 where "TF_kernel_sp \<equiv> 8"
abbreviation (input) TF_kernel_trap :: uint64 where "TF_kernel_trap \<equiv> 16"
abbreviation (input) TF_epc :: uint64 where "TF_epc \<equiv> 24"
abbreviation (input) TF_kernel_hartid :: uint64 where "TF_kernel_hartid \<equiv> 32"
abbreviation (input) TF_sp :: uint64 where "TF_sp \<equiv> 48"
abbreviation (input) TF_a0 :: uint64 where "TF_a0 \<equiv> 112"
abbreviation (input) TF_a1 :: uint64 where "TF_a1 \<equiv> 120"
abbreviation (input) TF_a2 :: uint64 where "TF_a2 \<equiv> 128"
abbreviation (input) TF_a7 :: uint64 where "TF_a7 \<equiv> 168"
abbreviation (input) TF_size :: nat where "TF_size \<equiv> 288"

definition tf_get :: "nat \<Rightarrow> uint64 \<Rightarrow> ('a kvm_scheme, uint64) kop" where
  "tf_get p off = kget (\<lambda>s. load64 (ram (km s)) (p_trapframe (proc_at s p) + off))"

definition tf_set :: "nat \<Rightarrow> uint64 \<Rightarrow> uint64 \<Rightarrow> ('a kvm_scheme, unit) kop" where
  "tf_set p off v =
     kmod (\<lambda>s. s\<lparr>km := (km s)\<lparr>ram := store64 (p_trapframe (proc_at s p) + off) v (ram (km s))\<rparr>\<rparr>)"

subsection \<open>Page tables of processes\<close>

definition proc_pagetable :: "uint64 \<Rightarrow> kmem \<Rightarrow> (uint64 \<times> kmem) kres" where
  "proc_pagetable trapframe s =
     (let (pagetable, s1) = uvmcreate s in
      if pagetable = 0 then Ok (0, s1)
      else
        kbind (mappages pagetable TRAMPOLINE PGSIZE (sym_trampoline s1) (PTE_R OR PTE_X) s1) (\<lambda>(r, s2).
        if sint r < 0 then kbind (uvmfree pagetable 0 s2) (\<lambda>s3. Ok (0, s3))
        else
          kbind (mappages pagetable TRAPFRAME PGSIZE trapframe (PTE_R OR PTE_W) s2) (\<lambda>(r, s3).
          if sint r < 0 then
            kbind (uvmunmap pagetable TRAMPOLINE 1 False s3) (\<lambda>s4.
            kbind (uvmfree pagetable 0 s4) (\<lambda>s5. Ok (0, s5)))
          else Ok (pagetable, s3))))"

definition proc_freepagetable :: "uint64 \<Rightarrow> uint64 \<Rightarrow> kmem \<Rightarrow> kmem kres" where
  "proc_freepagetable pagetable sz s =
     kbind (uvmunmap pagetable TRAMPOLINE 1 False s) (\<lambda>s1.
     kbind (uvmunmap pagetable TRAPFRAME 1 False s1) (\<lambda>s2.
     uvmfree pagetable sz s2))"

subsection \<open>Allocating and freeing a table entry\<close>

definition freeproc :: "nat \<Rightarrow> ('a kvm_scheme, unit) kop" where
  "freeproc p s =
     (let pr = proc_at s p in
      kseq (kwhen (p_trapframe pr \<noteq> 0) (on_mem_u (kfree (p_trapframe pr)))) (\<lambda>_.
      kseq (set_proc p (\<lambda>x. x\<lparr>p_trapframe := 0\<rparr>)) (\<lambda>_.
      kseq (kwhen (p_pagetable pr \<noteq> 0) (on_mem_u (proc_freepagetable (p_pagetable pr) (p_sz pr)))) (\<lambda>_.
      set_proc p (\<lambda>x. x\<lparr>p_pagetable := 0, p_sz := 0, p_pid := 0, p_parent := None,
                        p_name := (p_name x)[0 := 0], p_chan := None, p_killed := 0, p_xstate := 0,
                        p_state := UNUSED\<rparr>)))) s)"

text \<open>The new entry is left locked in the source; here it is in state USED.\<close>

definition allocproc :: "('a kvm_scheme, nat option) kop" where
  "allocproc s =
     (case find (\<lambda>i. p_state (proc_at s i) = UNUSED) [0..<NPROC] of
        None \<Rightarrow> Ok (None, s)
      | Some p \<Rightarrow>
          (let (pid, s1) = allocpid s in
           kseq (set_proc p (\<lambda>x. x\<lparr>p_pid := pid, p_state := USED, p_ctime := ticks s1, p_rtime := 0,
                                   p_niceness := 5, p_static_priority := 60, p_dynamic_priority := 60\<rparr>)) (\<lambda>_.
           kseq (on_mem_t kalloc) (\<lambda>tf.
           kseq (set_proc p (\<lambda>x. x\<lparr>p_trapframe := tf\<rparr>)) (\<lambda>_.
           if tf = 0 then kseq (freeproc p) (\<lambda>_. kret None)
           else
             kseq (on_mem (proc_pagetable tf)) (\<lambda>pt.
             kseq (set_proc p (\<lambda>x. x\<lparr>p_pagetable := pt\<rparr>)) (\<lambda>_.
             if pt = 0 then kseq (freeproc p) (\<lambda>_. kret None)
             else
               kseq (kget sym_forkret) (\<lambda>fr.
               kseq (set_proc p (\<lambda>x. x\<lparr>p_context := context_zero\<lparr>ctx_ra := fr, ctx_sp := p_kstack x + PGSIZE\<rparr>\<rparr>)) (\<lambda>_.
               kret (Some p)))))))) s1))"

definition initcode :: "uchar list" where
  "initcode =
    [0x17, 0x05, 0x00, 0x00, 0x13, 0x05, 0x45, 0x02,
     0x97, 0x05, 0x00, 0x00, 0x93, 0x85, 0x35, 0x02,
     0x93, 0x08, 0x70, 0x00, 0x73, 0x00, 0x00, 0x00,
     0x93, 0x08, 0x20, 0x00, 0x73, 0x00, 0x00, 0x00,
     0xef, 0xf0, 0x9f, 0xff, 0x2f, 0x69, 0x6e, 0x69,
     0x74, 0x00, 0x00, 0x24, 0x00, 0x00, 0x00, 0x00,
     0x00, 0x00, 0x00, 0x00]"

definition string_bytes :: "string \<Rightarrow> uchar list" where
  "string_bytes cs = map of_char cs"

definition set_name :: "nat \<Rightarrow> uchar list \<Rightarrow> ('a kproc_scheme, unit) kop" where
  "set_name p t = set_proc p (\<lambda>x. x\<lparr>p_name := overlay (safestrcpy t 16) (p_name x)\<rparr>)"

definition userinit :: "('a kfile_scheme, unit) kop" where
  "userinit =
     kseq allocproc (\<lambda>r.
     kseq (kmod (\<lambda>s. s\<lparr>initproc := r\<rparr>)) (\<lambda>_.
     case r of
       None \<Rightarrow> kpanic ''kerneltrap''
     | Some p \<Rightarrow>
         kseq (kget (\<lambda>s. p_pagetable (proc_at s p))) (\<lambda>pt.
         kseq (on_mem_u (uvminit pt initcode)) (\<lambda>_.
         kseq (set_proc p (\<lambda>x. x\<lparr>p_sz := PGSIZE\<rparr>)) (\<lambda>_.
         kseq (tf_set p TF_epc 0) (\<lambda>_.
         kseq (tf_set p TF_sp PGSIZE) (\<lambda>_.
         kseq (set_name p (string_bytes ''initcode'')) (\<lambda>_.
         kseq (namei (string_bytes ''/'')) (\<lambda>cwd.
         set_proc p (\<lambda>x. x\<lparr>p_cwd := cwd, p_state := RUNNABLE\<rparr>))))))))))"

subsection \<open>Growing and copying\<close>

text \<open>\<^verbatim>\<open>sz\<close> is a 32-bit \<^verbatim>\<open>uint\<close>: both the old size and the result are truncated.\<close>

definition growproc :: "cint \<Rightarrow> ('a kvm_scheme, cint) kop" where
  "growproc n =
     kseq curproc (\<lambda>p.
     kseq (kget (\<lambda>s. (p_pagetable (proc_at s p), ucast (p_sz (proc_at s p)) :: uint))) (\<lambda>(pt, sz).
     if 0 < sint n then
       kseq (on_mem (uvmalloc pt (ucast sz) (ucast (sz + n)))) (\<lambda>r.
       if (ucast r :: uint) = 0 then kret (-1)
       else kseq (set_proc p (\<lambda>x. x\<lparr>p_sz := ucast (ucast r :: uint)\<rparr>)) (\<lambda>_. kret 0))
     else if sint n < 0 then
       kseq (on_mem (uvmdealloc pt (ucast sz) (ucast (sz + n)))) (\<lambda>r.
       kseq (set_proc p (\<lambda>x. x\<lparr>p_sz := ucast (ucast r :: uint)\<rparr>)) (\<lambda>_. kret 0))
     else kseq (set_proc p (\<lambda>x. x\<lparr>p_sz := ucast sz\<rparr>)) (\<lambda>_. kret 0)))"

definition fork_ofile :: "nat \<Rightarrow> nat \<Rightarrow> nat \<Rightarrow> ('a kfile_scheme, unit) kop" where
  "fork_ofile p np i s =
     (case p_ofile (proc_at s p) ! i of
        None \<Rightarrow> Ok ((), s)
      | Some f \<Rightarrow>
          kseq (filedup f) (\<lambda>g.
          set_proc np (\<lambda>x. x\<lparr>p_ofile := (p_ofile x)[i := Some g]\<rparr>)) s)"

definition copy_trapframe :: "nat \<Rightarrow> nat \<Rightarrow> ('a kvm_scheme, unit) kop" where
  "copy_trapframe np p =
     kmod (\<lambda>s. s\<lparr>km := (km s)\<lparr>ram := store_bytes (p_trapframe (proc_at s np))
       (load_bytes (ram (km s)) (p_trapframe (proc_at s p)) TF_size) (ram (km s))\<rparr>\<rparr>)"

definition fork :: "('a kfile_scheme, cint) kop" where
  "fork =
     kseq curproc (\<lambda>p.
     kseq allocproc (\<lambda>r.
     case r of
       None \<Rightarrow> kret (-1)
     | Some np \<Rightarrow>
         kseq (kget (\<lambda>s. (proc_at s p, p_pagetable (proc_at s np)))) (\<lambda>(pr, npt).
         kseq (on_mem (uvmcopy (p_pagetable pr) npt (p_sz pr))) (\<lambda>r.
         if sint r < 0 then kseq (freeproc np) (\<lambda>_. kret (-1))
         else
           kseq (set_proc np (\<lambda>x. x\<lparr>p_sz := p_sz pr\<rparr>)) (\<lambda>_.
           kseq (copy_trapframe np p) (\<lambda>_.
           kseq (set_proc np (\<lambda>x. x\<lparr>p_mask := p_mask pr\<rparr>)) (\<lambda>_.
           kseq (tf_set np TF_a0 0) (\<lambda>_.
           kseq (kforeach (fork_ofile p np) [0..<NOFILE]) (\<lambda>_.
           kseq (case p_cwd pr of None \<Rightarrow> kpanic ''kerneltrap'' | Some ip \<Rightarrow> idup ip) (\<lambda>cwd.
           kseq (set_proc np (\<lambda>x. x\<lparr>p_cwd := Some cwd\<rparr>)) (\<lambda>_.
           kseq (set_name np (p_name pr)) (\<lambda>_.
           kseq (kget (\<lambda>s. p_pid (proc_at s np))) (\<lambda>pid.
           kseq (set_proc np (\<lambda>x. x\<lparr>p_parent := Some p\<rparr>)) (\<lambda>_.
           kseq (set_proc np (\<lambda>x. x\<lparr>p_state := RUNNABLE\<rparr>)) (\<lambda>_.
           kret pid)))))))))))))))"

subsection \<open>Exit and wait\<close>

definition exit_ofile :: "nat \<Rightarrow> nat \<Rightarrow> ('a kfile_scheme, unit) kop" where
  "exit_ofile p fd s =
     (case p_ofile (proc_at s p) ! fd of
        None \<Rightarrow> Ok ((), s)
      | Some f \<Rightarrow>
          kseq (fileclose f) (\<lambda>_.
          set_proc p (\<lambda>x. x\<lparr>p_ofile := (p_ofile x)[fd := None]\<rparr>)) s)"

text \<open>\<open>exit\<close> up to the switch to the scheduler, from which the process never comes back.\<close>

definition exit :: "cint \<Rightarrow> ('a kfile_scheme, unit) kop" where
  "exit status s =
     (case myproc s of
        None \<Rightarrow> if initproc s = None then Panic ''init exiting'' else Panic ''kerneltrap''
      | Some p \<Rightarrow>
          if initproc s = Some p then Panic ''init exiting''
          else
            kseq (kforeach (exit_ofile p) [0..<NOFILE]) (\<lambda>_.
            kseq begin_op (\<lambda>_.
            kseq (kget (\<lambda>s. p_cwd (proc_at s p))) (\<lambda>cwd.
            kseq (case cwd of None \<Rightarrow> kpanic ''kerneltrap'' | Some ip \<Rightarrow> iput ip) (\<lambda>_.
            kseq end_op (\<lambda>_.
            kseq (set_proc p (\<lambda>x. x\<lparr>p_cwd := None\<rparr>)) (\<lambda>_.
            kseq (kmod (reparent p)) (\<lambda>_.
            kseq (kget (\<lambda>s. p_parent (proc_at s p))) (\<lambda>parent.
            kseq (kmod (wakeup (map_option ChanProc parent))) (\<lambda>_.
            kseq (kget ticks) (\<lambda>now.
            set_proc p (\<lambda>x. x\<lparr>p_xstate := status, p_state := ZOMBIE, p_etime := now\<rparr>))))))))))) s)"

text \<open>
  The scan of \<open>wait\<close> and \<open>waitx\<close>, and what they do with the first exited child found: copy its
  status to the caller's \<^verbatim>\<open>addr\<close>, if that is not null, and free it.
\<close>

definition exited_child :: "nat \<Rightarrow> 'a kproc_scheme \<Rightarrow> nat option" where
  "exited_child p s =
     find (\<lambda>i. p_parent (proc_at s i) = Some p \<and> p_state (proc_at s i) = ZOMBIE) [0..<NPROC]"

definition has_kids :: "nat \<Rightarrow> 'a kproc_scheme \<Rightarrow> bool" where
  "has_kids p s = list_ex (\<lambda>i. p_parent (proc_at s i) = Some p) [0..<NPROC]"

definition reap :: "nat \<Rightarrow> nat \<Rightarrow> uint64 \<Rightarrow> ('a kvm_scheme, cint) kop" where
  "reap p np addr s =
     (let pid = p_pid (proc_at s np) in
      kseq (if addr = 0 then kret 0
            else on_mem (copyout (p_pagetable (proc_at s p)) addr (le_bytes 4 (p_xstate (proc_at s np))))) (\<lambda>r.
      if sint r < 0 then kret (-1)
      else kseq (freeproc np) (\<lambda>_. kret pid)) s)"

text \<open>One pass of the loop: the value to return, or nothing when the caller goes to sleep.\<close>

definition wait_pass :: "nat \<Rightarrow> uint64 \<Rightarrow> ('a kvm_scheme, cint option) kop" where
  "wait_pass p addr s =
     (case exited_child p s of
        Some np \<Rightarrow> kseq (reap p np addr) (\<lambda>r. kret (Some r)) s
      | None \<Rightarrow>
          if \<not> has_kids p s \<or> p_killed (proc_at s p) \<noteq> 0 then Ok (Some (-1), s)
          else Ok (None, sleep_begin p (ChanProc p) s))"

definition wait :: "uint64 \<Rightarrow> ('a kvm_scheme, cint) kop" where
  "wait addr =
     kseq curproc (\<lambda>p.
     kseq (wait_pass p addr) (\<lambda>r. case r of Some v \<Rightarrow> kret v | None \<Rightarrow> (\<lambda>s. Hang)))"

text \<open>\<open>waitx\<close> also gives the run and wait times it has stored through its two pointers, if any.\<close>

definition waitx_pass :: "nat \<Rightarrow> uint64 \<Rightarrow> ('a kvm_scheme, (cint \<times> (uint \<times> uint) option) option) kop" where
  "waitx_pass p addr s =
     (case exited_child p s of
        Some np \<Rightarrow>
          (let x = proc_at s np; rtime = p_rtime x; wtime = p_etime x - p_ctime x - p_rtime x in
           kseq (reap p np addr) (\<lambda>r. kret (Some (r, Some (rtime, wtime)))) s)
      | None \<Rightarrow>
          if \<not> has_kids p s \<or> p_killed (proc_at s p) \<noteq> 0 then Ok (Some (-1, None), s)
          else Ok (None, sleep_begin p (ChanProc p) s))"

definition waitx :: "uint64 \<Rightarrow> ('a kvm_scheme, cint \<times> (uint \<times> uint) option) kop" where
  "waitx addr =
     kseq curproc (\<lambda>p.
     kseq (waitx_pass p addr) (\<lambda>r. case r of Some v \<Rightarrow> kret v | None \<Rightarrow> (\<lambda>s. Hang)))"

end
