(* ===== verification/Xv6_Exec.thy ===== *)
theory Xv6_Exec
  imports Xv6_Lifecycle
begin

section \<open>System call arguments and exec (kernel/syscall.c, kernel/exec.c)\<close>

text \<open>
  Fetching arguments from the trap frame and strings from user memory, and \<open>exec\<close>. The ELF headers
  are read from the bytes of the file at their offsets.
\<close>

abbreviation (input) MAXARG :: nat where "MAXARG \<equiv> 32"
abbreviation (input) MAXPATH :: nat where "MAXPATH \<equiv> 128"
abbreviation (input) ELF_MAGIC :: uint where "ELF_MAGIC \<equiv> 0x464C457F"
abbreviation (input) ELF_PROG_LOAD :: uint where "ELF_PROG_LOAD \<equiv> 1"

subsection \<open>Arguments\<close>

text \<open>The value and the word fetched, which is meaningful when the value is 0.\<close>

definition fetchaddr :: "uint64 \<Rightarrow> ('a kvm_scheme, cint \<times> uint64) kop" where
  "fetchaddr addr =
     kseq curproc (\<lambda>p.
     kseq (kget (\<lambda>s. proc_at s p)) (\<lambda>pr.
     if p_sz pr \<le> addr \<or> p_sz pr < addr + 8 then kret (-1, 0)
     else
       kseq (read_mem (copyin (p_pagetable pr) addr 8)) (\<lambda>(r, bs).
       kret (if r \<noteq> 0 then (-1, 0) else (0, le_word bs)))))"

text \<open>The value and the bytes written to the buffer.\<close>

definition fetchstr :: "uint64 \<Rightarrow> nat \<Rightarrow> ('a kvm_scheme, cint \<times> uchar list) kop" where
  "fetchstr addr limit =
     kseq curproc (\<lambda>p.
     kseq (kget (\<lambda>s. p_pagetable (proc_at s p))) (\<lambda>pt.
     kseq (read_mem (copyinstr pt addr limit)) (\<lambda>(err, bs).
     kret (if sint err < 0 then err else of_nat (strlen bs), bs))))"

definition argraw :: "nat \<Rightarrow> ('a kvm_scheme, uint64) kop" where
  "argraw n =
     kseq curproc (\<lambda>p.
     if n < 6 then tf_get p (TF_a0 + 8 * of_nat n) else kpanic ''argraw'')"

definition argint :: "nat \<Rightarrow> ('a kvm_scheme, cint) kop" where
  "argint n = kseq (argraw n) (\<lambda>v. kret (ucast v))"

definition argaddr :: "nat \<Rightarrow> ('a kvm_scheme, uint64) kop" where
  "argaddr n = argraw n"

definition argstr :: "nat \<Rightarrow> nat \<Rightarrow> ('a kvm_scheme, cint \<times> uchar list) kop" where
  "argstr n limit = kseq (argaddr n) (\<lambda>addr. fetchstr addr limit)"

subsection \<open>ELF headers\<close>

definition word64_at :: "uchar list \<Rightarrow> nat \<Rightarrow> uint64" where
  "word64_at bs off = le_word (take 8 (drop off bs))"

record elfhdr =
  e_magic :: uint
  e_entry :: uint64
  e_phoff :: uint64
  e_phnum :: ushort

definition elfhdr_of :: "uchar list \<Rightarrow> elfhdr" where
  "elfhdr_of bs = \<lparr>e_magic = word32_at bs 0, e_entry = word64_at bs 24, e_phoff = word64_at bs 32,
     e_phnum = word16_at bs 56\<rparr>"

record proghdr =
  ph_type :: uint
  ph_off :: uint64
  ph_vaddr :: uint64
  ph_filesz :: uint64
  ph_memsz :: uint64

definition proghdr_of :: "uchar list \<Rightarrow> proghdr" where
  "proghdr_of bs = \<lparr>ph_type = word32_at bs 0, ph_off = word64_at bs 8, ph_vaddr = word64_at bs 16,
     ph_filesz = word64_at bs 32, ph_memsz = word64_at bs 40\<rparr>"

subsection \<open>Loading segments\<close>

text \<open>
  \<open>loadseg\<close> from byte \<open>i\<close> on. The fuel covers the 2 ^ 20 pages of the largest size: \<^verbatim>\<open>i\<close> is 32 bits
  wide, and wraps to start again when the size is in the last page below 2 ^ 32.
\<close>

fun loadseg_loop :: "nat \<Rightarrow> uint64 \<Rightarrow> uint64 \<Rightarrow> nat \<Rightarrow> uint \<Rightarrow> uint \<Rightarrow> uint \<Rightarrow> ('a kfs_scheme, cint) kop" where
  "loadseg_loop 0 pagetable va ip offset sz i s = Hang"
| "loadseg_loop (Suc fuel) pagetable va ip offset sz i s =
     (if i < sz then
        kseq (read_mem (walkaddr pagetable (va + ucast i))) (\<lambda>pa.
        if pa = 0 then kpanic ''loadseg: address should exist''
        else
          let n = (if sz - i < 4096 then sz - i else 4096) in
          kseq (readi ip (DstPage pa) (offset + i) n) (\<lambda>(r, _).
          if r \<noteq> n then kret (-1)
          else loadseg_loop fuel pagetable va ip offset sz (i + 4096))) s
      else Ok (0, s))"

definition loadseg :: "uint64 \<Rightarrow> uint64 \<Rightarrow> nat \<Rightarrow> uint \<Rightarrow> uint \<Rightarrow> ('a kfs_scheme, cint) kop" where
  "loadseg pagetable va ip offset sz = loadseg_loop 1048577 pagetable va ip offset sz 0"

text \<open>
  The loop over the program headers: whether it ran to the end, and the size of the image it has
  allocated by then.
\<close>

fun exec_segments :: "nat \<Rightarrow> uint64 \<Rightarrow> nat \<Rightarrow> cint \<Rightarrow> uint64 \<Rightarrow> ('a kfs_scheme, bool \<times> uint64) kop" where
  "exec_segments 0 pagetable ip off sz s = Ok ((True, sz), s)"
| "exec_segments (Suc k) pagetable ip off sz s =
     kseq (readi ip DstVar off 56) (\<lambda>(r, bs).
     let ph = proghdr_of bs in
     if r \<noteq> 56 then kret (False, sz)
     else if ph_type ph \<noteq> ELF_PROG_LOAD then exec_segments k pagetable ip (off + 56) sz
     else if ph_memsz ph < ph_filesz ph then kret (False, sz)
     else if ph_vaddr ph + ph_memsz ph < ph_vaddr ph then kret (False, sz)
     else
       kseq (on_mem (uvmalloc pagetable sz (ph_vaddr ph + ph_memsz ph))) (\<lambda>sz1.
       if sz1 = 0 then kret (False, sz)
       else if ph_vaddr ph mod PGSIZE \<noteq> 0 then kret (False, sz1)
       else
         kseq (loadseg pagetable (ph_vaddr ph) ip (ucast (ph_off ph)) (ucast (ph_filesz ph))) (\<lambda>r.
         if sint r < 0 then kret (False, sz1)
         else exec_segments k pagetable ip (off + 56) sz1))) s"

subsection \<open>The user stack\<close>

text \<open>The string in an argument page.\<close>

definition page_string :: "mem \<Rightarrow> uint64 \<Rightarrow> uchar list" where
  "page_string m a = cstring (load_bytes m a PGBYTES)"

text \<open>
  Pushing the argument strings: the new stack pointer and \<^verbatim>\<open>ustack\<close>, or nothing for \<^verbatim>\<open>goto bad\<close>.
\<close>

fun exec_push :: "uint64 \<Rightarrow> uint64 \<Rightarrow> uint64 list \<Rightarrow> uint64 \<Rightarrow> uint64 list \<Rightarrow> ('a kvm_scheme, (uint64 \<times> uint64 list) option) kop" where
  "exec_push pagetable stackbase [] sp ustack s = Ok (Some (sp, ustack), s)"
| "exec_push pagetable stackbase (a # argv) sp ustack s =
     (if MAXARG \<le> length ustack then Ok (None, s)
      else
        let str = page_string (ram (km s)) a;
            sp1 = sp - (of_nat (length str) + 1);
            sp2 = sp1 - sp1 mod 16 in
        if sp2 < stackbase then Ok (None, s)
        else
          kseq (on_mem (copyout pagetable sp2 (str @ [0]))) (\<lambda>r.
          if sint r < 0 then kret None
          else exec_push pagetable stackbase argv sp2 (ustack @ [sp2])) s)"

text \<open>
  The part of the path after its last slash, for \<^verbatim>\<open>p->name\<close>.
\<close>

definition path_last :: "uchar list \<Rightarrow> uchar list" where
  "path_last path = rev (takeWhile (\<lambda>c. c \<noteq> SLASH) (rev path))"

subsection \<open>exec\<close>

definition exec_bad :: "uint64 \<Rightarrow> uint64 \<Rightarrow> nat option \<Rightarrow> ('a kfs_scheme, cint) kop" where
  "exec_bad pagetable sz ip =
     kseq (kwhen (pagetable \<noteq> 0) (on_mem_u (proc_freepagetable pagetable sz))) (\<lambda>_.
     kseq (case ip of None \<Rightarrow> kret () | Some i \<Rightarrow> kseq (iunlockput i) (\<lambda>_. end_op)) (\<lambda>_.
     kret (-1)))"

text \<open>The second half: the stack, and the switch to the new image.\<close>

definition exec_commit :: "nat \<Rightarrow> uchar list \<Rightarrow> uint64 \<Rightarrow> uint64 \<Rightarrow> uint64 \<Rightarrow> uint64 \<Rightarrow> ('a kfs_scheme, unit) kop" where
  "exec_commit p path pagetable sz sp entry =
     kseq (tf_set p TF_a1 sp) (\<lambda>_.
     kseq (set_name p (path_last path)) (\<lambda>_.
     kseq (kget (\<lambda>s. (p_pagetable (proc_at s p), p_sz (proc_at s p)))) (\<lambda>(oldpagetable, oldsz).
     kseq (set_proc p (\<lambda>x. x\<lparr>p_pagetable := pagetable, p_sz := sz\<rparr>)) (\<lambda>_.
     kseq (tf_set p TF_epc entry) (\<lambda>_.
     kseq (tf_set p TF_sp sp) (\<lambda>_.
     on_mem_u (proc_freepagetable oldpagetable oldsz)))))))"

definition exec_stack :: "nat \<Rightarrow> uchar list \<Rightarrow> uint64 list \<Rightarrow> uint64 \<Rightarrow> uint64 \<Rightarrow> uint64 \<Rightarrow> ('a kfs_scheme, cint) kop" where
  "exec_stack p path argv pagetable sz0 entry =
     (let sz1 = PGROUNDUP sz0 in
      kseq (on_mem (uvmalloc pagetable sz1 (sz1 + 2 * PGSIZE))) (\<lambda>sz.
      if sz = 0 then exec_bad pagetable sz1 None
      else
        kseq (on_mem_u (uvmclear pagetable (sz - 2 * PGSIZE))) (\<lambda>_.
        kseq (exec_push pagetable (sz - PGSIZE) argv sz []) (\<lambda>r.
        case r of
          None \<Rightarrow> exec_bad pagetable sz None
        | Some (sp, ustack) \<Rightarrow>
            let sp1 = sp - (of_nat (length argv) + 1) * 8; sp2 = sp1 - sp1 mod 16 in
            if sp2 < sz - PGSIZE then exec_bad pagetable sz None
            else
              kseq (on_mem (copyout pagetable sp2 (concat (map (le_bytes 8) (ustack @ [0]))))) (\<lambda>r.
              if sint r < 0 then exec_bad pagetable sz None
              else
                kseq (exec_commit p path pagetable sz sp2 entry) (\<lambda>_.
                kret (of_nat (length argv))))))))"

text \<open>\<open>argv\<close> is the array up to its null pointer.\<close>

definition exec :: "uchar list \<Rightarrow> uint64 list \<Rightarrow> ('a kfs_scheme, cint) kop" where
  "exec path argv =
     kseq begin_op (\<lambda>_.
     kseq (namei path) (\<lambda>r.
     case r of
       None \<Rightarrow> kseq end_op (\<lambda>_. kret (-1))
     | Some ip \<Rightarrow>
         kseq (ilock ip) (\<lambda>_.
         kseq (readi ip DstVar 0 64) (\<lambda>(r, bs).
         let elf = elfhdr_of bs in
         if r \<noteq> 64 \<or> e_magic elf \<noteq> ELF_MAGIC then exec_bad 0 0 (Some ip)
         else
           kseq curproc (\<lambda>p.
           kseq (kget (\<lambda>s. p_trapframe (proc_at s p))) (\<lambda>tf.
           kseq (on_mem (proc_pagetable tf)) (\<lambda>pagetable.
           if pagetable = 0 then exec_bad 0 0 (Some ip)
           else
             kseq (exec_segments (unat (e_phnum elf)) pagetable ip (ucast (e_phoff elf)) 0) (\<lambda>(ok, sz).
             if \<not> ok then exec_bad pagetable sz (Some ip)
             else
               kseq (iunlockput ip) (\<lambda>_.
               kseq end_op (\<lambda>_.
               exec_stack p path argv pagetable sz (e_entry elf)))))))))))"

end
