(* ===== verification/Xv6_Sysfile.thy ===== *)
theory Xv6_Sysfile
  imports Xv6_Exec
begin

section \<open>File system calls (kernel/sysfile.c)\<close>

text \<open>
  Every system call of kernel/sysfile.c. A system call's \<^verbatim>\<open>uint64\<close> value is given as a 64-bit word;
  the value -1 of a C \<^verbatim>\<open>int\<close> is sign-extended by \<open>scast\<close>. Where \<^verbatim>\<open>argint\<close> and \<^verbatim>\<open>argaddr\<close> are tested
  for failure the test is left out, since they always return 0.
\<close>

abbreviation (input) O_RDONLY :: cint where "O_RDONLY \<equiv> 0"
abbreviation (input) O_WRONLY :: cint where "O_WRONLY \<equiv> 1"
abbreviation (input) O_RDWR :: cint where "O_RDWR \<equiv> 2"
abbreviation (input) O_CREATE :: cint where "O_CREATE \<equiv> 0x200"
abbreviation (input) O_TRUNC :: cint where "O_TRUNC \<equiv> 0x400"

type_synonym 's sysc = "('s, uint64) kop"

definition sret :: "cint \<Rightarrow> 's sysc" where
  "sret r = kret (scast r)"

subsection \<open>File descriptors\<close>

text \<open>The descriptor and the file, or nothing for -1.\<close>

definition argfd :: "nat \<Rightarrow> ('a kvm_scheme, (nat \<times> nat) option) kop" where
  "argfd n =
     kseq (argint n) (\<lambda>fd.
     if sint fd < 0 \<or> int NOFILE \<le> sint fd then kret None
     else
       kseq curproc (\<lambda>p.
       kseq (kget (\<lambda>s. p_ofile (proc_at s p) ! unat fd)) (\<lambda>f.
       kret (map_option (\<lambda>g. (unat fd, g)) f))))"

definition set_ofile :: "nat \<Rightarrow> nat \<Rightarrow> nat option \<Rightarrow> ('a kproc_scheme, unit) kop" where
  "set_ofile p fd f = set_proc p (\<lambda>x. x\<lparr>p_ofile := (p_ofile x)[fd := f]\<rparr>)"

definition fdalloc :: "nat \<Rightarrow> ('a kproc_scheme, nat option) kop" where
  "fdalloc f =
     kseq curproc (\<lambda>p.
     kseq (kget (\<lambda>s. find (\<lambda>fd. p_ofile (proc_at s p) ! fd = None) [0..<NOFILE])) (\<lambda>r.
     case r of
       None \<Rightarrow> kret None
     | Some fd \<Rightarrow> kseq (set_ofile p fd (Some f)) (\<lambda>_. kret (Some fd))))"

definition sys_dup :: "'a kfile_scheme sysc" where
  "sys_dup =
     kseq (argfd 0) (\<lambda>r. case r of
       None \<Rightarrow> sret (-1)
     | Some (_, f) \<Rightarrow>
         kseq (fdalloc f) (\<lambda>r. case r of
           None \<Rightarrow> sret (-1)
         | Some fd \<Rightarrow> kseq (filedup f) (\<lambda>_. sret (of_nat fd))))"

definition sys_read :: "'a kfile_scheme sysc" where
  "sys_read =
     kseq (argfd 0) (\<lambda>r. case r of
       None \<Rightarrow> sret (-1)
     | Some (_, f) \<Rightarrow>
         kseq (argint 2) (\<lambda>n. kseq (argaddr 1) (\<lambda>p. kseq (fileread f p n) sret)))"

definition sys_write :: "'a kfile_scheme sysc" where
  "sys_write =
     kseq (argfd 0) (\<lambda>r. case r of
       None \<Rightarrow> sret (-1)
     | Some (_, f) \<Rightarrow>
         kseq (argint 2) (\<lambda>n. kseq (argaddr 1) (\<lambda>p. kseq (filewrite f p n) sret)))"

definition sys_close :: "'a kfile_scheme sysc" where
  "sys_close =
     kseq (argfd 0) (\<lambda>r. case r of
       None \<Rightarrow> sret (-1)
     | Some (fd, f) \<Rightarrow>
         kseq curproc (\<lambda>p.
         kseq (set_ofile p fd None) (\<lambda>_.
         kseq (fileclose f) (\<lambda>_. sret 0))))"

definition sys_fstat :: "uchar list \<Rightarrow> 'a kfile_scheme sysc" where
  "sys_fstat pad =
     kseq (argfd 0) (\<lambda>r. case r of
       None \<Rightarrow> sret (-1)
     | Some (_, f) \<Rightarrow> kseq (argaddr 1) (\<lambda>st. kseq (filestat pad f st) sret))"

subsection \<open>Links\<close>

text \<open>A failing system call inside a transaction.\<close>

definition fail_op :: "'a kfs_scheme sysc" where
  "fail_op = kseq end_op (\<lambda>_. sret (-1))"

definition add_nlink :: "nat \<Rightarrow> ushort \<Rightarrow> ('a kfs_scheme, unit) kop" where
  "add_nlink ip d = kseq (kmod (upd_inode ip (\<lambda>x. x\<lparr>i_nlink := i_nlink x + d\<rparr>))) (\<lambda>_. iupdate ip)"

definition link_bad :: "nat \<Rightarrow> 'a kfs_scheme sysc" where
  "link_bad ip =
     kseq (ilock ip) (\<lambda>_.
     kseq (add_nlink ip (-1)) (\<lambda>_.
     kseq (iunlockput ip) (\<lambda>_.
     fail_op)))"

definition name_buf :: "uchar list" where
  "name_buf = replicate DIRSIZ 0"

definition link_inode :: "uchar list \<Rightarrow> nat \<Rightarrow> 'a kfs_scheme sysc" where
  "link_inode new ip =
     kseq (ilock ip) (\<lambda>_.
     kseq (kget (\<lambda>s. i_type (inode_at s ip))) (\<lambda>ty.
     if ty = T_DIR then kseq (iunlockput ip) (\<lambda>_. fail_op)
     else
       kseq (add_nlink ip 1) (\<lambda>_.
       kseq (iunlock ip) (\<lambda>_.
       kseq (nameiparent new name_buf) (\<lambda>(r, name).
       case r of
         None \<Rightarrow> link_bad ip
       | Some dp \<Rightarrow>
           kseq (ilock dp) (\<lambda>_.
           kseq (kget (\<lambda>s. (i_dev (inode_at s dp) = i_dev (inode_at s ip), i_inum (inode_at s ip)))) (\<lambda>(same, inum).
           kseq (if \<not> same then kret (-1) else dirlink dp name inum) (\<lambda>r.
           if sint r < 0 then kseq (iunlockput dp) (\<lambda>_. link_bad ip)
           else
             kseq (iunlockput dp) (\<lambda>_.
             kseq (iput ip) (\<lambda>_.
             kseq end_op (\<lambda>_. sret 0)))))))))))"

definition sys_link :: "'a kfs_scheme sysc" where
  "sys_link =
     kseq (argstr 0 MAXPATH) (\<lambda>(r0, old).
     if sint r0 < 0 then sret (-1)
     else
       kseq (argstr 1 MAXPATH) (\<lambda>(r1, new).
       if sint r1 < 0 then sret (-1)
       else
         kseq begin_op (\<lambda>_.
         kseq (namei (cstring old)) (\<lambda>r. case r of
           None \<Rightarrow> fail_op
         | Some ip \<Rightarrow> link_inode (cstring new) ip))))"

fun isdirempty_loop :: "nat \<Rightarrow> uint list \<Rightarrow> ('a kfs_scheme, bool) kop" where
  "isdirempty_loop dp [] s = Ok (True, s)"
| "isdirempty_loop dp (off # offs) s =
     kseq (readi dp DstVar off 16) (\<lambda>(r, de).
     if r \<noteq> 16 then kpanic ''isdirempty: readi''
     else if dirent_inum de \<noteq> 0 then kret False
     else isdirempty_loop dp offs) s"

definition isdirempty :: "nat \<Rightarrow> ('a kfs_scheme, bool) kop" where
  "isdirempty dp s = isdirempty_loop dp (drop 2 (dirent_offs (i_size (inode_at s dp)))) s"

definition unlink_bad :: "nat \<Rightarrow> 'a kfs_scheme sysc" where
  "unlink_bad dp = kseq (iunlockput dp) (\<lambda>_. fail_op)"

definition unlink_inode :: "nat \<Rightarrow> nat \<Rightarrow> uint \<Rightarrow> 'a kfs_scheme sysc" where
  "unlink_inode dp ip off =
     kseq (ilock ip) (\<lambda>_.
     kseq (kget (\<lambda>s. inode_at s ip)) (\<lambda>x.
     if sint (i_nlink x) < 1 then kpanic ''unlink: nlink < 1''
     else
       kseq (if i_type x = T_DIR then isdirempty ip else kret True) (\<lambda>empty.
       if \<not> empty then kseq (iunlockput ip) (\<lambda>_. unlink_bad dp)
       else
         kseq (writei dp (SrcVar (replicate 16 0)) off 16) (\<lambda>r.
         if r \<noteq> 16 then kpanic ''unlink: writei''
         else
           kseq (kwhen (i_type x = T_DIR) (add_nlink dp (-1))) (\<lambda>_.
           kseq (iunlockput dp) (\<lambda>_.
           kseq (add_nlink ip (-1)) (\<lambda>_.
           kseq (iunlockput ip) (\<lambda>_.
           kseq end_op (\<lambda>_. sret 0)))))))))"

definition sys_unlink :: "'a kfs_scheme sysc" where
  "sys_unlink =
     kseq (argstr 0 MAXPATH) (\<lambda>(r0, path).
     if sint r0 < 0 then sret (-1)
     else
       kseq begin_op (\<lambda>_.
       kseq (nameiparent (cstring path) name_buf) (\<lambda>(r, name). case r of
         None \<Rightarrow> fail_op
       | Some dp \<Rightarrow>
           kseq (ilock dp) (\<lambda>_.
           if namecmp name (string_bytes ''.'') = 0 \<or> namecmp name (string_bytes ''..'') = 0
           then unlink_bad dp
           else
             kseq (dirlookup dp name) (\<lambda>found. case found of
               None \<Rightarrow> unlink_bad dp
             | Some (ip, off) \<Rightarrow> unlink_inode dp ip off)))))"

subsection \<open>Creating and opening\<close>

text \<open>\<open>ialloc\<close> panics when it finds no inode, so it never returns the null that \<open>create\<close> tests for.\<close>

definition create :: "uchar list \<Rightarrow> ushort \<Rightarrow> ushort \<Rightarrow> ushort \<Rightarrow> ('a kfs_scheme, nat option) kop" where
  "create path ty major minor =
     kseq (nameiparent path name_buf) (\<lambda>(r, name). case r of
       None \<Rightarrow> kret None
     | Some dp \<Rightarrow>
         kseq (ilock dp) (\<lambda>_.
         kseq (dirlookup dp name) (\<lambda>found. case found of
           Some (ip, _) \<Rightarrow>
             kseq (iunlockput dp) (\<lambda>_.
             kseq (ilock ip) (\<lambda>_.
             kseq (kget (\<lambda>s. i_type (inode_at s ip))) (\<lambda>ity.
             if ty = T_FILE \<and> (ity = T_FILE \<or> ity = T_DEVICE) then kret (Some ip)
             else kseq (iunlockput ip) (\<lambda>_. kret None))))
         | None \<Rightarrow>
             kseq (kget (\<lambda>s. i_dev (inode_at s dp))) (\<lambda>dev.
             kseq (ialloc dev ty) (\<lambda>ip.
             kseq (ilock ip) (\<lambda>_.
             kseq (kmod (upd_inode ip (\<lambda>x. x\<lparr>i_major := major, i_minor := minor, i_nlink := 1\<rparr>))) (\<lambda>_.
             kseq (iupdate ip) (\<lambda>_.
             kseq (kget (\<lambda>s. (i_inum (inode_at s ip), i_inum (inode_at s dp)))) (\<lambda>(inum, dnum).
             kseq (kwhen (ty = T_DIR)
               (kseq (add_nlink dp 1) (\<lambda>_.
                kseq (dirlink ip (string_bytes ''.'') inum) (\<lambda>r.
                if sint r < 0 then kpanic ''create dots''
                else
                  kseq (dirlink ip (string_bytes ''..'') dnum) (\<lambda>r.
                  if sint r < 0 then kpanic ''create dots'' else kret ()))))) (\<lambda>_.
             kseq (dirlink dp name inum) (\<lambda>r.
             if sint r < 0 then kpanic ''create: dirlink''
             else
               kseq (iunlockput dp) (\<lambda>_.
               kret (Some ip)))))))))))))"

definition open_bad :: "nat \<Rightarrow> 'a kfs_scheme sysc" where
  "open_bad ip = kseq (iunlockput ip) (\<lambda>_. fail_op)"

text \<open>From the point where \<^verbatim>\<open>ip\<close> is locked and its type has been accepted.\<close>

definition open_file :: "cint \<Rightarrow> nat \<Rightarrow> 'a kfile_scheme sysc" where
  "open_file omode ip =
     kseq (kget (\<lambda>s. inode_at s ip)) (\<lambda>x.
     if i_type x = T_DEVICE \<and> (sint (i_major x) < 0 \<or> int NDEV \<le> sint (i_major x)) then open_bad ip
     else
       kseq filealloc (\<lambda>r. case r of
         None \<Rightarrow> open_bad ip
       | Some f \<Rightarrow>
           kseq (fdalloc f) (\<lambda>r. case r of
             None \<Rightarrow> kseq (fileclose f) (\<lambda>_. open_bad ip)
           | Some fd \<Rightarrow>
               kseq (kmod (upd_file f (\<lambda>y.
                 let y1 = (if i_type x = T_DEVICE then y\<lparr>f_type := FD_DEVICE, f_major := i_major x\<rparr>
                           else y\<lparr>f_type := FD_INODE, f_off := 0\<rparr>)
                 in y1\<lparr>f_ip := ip, f_readable := (omode AND O_WRONLY = 0),
                       f_writable := (omode AND O_WRONLY \<noteq> 0 \<or> omode AND O_RDWR \<noteq> 0)\<rparr>))) (\<lambda>_.
               kseq (kwhen (omode AND O_TRUNC \<noteq> 0 \<and> i_type x = T_FILE) (itrunc ip)) (\<lambda>_.
               kseq (iunlock ip) (\<lambda>_.
               kseq end_op (\<lambda>_.
               sret (of_nat fd))))))))"

definition sys_open :: "'a kfile_scheme sysc" where
  "sys_open =
     kseq (argstr 0 MAXPATH) (\<lambda>(n, path).
     if sint n < 0 then sret (-1)
     else
       kseq (argint 1) (\<lambda>omode.
       kseq begin_op (\<lambda>_.
       if omode AND O_CREATE \<noteq> 0 then
         kseq (create (cstring path) T_FILE 0 0) (\<lambda>r. case r of
           None \<Rightarrow> fail_op
         | Some ip \<Rightarrow> open_file omode ip)
       else
         kseq (namei (cstring path)) (\<lambda>r. case r of
           None \<Rightarrow> fail_op
         | Some ip \<Rightarrow>
             kseq (ilock ip) (\<lambda>_.
             kseq (kget (\<lambda>s. i_type (inode_at s ip))) (\<lambda>ty.
             if ty = T_DIR \<and> omode \<noteq> O_RDONLY then open_bad ip
             else open_file omode ip))))))"

definition sys_mkdir :: "'a kfs_scheme sysc" where
  "sys_mkdir =
     kseq begin_op (\<lambda>_.
     kseq (argstr 0 MAXPATH) (\<lambda>(r, path).
     if sint r < 0 then fail_op
     else
       kseq (create (cstring path) T_DIR 0 0) (\<lambda>r. case r of
         None \<Rightarrow> fail_op
       | Some ip \<Rightarrow> kseq (iunlockput ip) (\<lambda>_. kseq end_op (\<lambda>_. sret 0)))))"

definition sys_mknod :: "'a kfs_scheme sysc" where
  "sys_mknod =
     kseq begin_op (\<lambda>_.
     kseq (argstr 0 MAXPATH) (\<lambda>(r, path).
     if sint r < 0 then fail_op
     else
       kseq (argint 1) (\<lambda>major.
       kseq (argint 2) (\<lambda>minor.
       kseq (create (cstring path) T_DEVICE (ucast major) (ucast minor)) (\<lambda>r. case r of
         None \<Rightarrow> fail_op
       | Some ip \<Rightarrow> kseq (iunlockput ip) (\<lambda>_. kseq end_op (\<lambda>_. sret 0)))))))"

definition sys_chdir :: "'a kfs_scheme sysc" where
  "sys_chdir =
     kseq curproc (\<lambda>p.
     kseq begin_op (\<lambda>_.
     kseq (argstr 0 MAXPATH) (\<lambda>(r, path).
     if sint r < 0 then fail_op
     else
       kseq (namei (cstring path)) (\<lambda>r. case r of
         None \<Rightarrow> fail_op
       | Some ip \<Rightarrow>
           kseq (ilock ip) (\<lambda>_.
           kseq (kget (\<lambda>s. i_type (inode_at s ip))) (\<lambda>ty.
           if ty \<noteq> T_DIR then kseq (iunlockput ip) (\<lambda>_. fail_op)
           else
             kseq (iunlock ip) (\<lambda>_.
             kseq (kget (\<lambda>s. p_cwd (proc_at s p))) (\<lambda>cwd.
             kseq (case cwd of None \<Rightarrow> kpanic ''kerneltrap'' | Some old \<Rightarrow> iput old) (\<lambda>_.
             kseq end_op (\<lambda>_.
             kseq (set_proc p (\<lambda>x. x\<lparr>p_cwd := Some ip\<rparr>)) (\<lambda>_.
             sret 0)))))))))))"

subsection \<open>exec and pipe\<close>

text \<open>
  The loop that copies the arguments into pages: whether it succeeded, and the pages allocated.
  \<open>k\<close> entries of \<^verbatim>\<open>argv\<close> are left.
\<close>

fun exec_args :: "uint64 \<Rightarrow> nat \<Rightarrow> uint64 list \<Rightarrow> ('a kvm_scheme, bool \<times> uint64 list) kop" where
  "exec_args uargv 0 argv s = Ok ((False, argv), s)"
| "exec_args uargv (Suc k) argv s =
     kseq (fetchaddr (uargv + 8 * of_nat (length argv))) (\<lambda>(r, uarg).
     if sint r < 0 then kret (False, argv)
     else if uarg = 0 then kret (True, argv)
     else
       kseq (on_mem_t kalloc) (\<lambda>pg.
       if pg = 0 then kret (False, argv)
       else
         kseq (fetchstr uarg PGBYTES) (\<lambda>(r, bs).
         kseq (kmod (\<lambda>s. s\<lparr>km := (km s)\<lparr>ram := store_bytes pg bs (ram (km s))\<rparr>\<rparr>)) (\<lambda>_.
         if sint r < 0 then kret (False, argv @ [pg])
         else exec_args uargv k (argv @ [pg]))))) s"

definition free_pages :: "uint64 list \<Rightarrow> ('a kvm_scheme, unit) kop" where
  "free_pages pgs = kforeach (\<lambda>pg. on_mem_u (kfree pg)) pgs"

definition sys_exec :: "'a kfs_scheme sysc" where
  "sys_exec =
     kseq (argstr 0 MAXPATH) (\<lambda>(r, path).
     if sint r < 0 then sret (-1)
     else
       kseq (argaddr 1) (\<lambda>uargv.
       kseq (exec_args uargv MAXARG []) (\<lambda>(ok, argv).
       if \<not> ok then kseq (free_pages argv) (\<lambda>_. sret (-1))
       else
         kseq (exec (cstring path) argv) (\<lambda>ret.
         kseq (free_pages argv) (\<lambda>_.
         sret ret)))))"

definition sys_pipe :: "'a kfile_scheme sysc" where
  "sys_pipe =
     kseq curproc (\<lambda>p.
     kseq (argaddr 0) (\<lambda>fdarray.
     kseq pipealloc (\<lambda>r. case r of
       None \<Rightarrow> sret (-1)
     | Some (rf, wrf) \<Rightarrow>
         let give_up = kseq (fileclose rf) (\<lambda>_. kseq (fileclose wrf) (\<lambda>_. sret (-1))) in
         kseq (fdalloc rf) (\<lambda>r0. case r0 of
           None \<Rightarrow> give_up
         | Some fd0 \<Rightarrow>
             kseq (fdalloc wrf) (\<lambda>r1. case r1 of
               None \<Rightarrow> kseq (set_ofile p fd0 None) (\<lambda>_. give_up)
             | Some fd1 \<Rightarrow>
                 let undo = kseq (set_ofile p fd0 None) (\<lambda>_. kseq (set_ofile p fd1 None) (\<lambda>_. give_up)) in
                 kseq (kget (\<lambda>s. p_pagetable (proc_at s p))) (\<lambda>pt.
                 kseq (on_mem (copyout pt fdarray (le_bytes 4 (of_nat fd0 :: cint)))) (\<lambda>r.
                 if sint r < 0 then undo
                 else
                   kseq (on_mem (copyout pt (fdarray + 4) (le_bytes 4 (of_nat fd1 :: cint)))) (\<lambda>r.
                   if sint r < 0 then undo else sret 0))))))))"

end
