(* ===== verification/Xv6_Syscall.thy ===== *)
theory Xv6_Syscall
  imports Xv6_Sysfile
begin

section \<open>Process system calls and the dispatcher (kernel/sysproc.c, kernel/syscall.c)\<close>

text \<open>
  The system calls of kernel/sysproc.c, the table of all 24 system calls, and \<open>syscall\<close> with its
  tracing. A local variable that the source reads without having set it is a field of \<open>uninit\<close>,
  which the operations take as an argument.
\<close>

record uninit =
  u_pad :: "uchar list"
  u_names :: "nat \<Rightarrow> string option"
  u_count :: "nat \<Rightarrow> cint"
  u_wtime :: uint
  u_rtime :: uint

subsection \<open>sysproc.c\<close>

text \<open>\<open>exit\<close> never returns: the value None stands for a switch to the scheduler for ever.\<close>

definition sys_exit :: "('a kfile_scheme, uint64 option) kop" where
  "sys_exit = kseq (argint 0) (\<lambda>n. kseq (exit n) (\<lambda>_. kret None))"

definition sys_getpid :: "'a kproc_scheme sysc" where
  "sys_getpid = kseq curproc (\<lambda>p. kseq (kget (\<lambda>s. p_pid (proc_at s p))) sret)"

definition sys_fork :: "'a kfile_scheme sysc" where
  "sys_fork = kseq fork sret"

definition sys_wait :: "'a kvm_scheme sysc" where
  "sys_wait = kseq (argaddr 0) (\<lambda>p. kseq (wait p) sret)"

text \<open>The old size goes through the \<^verbatim>\<open>int addr\<close>, so a break above 2 ^ 31 comes back sign-extended.\<close>

definition sys_sbrk :: "'a kvm_scheme sysc" where
  "sys_sbrk =
     kseq (argint 0) (\<lambda>n.
     kseq curproc (\<lambda>p.
     kseq (kget (\<lambda>s. ucast (p_sz (proc_at s p)) :: cint)) (\<lambda>addr.
     kseq (growproc n) (\<lambda>r.
     if sint r < 0 then sret (-1) else sret addr))))"

text \<open>\<^verbatim>\<open>ticks - ticks0 < n\<close> is an unsigned comparison; with \<^verbatim>\<open>ticks0 = ticks\<close> it fails for 0 only.\<close>

definition sys_sleep :: "'a kvm_scheme sysc" where
  "sys_sleep =
     kseq (argint 0) (\<lambda>n.
     kseq (kget ticks) (\<lambda>ticks0.
     kseq (kget ticks) (\<lambda>now.
     if now - ticks0 < n then
       kseq curproc (\<lambda>p.
       kseq (kget (\<lambda>s. p_killed (proc_at s p))) (\<lambda>killed.
       if killed \<noteq> 0 then sret (-1) else (\<lambda>s. Hang)))
     else sret 0)))"

definition sys_kill :: "'a kvm_scheme sysc" where
  "sys_kill = kseq (argint 0) (\<lambda>pid. kseq (\<lambda>s. Ok (kill pid s)) sret)"

definition sys_uptime :: "'a kproc_scheme sysc" where
  "sys_uptime = kseq (kget ticks) (\<lambda>xticks. kret (ucast xticks))"

definition sys_trace :: "'a kvm_scheme sysc" where
  "sys_trace =
     kseq (argint 0) (\<lambda>mask.
     kseq curproc (\<lambda>p.
     kseq (set_proc p (\<lambda>x. x\<lparr>p_mask := mask\<rparr>)) (\<lambda>_. sret 0)))"

text \<open>
  \<^verbatim>\<open>waitx(addr, &wtime, &rtime)\<close> passes its pointers in the opposite order to \<open>waitx\<close>'s parameters:
  the variable \<^verbatim>\<open>wtime\<close> receives the run time. Both stay unset when \<open>waitx\<close> finds no child.
\<close>

definition sys_waitx :: "uninit \<Rightarrow> 'a kvm_scheme sysc" where
  "sys_waitx u =
     kseq (argaddr 0) (\<lambda>addr.
     kseq (argaddr 1) (\<lambda>addr1.
     kseq (argaddr 2) (\<lambda>addr2.
     kseq (waitx addr) (\<lambda>(ret, times).
     let (wtime, rtime) = (case times of None \<Rightarrow> (u_wtime u, u_rtime u) | Some (p_rt, p_wt) \<Rightarrow> (p_rt, p_wt)) in
     kseq curproc (\<lambda>p.
     kseq (kget (\<lambda>s. p_pagetable (proc_at s p))) (\<lambda>pt.
     kseq (on_mem (copyout pt addr1 (le_bytes 4 wtime))) (\<lambda>r.
     if sint r < 0 then sret (-1)
     else
       kseq (on_mem (copyout pt addr2 (le_bytes 4 rtime))) (\<lambda>r.
       if sint r < 0 then sret (-1) else sret ret))))))))"

definition sys_set_priority :: "policy \<Rightarrow> 'a kvm_scheme sysc" where
  "sys_set_priority pol =
     (if pol \<noteq> PBS then sret (-1)
      else
        kseq (argint 0) (\<lambda>priority.
        kseq (argint 1) (\<lambda>pid.
        if sint priority < 0 then sret (-1)
        else if 100 < sint priority then sret (-1)
        else kseq (\<lambda>s. Ok (actually_set_priority priority pid s)) sret)))"

subsection \<open>The dispatcher\<close>

definition returns :: "'s sysc \<Rightarrow> ('s, uint64 option) kop" where
  "returns f = kseq f (\<lambda>v. kret (Some v))"

definition syscalls :: "policy \<Rightarrow> uninit \<Rightarrow> nat \<Rightarrow> ('a kfile_scheme, uint64 option) kop option" where
  "syscalls pol u num =
     (if num = 1 then Some (returns sys_fork)
      else if num = 2 then Some sys_exit
      else if num = 3 then Some (returns sys_wait)
      else if num = 4 then Some (returns sys_pipe)
      else if num = 5 then Some (returns sys_read)
      else if num = 6 then Some (returns sys_kill)
      else if num = 7 then Some (returns sys_exec)
      else if num = 8 then Some (returns (sys_fstat (u_pad u)))
      else if num = 9 then Some (returns sys_chdir)
      else if num = 10 then Some (returns sys_dup)
      else if num = 11 then Some (returns sys_getpid)
      else if num = 12 then Some (returns sys_sbrk)
      else if num = 13 then Some (returns sys_sleep)
      else if num = 14 then Some (returns sys_uptime)
      else if num = 15 then Some (returns sys_open)
      else if num = 16 then Some (returns sys_write)
      else if num = 17 then Some (returns sys_mknod)
      else if num = 18 then Some (returns sys_unlink)
      else if num = 19 then Some (returns sys_link)
      else if num = 20 then Some (returns sys_mkdir)
      else if num = 21 then Some (returns sys_close)
      else if num = 22 then Some (returns sys_trace)
      else if num = 23 then Some (returns (sys_waitx u))
      else if num = 24 then Some (returns (sys_set_priority pol))
      else None)"

definition syscall_names :: "string list" where
  "syscall_names = [''fork'', ''exit'', ''wait'', ''pipe'', ''read'', ''kill'', ''exec'', ''fstat'',
     ''chdir'', ''dup'', ''getpid'', ''sbrk'', ''sleep'', ''uptime'', ''open'', ''write'', ''mknod'',
     ''unlink'', ''link'', ''mkdir'', ''close'', ''trace'', ''set_priority'']"

definition SyscallNamesArray :: "uninit \<Rightarrow> nat \<Rightarrow> string option" where
  "SyscallNamesArray u num =
     (if 1 \<le> num \<and> num \<le> 23 then Some (syscall_names ! (num - 1)) else u_names u num)"

definition ArgumentCount :: "uninit \<Rightarrow> nat \<Rightarrow> cint" where
  "ArgumentCount u num =
     (if 1 \<le> num \<and> num \<le> 22
      then [0, 1, 1, 0, 3, 2, 2, 1, 1, 1, 0, 1, 1, 0, 2, 3, 3, 1, 2, 1, 1, 1] ! (num - 1)
      else u_count u num)"

text \<open>The line that tracing prints for one system call.\<close>

definition trace_line :: "uninit \<Rightarrow> nat \<Rightarrow> cint \<Rightarrow> cint \<Rightarrow> cint \<Rightarrow> cint \<Rightarrow> uint64 \<Rightarrow> string" where
  "trace_line u num pid arg1 arg2 arg3 ret =
     printf ''%d: syscall %s ('' [arg_c pid, ArgStr (SyscallNamesArray u num)] @
     (if ArgumentCount u num = 1 then printf ''%d'' [arg_c arg1] else []) @
     (if ArgumentCount u num = 2 then printf ''%d %d'' [arg_c arg1, arg_c arg2] else []) @
     (if ArgumentCount u num = 3 then printf ''%d %d %d'' [arg_c arg1, arg_c arg2, arg_c arg3] else []) @
     printf ('') ->%d'' @ newline) [ArgWord ret]"

text \<open>The value tells whether the process is still there.\<close>

definition syscall :: "policy \<Rightarrow> uninit \<Rightarrow> ('a kfile_scheme, bool) kop" where
  "syscall pol u =
     kseq curproc (\<lambda>p.
     kseq (tf_get p TF_a7) (\<lambda>a7.
     let num = ucast a7 :: cint in
     case (if 0 < sint num \<and> sint num < 25 then syscalls pol u (unat num) else None) of
       Some f \<Rightarrow>
         kseq (tf_get p TF_a0) (\<lambda>arg1.
         kseq (tf_get p TF_a1) (\<lambda>arg2.
         kseq (tf_get p TF_a2) (\<lambda>arg3.
         kseq f (\<lambda>r.
         case r of
           None \<Rightarrow> kret False
         | Some v \<Rightarrow>
             kseq (tf_set p TF_a0 v) (\<lambda>_.
             kseq (kget (\<lambda>s. proc_at s p)) (\<lambda>pr.
             kseq (tf_get p TF_a0) (\<lambda>a0.
             kseq (kwhen (bit (p_mask pr) (unat num))
               (kmod (\<lambda>s. s\<lparr>kout := kout s @
                  trace_line u (unat num) (p_pid pr) (ucast arg1) (ucast arg2) (ucast arg3) a0\<rparr>))) (\<lambda>_.
             kret True))))))))
     | None \<Rightarrow>
         kseq (kmod (\<lambda>s. kprintf (''%d %s: unknown sys call %d'' @ newline)
           [arg_c (p_pid (proc_at s p)), ArgStr (Some (bytes_string (p_name (proc_at s p)))), arg_c num] s)) (\<lambda>_.
         kseq (tf_set p TF_a0 (-1)) (\<lambda>_.
         kret True))))"

end
