(* ===== verification/Xv6_Virtio.thy ===== *)
theory Xv6_Virtio
  imports Xv6_Bio
begin

section \<open>The disk driver (kernel/virtio_disk.c)\<close>

text \<open>
  The driver's descriptors and rings. \<open>virtio_disk_rw\<close>
  is split where it sleeps: \<open>virtio_rw_submit\<close> up to the notification of the device,
  \<open>virtio_rw_finish\<close> after \<open>virtio_disk_intr\<close> has cleared \<^verbatim>\<open>b->disk\<close>. The device itself has no step here; its
  completed transfers are \<open>disk_read\<close> and \<open>disk_write\<close> of \<open>Xv6_Bio\<close>. Of \<open>virtio_disk_init\<close> the rings and the
  free flags are modelled, not the negotiation through the device registers.
\<close>

abbreviation (input) VRING_DESC_F_NEXT :: ushort where "VRING_DESC_F_NEXT \<equiv> 1"
abbreviation (input) VRING_DESC_F_WRITE :: ushort where "VRING_DESC_F_WRITE \<equiv> 2"
abbreviation (input) VIRTIO_BLK_T_IN :: uint where "VIRTIO_BLK_T_IN \<equiv> 0"
abbreviation (input) VIRTIO_BLK_T_OUT :: uint where "VIRTIO_BLK_T_OUT \<equiv> 1"

definition upd_vdisk :: "(vdisk \<Rightarrow> vdisk) \<Rightarrow> 'a kfs_scheme \<Rightarrow> 'a kfs_scheme" where
  "upd_vdisk f s = s\<lparr>vdisk := f (vdisk s)\<rparr>"

subsection \<open>Descriptors\<close>

definition desc_zero :: virtq_desc where
  "desc_zero = \<lparr>vd_addr = VNull, vd_len = 0, vd_flags = 0, vd_next = 0\<rparr>"

definition virtio_disk_init :: "'a kfs_scheme \<Rightarrow> 'a kfs_scheme" where
  "virtio_disk_init s =
     upd_vdisk (\<lambda>v. v\<lparr>v_desc := replicate VNUM desc_zero, v_avail_idx := 0, v_avail_ring := replicate VNUM 0,
       v_used_ridx := 0, v_used_ring := replicate VNUM 0, v_free := replicate VNUM True\<rparr>) s"

definition alloc_desc :: "vdisk \<Rightarrow> nat option \<times> vdisk" where
  "alloc_desc v =
     (case find (\<lambda>i. v_free v ! i) [0..<VNUM] of
        None \<Rightarrow> (None, v)
      | Some i \<Rightarrow> (Some i, v\<lparr>v_free := (v_free v)[i := False]\<rparr>))"

definition free_desc :: "nat \<Rightarrow> ('a kfs_scheme, unit) kop" where
  "free_desc i s =
     (if VNUM \<le> i then Panic ''free_desc 1''
      else if v_free (vdisk s) ! i then Panic ''free_desc 2''
      else Ok ((), wakeup (Some ChanDiskFree)
        (upd_vdisk (\<lambda>v. v\<lparr>v_desc := (v_desc v)[i := desc_zero], v_free := (v_free v)[i := True]\<rparr>) s)))"

text \<open>
  A chain of descriptors is at most VNUM long: freeing one twice panics, so more fuel is never
  used.
\<close>

fun free_desc_chain :: "nat \<Rightarrow> nat \<Rightarrow> ('a kfs_scheme, unit) kop" where
  "free_desc_chain 0 i s = Hang"
| "free_desc_chain (Suc fuel) i s =
     (let d = v_desc (vdisk s) ! i in
      kseq (free_desc i) (\<lambda>_.
      if vd_flags d AND VRING_DESC_F_NEXT \<noteq> 0 then free_desc_chain fuel (unat (vd_next d))
      else kret ()) s)"

fun alloc3_desc_loop :: "nat \<Rightarrow> nat list \<Rightarrow> ('a kfs_scheme, nat list option) kop" where
  "alloc3_desc_loop 0 idx s = Ok (Some idx, s)"
| "alloc3_desc_loop (Suc k) idx s =
     (case alloc_desc (vdisk s) of
        (None, v) \<Rightarrow> kseq (kforeach free_desc idx) (\<lambda>_. kret None) (s\<lparr>vdisk := v\<rparr>)
      | (Some i, v) \<Rightarrow> alloc3_desc_loop k (idx @ [i]) (s\<lparr>vdisk := v\<rparr>))"

definition alloc3_desc :: "('a kfs_scheme, nat list option) kop" where
  "alloc3_desc = alloc3_desc_loop 3 []"

subsection \<open>Requests\<close>

definition set_desc :: "nat \<Rightarrow> vaddr \<Rightarrow> uint \<Rightarrow> ushort \<Rightarrow> ushort \<Rightarrow> vdisk \<Rightarrow> vdisk" where
  "set_desc i a len flags nxt v =
     v\<lparr>v_desc := (v_desc v)[i := \<lparr>vd_addr = a, vd_len = len, vd_flags = flags, vd_next = nxt\<rparr>]\<rparr>"

definition format_request :: "nat \<Rightarrow> uint \<Rightarrow> bool \<Rightarrow> nat \<Rightarrow> nat \<Rightarrow> nat \<Rightarrow> vdisk \<Rightarrow> vdisk" where
  "format_request b blockno write i0 i1 i2 v =
     (let sector = ucast (blockno * 2) :: uint64;
          ty = (if write then VIRTIO_BLK_T_OUT else VIRTIO_BLK_T_IN);
          v1 = v\<lparr>v_ops := (v_ops v)[i0 := \<lparr>vr_type = ty, vr_sector = sector\<rparr>]\<rparr>;
          v2 = set_desc i0 (VOps i0) 16 VRING_DESC_F_NEXT (of_nat i1) v1;
          v3 = set_desc i1 (VData b) 1024 ((if write then 0 else VRING_DESC_F_WRITE) OR VRING_DESC_F_NEXT) (of_nat i2) v2;
          v4 = v3\<lparr>v_info_status := (v_info_status v3)[i0 := 0xff]\<rparr>;
          v5 = set_desc i2 (VStatus i0) 1 VRING_DESC_F_WRITE 0 v4;
          v6 = v5\<lparr>v_info_b := (v_info_b v5)[i0 := Some b]\<rparr>
      in v6\<lparr>v_avail_ring := (v_avail_ring v6)[unat (v_avail_idx v6) mod VNUM := of_nat i0],
            v_avail_idx := v_avail_idx v6 + 1\<rparr>)"

text \<open>The head of the chain; the wait for free descriptors is \<open>Hang\<close>.\<close>

definition virtio_rw_submit :: "nat \<Rightarrow> bool \<Rightarrow> ('a kfs_scheme, nat) kop" where
  "virtio_rw_submit b write =
     kseq alloc3_desc (\<lambda>r.
     case r of
       Some [i0, i1, i2] \<Rightarrow>
         kseq (kget (\<lambda>s. b_blockno (buf_at s b))) (\<lambda>blockno.
         kseq (kmod (upd_vdisk (format_request b blockno write i0 i1 i2))) (\<lambda>_.
         kseq (kmod (upd_buf b (\<lambda>x. x\<lparr>b_disk := True\<rparr>))) (\<lambda>_.
         kret i0)))
     | _ \<Rightarrow> (\<lambda>s. Hang))"

definition virtio_rw_finish :: "nat \<Rightarrow> ('a kfs_scheme, unit) kop" where
  "virtio_rw_finish i0 =
     kseq (kmod (upd_vdisk (\<lambda>v. v\<lparr>v_info_b := (v_info_b v)[i0 := None]\<rparr>))) (\<lambda>_.
     free_desc_chain (VNUM + 1) i0)"

text \<open>The loop runs until \<^verbatim>\<open>disk.used_idx\<close> catches up, at most 2 ^ 16 times.\<close>

fun virtio_intr_loop :: "nat \<Rightarrow> ('a kfs_scheme, unit) kop" where
  "virtio_intr_loop 0 s = Hang"
| "virtio_intr_loop (Suc fuel) s =
     (let v = vdisk s in
      if v_used_idx v = v_used_ridx v then Ok ((), s)
      else
        kbind (arr_get (v_used_ring v) (unat (v_used_idx v) mod VNUM)) (\<lambda>w.
        let id = unat w in
        kbind (arr_get (v_info_status v) id) (\<lambda>st.
        if st \<noteq> 0 then Panic ''virtio_disk_intr status''
        else case v_info_b v ! id of
          None \<Rightarrow> Panic ''kerneltrap''
        | Some b \<Rightarrow>
            virtio_intr_loop fuel
              (upd_vdisk (\<lambda>v. v\<lparr>v_used_idx := v_used_idx v + 1\<rparr>)
                (wakeup (Some (ChanBuf b)) (upd_buf b (\<lambda>x. x\<lparr>b_disk := False\<rparr>) s))))))"

definition virtio_disk_intr :: "('a kfs_scheme, unit) kop" where
  "virtio_disk_intr = virtio_intr_loop 65536"

end
