(* ===== verification/Xv6_Trap.thy ===== *)
theory Xv6_Trap
  imports Xv6_Syscall Xv6_Virtio
begin

section \<open>Traps and boot (kernel/trap.c, kernel/plic.c, kernel/main.c)\<close>

text \<open>
  The trap handlers. The machine registers that describe the trap, and the interrupt number that
  the PLIC hands out, are an argument. What \<open>usertrapret\<close> leaves in the registers for the return
  to user space is its value.
\<close>

record trapregs =
  t_scause :: uint64
  t_sepc :: uint64
  t_stval :: uint64
  t_sstatus :: uint64
  t_irq :: cint

abbreviation (input) SSTATUS_SPP :: uint64 where "SSTATUS_SPP \<equiv> 0x100"
abbreviation (input) SSTATUS_SPIE :: uint64 where "SSTATUS_SPIE \<equiv> 0x20"

definition MAKE_SATP :: "uint64 \<Rightarrow> uint64" where
  "MAKE_SATP pagetable = 0x8000000000000000 OR drop_bit 12 pagetable"

subsection \<open>Device interrupts\<close>

text \<open>2 for a timer interrupt, 1 for another device, 0 if not recognised.\<close>

definition devintr :: "policy \<Rightarrow> trapregs \<Rightarrow> ('a kfs_scheme, nat) kop" where
  "devintr pol t s =
     (if t_scause t AND 0x8000000000000000 \<noteq> 0 \<and> t_scause t AND 0xff = 9 then
        if t_irq t = UART0_IRQ then Ok (1, uartintr pol s)
        else if t_irq t = VIRTIO0_IRQ then kseq virtio_disk_intr (\<lambda>_. kret 1) s
        else if t_irq t \<noteq> 0 then Ok (1, kprintf (''unexpected interrupt irq=%d'' @ newline) [arg_c (t_irq t)] s)
        else Ok (1, s)
      else if t_scause t = 0x8000000000000001 then
        Ok (2, if cpuid s = 0 then clockintr s else s)
      else Ok (0, s))"

subsection \<open>Traps from user space\<close>

record userregs =
  ur_stvec :: uint64
  ur_sstatus :: uint64
  ur_sepc :: uint64
  ur_fn :: uint64
  ur_trapframe :: uint64
  ur_satp :: uint64

definition usertrapret :: "uint64 \<Rightarrow> ('a kvm_scheme, userregs) kop" where
  "usertrapret sstatus =
     kseq curproc (\<lambda>p.
     kseq (kmod intr_off) (\<lambda>_.
     kseq (kget (\<lambda>s. s)) (\<lambda>s0.
     kseq (tf_set p TF_kernel_satp (MAKE_SATP (kernel_pagetable s0))) (\<lambda>_.
     kseq (tf_set p TF_kernel_sp (p_kstack (proc_at s0 p) + PGSIZE)) (\<lambda>_.
     kseq (tf_set p TF_kernel_trap (sym_usertrap s0)) (\<lambda>_.
     kseq (tf_set p TF_kernel_hartid (of_nat (cpuid s0))) (\<lambda>_.
     kseq (tf_get p TF_epc) (\<lambda>epc.
     kret \<lparr>ur_stvec = TRAMPOLINE + (sym_uservec s0 - sym_trampoline (km s0)),
           ur_sstatus = (sstatus AND NOT SSTATUS_SPP) OR SSTATUS_SPIE,
           ur_sepc = epc,
           ur_fn = TRAMPOLINE + (sym_userret s0 - sym_trampoline (km s0)),
           ur_trapframe = TRAPFRAME,
           ur_satp = MAKE_SATP (p_pagetable (proc_at s0 p))\<rparr>))))))))"

text \<open>How \<open>usertrap\<close> ends: back in user space, in the scheduler after a yield, or gone.\<close>

datatype trap_end = ToUser userregs | Yielded | Exited

definition exit_if_killed :: "nat \<Rightarrow> ('a kfile_scheme, bool) kop" where
  "exit_if_killed p s =
     (if p_killed (proc_at s p) \<noteq> 0 then kseq (exit (-1)) (\<lambda>_. kret True) s else Ok (False, s))"

text \<open>Whether the timer part gives up the CPU.\<close>

definition yields :: "policy \<Rightarrow> nat \<Rightarrow> 'a kproc_scheme \<Rightarrow> bool" where
  "yields pol p s =
     (case pol of FCFS \<Rightarrow> False | MLFQ \<Rightarrow> p_change_queue (proc_at s p) \<le>s 0 | _ \<Rightarrow> True)"

definition usertrap_end :: "policy \<Rightarrow> nat \<Rightarrow> nat \<Rightarrow> uint64 \<Rightarrow> ('a kfile_scheme, trap_end) kop" where
  "usertrap_end pol p which_dev sstatus =
     kseq (exit_if_killed p) (\<lambda>gone.
     if gone then kret Exited
     else
       kseq (kget (yields pol p)) (\<lambda>y.
       if which_dev = 2 \<and> y then kseq (kmod (timer_yield pol p)) (\<lambda>_. kret Yielded)
       else kseq (usertrapret sstatus) (\<lambda>r. kret (ToUser r))))"

definition usertrap :: "policy \<Rightarrow> uninit \<Rightarrow> trapregs \<Rightarrow> ('a kfile_scheme, trap_end) kop" where
  "usertrap pol u t =
     (if t_sstatus t AND SSTATUS_SPP \<noteq> 0 then kpanic ''usertrap: not from user mode''
      else
        kseq curproc (\<lambda>p.
        kseq (tf_set p TF_epc (t_sepc t)) (\<lambda>_.
        if t_scause t = 8 then
          kseq (exit_if_killed p) (\<lambda>gone.
          if gone then kret Exited
          else
            kseq (tf_get p TF_epc) (\<lambda>epc.
            kseq (tf_set p TF_epc (epc + 4)) (\<lambda>_.
            kseq (kmod intr_on) (\<lambda>_.
            kseq (syscall pol u) (\<lambda>there.
            if \<not> there then kret Exited else usertrap_end pol p 0 (t_sstatus t))))))
        else
          kseq (devintr pol t) (\<lambda>which_dev.
          if which_dev \<noteq> 0 then usertrap_end pol p which_dev (t_sstatus t)
          else
            kseq (kmod (\<lambda>s. kprintf (''            sepc=%p stval=%p'' @ newline) [ArgWord (t_sepc t), ArgWord (t_stval t)]
              (kprintf (''usertrap(): unexpected scause %p pid=%d'' @ newline)
                [ArgWord (t_scause t), arg_c (p_pid (proc_at s p))] s))) (\<lambda>_.
            kseq (set_proc p (\<lambda>x. x\<lparr>p_killed := 1\<rparr>)) (\<lambda>_.
            usertrap_end pol p 0 (t_sstatus t)))))))"

subsection \<open>Traps from the kernel\<close>

text \<open>The values to restore to sepc and sstatus.\<close>

definition kerneltrap :: "policy \<Rightarrow> trapregs \<Rightarrow> ('a kfs_scheme, uint64 \<times> uint64) kop" where
  "kerneltrap pol t s =
     (if t_sstatus t AND SSTATUS_SPP = 0 then Panic ''kerneltrap: not from supervisor mode''
      else if intr_get s then Panic ''kerneltrap: interrupts enabled''
      else
        kseq (devintr pol t) (\<lambda>which_dev.
        if which_dev = 0 then kpanic ''kerneltrap''
        else
          kseq (kmod (\<lambda>s. case myproc s of
              None \<Rightarrow> s
            | Some p \<Rightarrow>
                if which_dev = 2 \<and> p_state (proc_at s p) = RUNNING then timer_yield pol p s else s)) (\<lambda>_.
          kret (t_sepc t, t_sstatus t))) s)"

subsection \<open>Starting a process and the machine\<close>

text \<open>
  \<open>first\<close> is the static flag of \<open>forkret\<close>: set for the first process ever dispatched, which
  initialises the file system.
\<close>

definition forkret :: "bool \<Rightarrow> uint64 \<Rightarrow> ('a kfs_scheme, userregs) kop" where
  "forkret first sstatus =
     kseq (kwhen first (fsinit ROOTDEV)) (\<lambda>_. usertrapret sstatus)"

text \<open>
  \<open>main\<close> on hart 0. \<open>kvminithart\<close>, \<open>trapinithart\<close>, \<open>plicinit\<close> and \<open>plicinithart\<close> write device and
  control registers only; \<open>printfinit\<close>, \<open>trapinit\<close> and \<open>fileinit\<close> initialise spin locks only.
\<close>

definition main :: "('a kfile_scheme, unit) kop" where
  "main =
     kseq (kmod consoleinit) (\<lambda>_.
     kseq (kmod (kprintf newline [])) (\<lambda>_.
     kseq (kmod (kprintf (''xv6 kernel is booting'' @ newline) [])) (\<lambda>_.
     kseq (kmod (kprintf newline [])) (\<lambda>_.
     kseq (on_mem_u kinit) (\<lambda>_.
     kseq kvminit (\<lambda>_.
     kseq (kmod procinit) (\<lambda>_.
     kseq (kmod binit) (\<lambda>_.
     kseq (kmod iinit) (\<lambda>_.
     kseq (kmod virtio_disk_init) (\<lambda>_.
     userinit))))))))))"

end
