(* ===== verification/Xv6_Bcache.thy ===== *)
theory Xv6_Bcache
  imports Xv6_Bio
begin

section \<open>The buffer cache is a write-back view of the disk\<close>

text \<open>
  Proofs about kernel/bio.c. The links of the buffers form a doubly linked list through the head,
  whose order is the order of last use; the buffers of the file system's device hold distinct
  blocks; a buffer that nobody references is clean. On states with this invariant the operations
  refine updates of four functions of the block number: the contents a reader sees, the reference
  count, the owner of the lock, and the disk.
\<close>

subsection \<open>Doubly linked lists\<close>

text \<open>\<open>dll nx pv a xs b\<close>: following \<open>nx\<close> from \<open>a\<close> visits \<open>xs\<close> and then \<open>b\<close>, and \<open>pv\<close> goes back.\<close>

fun dll :: "(nat \<Rightarrow> nat) \<Rightarrow> (nat \<Rightarrow> nat) \<Rightarrow> nat \<Rightarrow> nat list \<Rightarrow> nat \<Rightarrow> bool" where
  "dll nx pv a [] b \<longleftrightarrow> nx a = b \<and> pv b = a"
| "dll nx pv a (x # xs) b \<longleftrightarrow> nx a = x \<and> pv x = a \<and> dll nx pv x xs b"

lemma dll_append: "dll nx pv a (xs @ x # ys) b \<longleftrightarrow> dll nx pv a xs x \<and> dll nx pv x ys b"
  by (induction xs arbitrary: a) auto

lemma dll_cong:
  assumes "\<And>x. x \<in> set (a # xs) \<Longrightarrow> nx' x = nx x" "\<And>x. x \<in> set (xs @ [b]) \<Longrightarrow> pv' x = pv x"
  shows "dll nx' pv' a xs b = dll nx pv a xs b"
  using assms by (induction xs arbitrary: a) simp_all

lemma dll_first: "dll nx pv a xs b \<Longrightarrow> nx a = hd (xs @ [b])"
  by (cases xs) auto

lemma dll_last: "dll nx pv a xs b \<Longrightarrow> pv b = last (a # xs)"
  by (induction xs arbitrary: a) auto

text \<open>Taking an element out, and putting one in front.\<close>

lemma dll_unlink:
  assumes "dll nx pv h (xs @ c # ys) h" and "distinct (h # xs @ c # ys)"
  shows "dll (nx(pv c := nx c)) (pv(nx c := pv c)) h (xs @ ys) h"
proof -
  have l: "dll nx pv h xs c" and r: "dll nx pv c ys h" using assms(1) by (simp_all add: dll_append)
  have pc: "pv c = last (h # xs)" by (rule dll_last[OF l])
  have nc: "nx c = hd (ys @ [h])" by (rule dll_first[OF r])
  show ?thesis
  proof (cases ys)
    case Nil
    have "dll (nx(last (h # xs) := h)) (pv(h := last (h # xs))) h xs h"
      using l assms(2) Nil
    proof (induction xs rule: rev_induct)
      case Nil
      then show ?case by simp
    next
      case (snoc x zs)
      have "dll (nx(x := h)) (pv(h := x)) h zs x = dll nx pv h zs x"
        using snoc.prems(2) by (intro dll_cong) auto
      then show ?case using snoc.prems(1) by (simp add: dll_append fun_upd_def)
    qed
    then show ?thesis using pc nc Nil by simp
  next
    case (Cons y zs)
    let ?nx = "nx(last (h # xs) := y)" and ?pv = "pv(y := last (h # xs))"
    have tail: "dll ?nx ?pv y zs h"
    proof -
      have "last (h # xs) \<in> set (h # xs)" by (rule last_in_set) simp
      then have "last (h # xs) \<notin> set (y # zs)" using assms(2) Cons by (auto simp del: last.simps)
      then have "dll ?nx ?pv y zs h = dll nx pv y zs h"
        using assms(2) Cons by (intro dll_cong) (auto simp del: last.simps)
      then show ?thesis using r Cons by simp
    qed
    have "dll ?nx ?pv h xs y"
      using l assms(2) Cons
    proof (induction xs rule: rev_induct)
      case Nil
      then show ?case by simp
    next
      case (snoc x ws)
      have "dll (nx(x := y)) (pv(y := x)) h ws x = dll nx pv h ws x"
        using snoc.prems(2,3) by (intro dll_cong) auto
      then show ?case using snoc.prems(1) by (simp add: dll_append fun_upd_def)
    qed
    with tail have "dll ?nx ?pv h (xs @ y # zs) h" by (simp add: dll_append)
    then show ?thesis using pc nc Cons by simp
  qed
qed

lemma dll_push:
  assumes "dll nx pv h zs h" and "distinct (c # h # zs)"
  shows "dll (nx(c := nx h, h := c)) (pv(c := h, nx h := c)) h (c # zs) h"
proof (cases zs)
  case Nil
  then show ?thesis using assms by auto
next
  case (Cons z ws)
  let ?nx = "nx(c := nx h, h := c)" and ?pv = "pv(c := h, nx h := c)"
  have z: "nx h = z" "dll nx pv z ws h" using assms(1) Cons by simp_all
  have "dll ?nx ?pv z ws h = dll nx pv z ws h"
    using assms(2) Cons z(1) by (intro dll_cong) auto
  then show ?thesis using z assms(2) Cons by auto
qed

subsection \<open>The invariant\<close>

abbreviation nxt :: "'a kfs_scheme \<Rightarrow> nat \<Rightarrow> nat" where "nxt s \<equiv> \<lambda>i. b_next (buf_at s i)"
abbreviation prv :: "'a kfs_scheme \<Rightarrow> nat \<Rightarrow> nat" where "prv s \<equiv> \<lambda>i. b_prev (buf_at s i)"

text \<open>The buffers from the most to the least recently used.\<close>

definition lru :: "'a kfs_scheme \<Rightarrow> nat list \<Rightarrow> bool" where
  "lru s order \<longleftrightarrow> length (bufs s) = 31 \<and> dll (nxt s) (prv s) NBUF order NBUF \<and>
     distinct order \<and> (\<forall>i. i \<in> set order \<longleftrightarrow> i < NBUF)"

text \<open>
  A buffer is either unused since boot or holds a block of the file system's device; it is
  referenced while it is locked; unreferenced, it agrees with the disk.
\<close>

definition buf_ok :: "(uint \<Rightarrow> uchar list) \<Rightarrow> buf \<Rightarrow> bool" where
  "buf_ok d x \<longleftrightarrow> (if b_dev x = ROOTDEV then b_valid x else b_dev x = 0 \<and> b_refcnt x = 0) \<and>
     length (b_data x) = BSIZE \<and>
     (b_refcnt x = 0 \<longrightarrow> sl_locked (b_lock x) = 0 \<and> (b_dev x = ROOTDEV \<longrightarrow> b_data x = d (b_blockno x)))"

definition holds :: "buf \<Rightarrow> uint \<Rightarrow> bool" where
  "holds x blk \<longleftrightarrow> b_dev x = ROOTDEV \<and> b_blockno x = blk"

definition cache_ok :: "'a kfs_scheme \<Rightarrow> bool" where
  "cache_ok s \<longleftrightarrow> kproc_ok s \<and> (\<forall>p. myproc s = Some p \<longrightarrow> p < NPROC) \<and> (\<exists>order. lru s order) \<and> (\<forall>i<NBUF. buf_ok (disk s) (buf_at s i)) \<and>
     (\<forall>i<NBUF. \<forall>j<NBUF. \<forall>blk. holds (buf_at s i) blk \<longrightarrow> holds (buf_at s j) blk \<longrightarrow> i = j) \<and>
     (\<forall>blk. length (disk s blk) = BSIZE)"

definition bufof :: "'a kfs_scheme \<Rightarrow> uint \<Rightarrow> nat option" where
  "bufof s blk = find (\<lambda>i. holds (buf_at s i) blk) [0..<NBUF]"

text \<open>What a reader of block \<open>blk\<close> sees, how often it is referenced, and who has it locked.\<close>

definition bview :: "'a kfs_scheme \<Rightarrow> uint \<Rightarrow> uchar list" where
  "bview s blk = (case bufof s blk of None \<Rightarrow> disk s blk | Some i \<Rightarrow> b_data (buf_at s i))"

definition bref :: "'a kfs_scheme \<Rightarrow> uint \<Rightarrow> nat" where
  "bref s blk = (case bufof s blk of None \<Rightarrow> 0 | Some i \<Rightarrow> unat (b_refcnt (buf_at s i)))"

definition bown :: "'a kfs_scheme \<Rightarrow> uint \<Rightarrow> cint option" where
  "bown s blk =
     (case bufof s blk of
        None \<Rightarrow> None
      | Some i \<Rightarrow> let lk = b_lock (buf_at s i) in if sl_locked lk = 0 then None else Some (sl_pid lk))"

lemma buf_at_upd_buf [simp]:
  "j < length (bufs s) \<Longrightarrow> buf_at (upd_buf i f s) j = (if i = j then f (buf_at s j) else buf_at s j)"
  by (auto simp: buf_at_def upd_buf_def)

lemma length_bufs_upd_buf [simp]: "length (bufs (upd_buf i f s)) = length (bufs s)"
  by (simp add: upd_buf_def)

lemma upd_buf_frame [simp]:
  "disk (upd_buf i f s) = disk s" "dtrace (upd_buf i f s) = dtrace s" "klog (upd_buf i f s) = klog s"
  "sb (upd_buf i f s) = sb s" "itable (upd_buf i f s) = itable s" "procs (upd_buf i f s) = procs s"
  "cpus (upd_buf i f s) = cpus s" "hart (upd_buf i f s) = hart s" "km (upd_buf i f s) = km s"
  by (simp_all add: upd_buf_def)

lemma myproc_upd_buf [simp]: "myproc (upd_buf i f s) = myproc s"
  by (simp add: myproc_def mycpu_def cpuid_def)

lemma proc_at_upd_buf [simp]: "proc_at (upd_buf i f s) = proc_at s"
  by (rule ext) (simp add: proc_at_def)

lemma kproc_ok_upd_buf [simp]: "kproc_ok (upd_buf i f s) = kproc_ok s"
  by (simp add: kproc_ok_def hart_ok_def)

lemma cache_okD:
  assumes "cache_ok s"
  shows "kproc_ok s" "\<exists>order. lru s order" "i < NBUF \<Longrightarrow> buf_ok (disk s) (buf_at s i)"
    "length (disk s blk) = BSIZE" "length (bufs s) = 31"
    "i < NBUF \<Longrightarrow> j < NBUF \<Longrightarrow> holds (buf_at s i) blk \<Longrightarrow> holds (buf_at s j) blk \<Longrightarrow> i = j"
    "myproc s = Some p \<Longrightarrow> p < NPROC"
  using assms by (auto simp: cache_ok_def lru_def)

lemma cache_okI:
  assumes "kproc_ok s" "\<And>p. myproc s = Some p \<Longrightarrow> p < NPROC" "lru s order"
    "\<And>i. i < NBUF \<Longrightarrow> buf_ok (disk s) (buf_at s i)"
    "\<And>i j blk. i < NBUF \<Longrightarrow> j < NBUF \<Longrightarrow> holds (buf_at s i) blk \<Longrightarrow> holds (buf_at s j) blk \<Longrightarrow> i = j"
    "\<And>blk. length (disk s blk) = BSIZE"
  shows "cache_ok s"
  using assms unfolding cache_ok_def by blast

lemma bufof_iff:
  assumes "cache_ok s"
  shows "bufof s blk = Some i \<longleftrightarrow> i < NBUF \<and> holds (buf_at s i) blk"
proof
  assume "bufof s blk = Some i"
  then show "i < NBUF \<and> holds (buf_at s i) blk"
    by (auto simp: bufof_def find_Some_iff)
next
  assume i: "i < NBUF \<and> holds (buf_at s i) blk"
  then have "bufof s blk \<noteq> None"
    by (auto simp: bufof_def find_None_iff)
  then obtain j where j: "bufof s blk = Some j" by blast
  then have "j < NBUF" "holds (buf_at s j) blk"
    by (auto simp: bufof_def find_Some_iff)
  with i have "j = i" using cache_okD(6)[OF assms] by blast
  with j show "bufof s blk = Some i" by simp
qed

lemma bufof_None_iff: "bufof s blk = None \<longleftrightarrow> (\<forall>i<NBUF. \<not> holds (buf_at s i) blk)"
  by (auto simp: bufof_def find_None_iff)

lemma lruD:
  assumes "lru s order"
  shows "length (bufs s) = 31" "dll (nxt s) (prv s) NBUF order NBUF" "distinct order"
    "x \<in> set order \<longleftrightarrow> x < NBUF"
  using assms unfolding lru_def by (elim conjE; simp only:)+

lemma lru_upd_buf:
  assumes "\<And>x. b_next (f x) = b_next x" "\<And>x. b_prev (f x) = b_prev x"
    and "lru s order"
  shows "lru (upd_buf i f s) order"
proof -
  note len = lruD(1)[OF assms(3)]
  have mem: "x < 31" if "x \<in> set (NBUF # order)" for x
    using that lruD(4)[OF assms(3), of x] by auto
  have "dll (nxt (upd_buf i f s)) (prv (upd_buf i f s)) NBUF order NBUF =
      dll (nxt s) (prv s) NBUF order NBUF"
  proof (rule dll_cong)
    show "nxt (upd_buf i f s) x = nxt s x" if "x \<in> set (NBUF # order)" for x
      using mem[OF that] len by (simp add: assms(1))
    show "prv (upd_buf i f s) x = prv s x" if "x \<in> set (order @ [NBUF])" for x
      using mem[of x] len that by (simp add: assms(2))
  qed
  then show ?thesis using assms(3) unfolding lru_def length_bufs_upd_buf by blast
qed

subsection \<open>Searching the list\<close>

lemma bfind_next:
  assumes "dll (nxt s) pv a xs NBUF" and "NBUF \<notin> set xs" and "length xs < n"
  shows "bfind n b_next P (nxt s a) s = Ok (find (\<lambda>i. P (buf_at s i)) xs)"
  using assms
proof (induction xs arbitrary: a n)
  case Nil
  then show ?case by (cases n) auto
next
  case (Cons x xs)
  then obtain m where n: "n = Suc m" by (cases n) auto
  have "bfind m b_next P (nxt s x) s = Ok (find (\<lambda>i. P (buf_at s i)) xs)"
    using Cons n by simp
  then show ?case using Cons.prems n by simp
qed

lemma bfind_prev:
  assumes "dll nx (prv s) NBUF xs b" and "NBUF \<notin> set xs" and "length xs < n"
  shows "bfind n b_prev P (prv s b) s = Ok (find (\<lambda>i. P (buf_at s i)) (rev xs))"
  using assms
proof (induction xs arbitrary: b n rule: rev_induct)
  case Nil
  then show ?case by (cases n) auto
next
  case (snoc x xs)
  then obtain m where n: "n = Suc m" by (cases n) auto
  have "bfind m b_prev P (prv s x) s = Ok (find (\<lambda>i. P (buf_at s i)) (rev xs))"
    using snoc n by (simp add: dll_append)
  then show ?case using snoc.prems n by (simp add: dll_append)
qed

lemma length_lru:
  assumes "lru s order"
  shows "length order = NBUF"
proof -
  have "set order = {..<NBUF}" using assms by (auto simp: lru_def)
  then have "card (set order) = NBUF" by (simp only: card_lessThan)
  then show ?thesis using assms distinct_card[of order] by (simp add: lru_def)
qed

lemma lru_find:
  assumes "lru s order"
  shows "bfind (NBUF + 1) b_next P (b_next (buf_at s NBUF)) s = Ok (find (\<lambda>i. P (buf_at s i)) order)"
    and "bfind (NBUF + 1) b_prev P (b_prev (buf_at s NBUF)) s = Ok (find (\<lambda>i. P (buf_at s i)) (rev order))"
proof -
  have d: "dll (nxt s) (prv s) NBUF order NBUF" and n: "NBUF \<notin> set order" and len: "length order < NBUF + 1"
    using assms length_lru[OF assms] by (auto simp: lru_def)
  show "bfind (NBUF + 1) b_next P (b_next (buf_at s NBUF)) s = Ok (find (\<lambda>i. P (buf_at s i)) order)"
    using bfind_next[OF d n len] by simp
  show "bfind (NBUF + 1) b_prev P (b_prev (buf_at s NBUF)) s = Ok (find (\<lambda>i. P (buf_at s i)) (rev order))"
    using bfind_prev[OF d n len] by simp
qed

subsection \<open>bread\<close>

definition mypid :: "'a kproc_scheme \<Rightarrow> cint" where
  "mypid s = (case myproc s of None \<Rightarrow> 0 | Some p \<Rightarrow> p_pid (proc_at s p))"

definition take_lock :: "cint \<Rightarrow> sleeplock \<Rightarrow> sleeplock" where
  "take_lock pid lk = lk\<lparr>sl_locked := 1, sl_pid := pid\<rparr>"

lemma mypid_upd_buf [simp]: "mypid (upd_buf i f s) = mypid s"
  by (simp add: mypid_def split: option.split)

lemma acquiresleep_free:
  "sl_locked lk = 0 \<Longrightarrow> myproc s = Some p \<Longrightarrow> acquiresleep lk s = Ok (take_lock (mypid s) lk, s)"
  by (simp add: acquiresleep_def curproc_def take_lock_def mypid_def)

lemma upd_buf_upd_buf: "i < length (bufs s) \<Longrightarrow> upd_buf i f (upd_buf i g s) = upd_buf i (\<lambda>x. f (g x)) s"
  by (simp add: upd_buf_def)

lemma find_unique:
  assumes "i \<in> set xs" "\<And>j. j \<in> set xs \<Longrightarrow> P j \<longleftrightarrow> j = i"
  shows "find P xs = Some i"
  using assms by (induction xs) auto

lemma find_SomeD: "find P xs = Some i \<Longrightarrow> i \<in> set xs \<and> P i"
  by (induction xs) (auto split: if_splits)

lemma buf_lock_free:
  assumes "sl_locked (b_lock (buf_at s i)) = 0" "myproc s = Some p"
  shows "buf_lock i s = Ok (i, upd_buf i (\<lambda>x. x\<lparr>b_lock := take_lock (mypid s) (b_lock x)\<rparr>) s)"
  using acquiresleep_free[OF assms] by (simp add: buf_lock_def upd_buf_def buf_at_def)

text \<open>The state after a hit on buffer \<open>i\<close>, and after recycling buffer \<open>i\<close> for block \<open>blk\<close>.\<close>

definition bread_hit :: "nat \<Rightarrow> 'a kfs_scheme \<Rightarrow> 'a kfs_scheme" where
  "bread_hit i s =
     upd_buf i (\<lambda>x. x\<lparr>b_refcnt := b_refcnt x + 1, b_lock := take_lock (mypid s) (b_lock x)\<rparr>) s"

definition bread_miss :: "uint \<Rightarrow> nat \<Rightarrow> 'a kfs_scheme \<Rightarrow> 'a kfs_scheme" where
  "bread_miss blk i s =
     upd_buf i (\<lambda>x. x\<lparr>b_dev := ROOTDEV, b_blockno := blk, b_refcnt := 1,
       b_lock := take_lock (mypid s) (b_lock x), b_data := disk s blk, b_valid := True\<rparr>) s"

lemma bread_hit_eq:
  assumes ok: "cache_ok s" and p: "myproc s = Some p" and i: "bufof s blk = Some i" and free: "bown s blk = None"
  shows "bread ROOTDEV blk s = Ok (i, bread_hit i s)"
proof -
  obtain order where l: "lru s order" using cache_okD(2)[OF ok] by blast
  have i30: "i < NBUF" and hold: "holds (buf_at s i) blk" using i by (simp_all add: bufof_iff[OF ok])
  have len: "i < length (bufs s)" using i30 cache_okD(5)[OF ok] by simp
  have "find (\<lambda>j. holds (buf_at s j) blk) order = Some i"
    using lruD(4)[OF l] i30 hold cache_okD(6)[OF ok] by (intro find_unique) blast+
  then have f: "bfind (NBUF + 1) b_next (\<lambda>x. b_dev x = ROOTDEV \<and> b_blockno x = blk) (b_next (buf_at s NBUF)) s = Ok (Some i)"
    using lru_find(1)[OF l, of "\<lambda>x. b_dev x = ROOTDEV \<and> b_blockno x = blk"] by (simp add: holds_def)
  have unl: "sl_locked (b_lock (buf_at s i)) = 0"
    using free i by (simp add: bown_def Let_def split: if_splits)
  have v: "b_valid (buf_at s i)"
    using cache_okD(3)[OF ok i30] hold by (simp add: buf_ok_def holds_def split: if_splits)
  have g: "bget ROOTDEV blk s = Ok (i, bread_hit i s)"
    using f unl p len buf_lock_free[of "upd_buf i (\<lambda>x. x\<lparr>b_refcnt := b_refcnt x + 1\<rparr>) s" i p]
    by (simp add: bget_def upd_buf_upd_buf bread_hit_def)
  have "b_valid (buf_at (bread_hit i s) i)"
    using v len by (simp add: bread_hit_def)
  with g show ?thesis by (simp add: bread_def)
qed

lemma bread_miss_eq:
  assumes ok: "cache_ok s" and l: "lru s order" and p: "myproc s = Some p" and n: "bufof s blk = None"
    and i: "find (\<lambda>j. b_refcnt (buf_at s j) = 0) (rev order) = Some i"
  shows "bread ROOTDEV blk s = Ok (i, bread_miss blk i s)"
proof -
  have mem: "i \<in> set order" and r0: "b_refcnt (buf_at s i) = 0"
    using find_SomeD[OF i] by simp_all
  have i30: "i < NBUF" using mem lruD(4)[OF l] by simp
  have len: "i < length (bufs s)" using i30 cache_okD(5)[OF ok] by simp
  have "find (\<lambda>j. holds (buf_at s j) blk) order = None"
    using n lruD(4)[OF l] unfolding bufof_None_iff find_None_iff by blast
  then have f: "bfind (NBUF + 1) b_next (\<lambda>x. b_dev x = ROOTDEV \<and> b_blockno x = blk) (b_next (buf_at s NBUF)) s = Ok None"
    using lru_find(1)[OF l, of "\<lambda>x. b_dev x = ROOTDEV \<and> b_blockno x = blk"] by (simp add: holds_def)
  have f2: "bfind (NBUF + 1) b_prev (\<lambda>x. b_refcnt x = 0) (b_prev (buf_at s NBUF)) s = Ok (Some i)"
    using lru_find(2)[OF l, of "\<lambda>x. b_refcnt x = 0"] i by simp
  have unl: "sl_locked (b_lock (buf_at s i)) = 0"
    using cache_okD(3)[OF ok i30] r0 by (simp add: buf_ok_def)
  let ?f = "\<lambda>x. x\<lparr>b_dev := ROOTDEV, b_blockno := blk, b_valid := False, b_refcnt := 1\<rparr>"
  let ?g = "\<lambda>x. (?f x)\<lparr>b_lock := take_lock (mypid s) (b_lock x)\<rparr>"
  have g: "bget ROOTDEV blk s = Ok (i, upd_buf i ?g s)"
    using f f2 unl p len buf_lock_free[of "upd_buf i ?f s" i p]
    by (simp add: bget_def upd_buf_upd_buf)
  have "\<not> b_valid (buf_at (upd_buf i ?g s) i)"
    using len by simp
  with g show ?thesis
    using len by (simp add: bread_def disk_read_def upd_buf_upd_buf bread_miss_def)
qed

subsection \<open>The cache as functions of the block number\<close>

record cstate =
  c_view :: "uint \<Rightarrow> uchar list"
  c_ref :: "uint \<Rightarrow> nat"
  c_own :: "uint \<Rightarrow> cint option"
  c_disk :: "uint \<Rightarrow> uchar list"
  c_trace :: "(uint \<times> uchar list) list"

definition cabs :: "'a kfs_scheme \<Rightarrow> cstate" where
  "cabs s = \<lparr>c_view = bview s, c_ref = bref s, c_own = bown s, c_disk = disk s, c_trace = dtrace s\<rparr>"

lemma cabs_sel [simp]:
  "c_view (cabs s) = bview s" "c_ref (cabs s) = bref s" "c_own (cabs s) = bown s"
  "c_disk (cabs s) = disk s" "c_trace (cabs s) = dtrace s"
  by (simp_all add: cabs_def)

lemma cabs_eqI:
  assumes "bview t = c_view c" "bref t = c_ref c" "bown t = c_own c" "disk t = c_disk c" "dtrace t = c_trace c"
  shows "cabs t = c"
  using assms by (simp add: cabs_def)

text \<open>What the operations keep outside the cache, and the buffers of referenced blocks.\<close>

definition keeps :: "'a kfs_scheme \<Rightarrow> 'a kfs_scheme \<Rightarrow> bool" where
  "keeps s t \<longleftrightarrow> klog t = klog s \<and> sb t = sb s \<and> itable t = itable s \<and> myproc t = myproc s \<and>
     mypid t = mypid s \<and> (\<forall>blk. bref s blk \<noteq> 0 \<longrightarrow> bufof t blk = bufof s blk)"

lemma keepsD:
  assumes "keeps s t"
  shows "klog t = klog s" "sb t = sb s" "itable t = itable s" "myproc t = myproc s" "mypid t = mypid s"
    "bref s blk \<noteq> 0 \<Longrightarrow> bufof t blk = bufof s blk"
  using assms by (simp_all add: keeps_def)

text \<open>An update of one buffer that keeps its block and its links.\<close>

lemma bufof_upd_same:
  assumes "length (bufs s) = 31" "\<And>x. b_dev (f x) = b_dev x" "\<And>x. b_blockno (f x) = b_blockno x"
  shows "bufof (upd_buf i f s) = bufof s"
proof (rule ext)
  fix blk
  have "holds (buf_at (upd_buf i f s) j) blk = holds (buf_at s j) blk" if "j \<in> set [0..<NBUF]" for j
    using that assms by (simp add: holds_def)
  then show "bufof (upd_buf i f s) blk = bufof s blk"
    unfolding bufof_def by (intro find_cong) auto
qed

lemma cache_ok_upd_same:
  assumes ok: "cache_ok s" and i: "i < NBUF"
    and f: "\<And>x. b_dev (f x) = b_dev x" "\<And>x. b_blockno (f x) = b_blockno x"
      "\<And>x. b_next (f x) = b_next x" "\<And>x. b_prev (f x) = b_prev x"
    and b: "buf_ok (disk s) (f (buf_at s i))"
  shows "cache_ok (upd_buf i f s)"
proof -
  have len: "length (bufs s) = 31" using cache_okD(5)[OF ok] .
  obtain order where "lru s order" using cache_okD(2)[OF ok] by blast
  then have l: "lru (upd_buf i f s) order" by (rule lru_upd_buf[OF f(3,4)])
  have "buf_ok (disk s) (buf_at (upd_buf i f s) j)" if "j < NBUF" for j
    using cache_okD(3)[OF ok that] that len b by (cases "i = j") simp_all
  moreover have h: "holds (buf_at (upd_buf i f s) j) blk = holds (buf_at s j) blk" if "j < NBUF" for j blk
    using that len f by (simp add: holds_def)
  ultimately show ?thesis
    using l cache_okD(1,4)[OF ok] cache_okD(6)[OF ok] cache_okD(7)[OF ok]
    unfolding cache_ok_def kproc_ok_upd_buf upd_buf_frame myproc_upd_buf by (metis (no_types, lifting))
qed


text \<open>The three functions after such an update.\<close>

lemma fields_upd_same:
  assumes ok: "cache_ok s" and i: "bufof s blk = Some i"
    and f: "\<And>x. b_dev (f x) = b_dev x" "\<And>x. b_blockno (f x) = b_blockno x"
  shows "bview (upd_buf i f s) = (bview s)(blk := b_data (f (buf_at s i)))"
    and "bref (upd_buf i f s) = (bref s)(blk := unat (b_refcnt (f (buf_at s i))))"
    and "bown (upd_buf i f s) = (bown s)(blk := (let lk = b_lock (f (buf_at s i)) in
           if sl_locked lk = 0 then None else Some (sl_pid lk)))"
proof -
  have len: "length (bufs s) = 31" using cache_okD(5)[OF ok] .
  note same = bufof_upd_same[OF len f, of i]
  have i30: "i < NBUF" using i by (simp add: bufof_iff[OF ok])
  have other: "j < NBUF \<and> j \<noteq> i" if "bufof s b = Some j" "b \<noteq> blk" for b j
    using that i by (auto simp: bufof_iff[OF ok] holds_def)
  show "bview (upd_buf i f s) = (bview s)(blk := b_data (f (buf_at s i)))"
    "bref (upd_buf i f s) = (bref s)(blk := unat (b_refcnt (f (buf_at s i))))"
    "bown (upd_buf i f s) = (bown s)(blk := (let lk = b_lock (f (buf_at s i)) in
           if sl_locked lk = 0 then None else Some (sl_pid lk)))"
    using len i i30
    by (auto simp: fun_eq_iff bview_def bref_def bown_def same Let_def dest: other split: option.split)
qed

lemma keeps_upd_same:
  assumes "cache_ok s" "\<And>x. b_dev (f x) = b_dev x" "\<And>x. b_blockno (f x) = b_blockno x"
  shows "keeps s (upd_buf i f s)"
  using bufof_upd_same[OF cache_okD(5)[OF assms(1)] assms(2,3)] by (simp add: keeps_def)

lemma bread_hit_ok:
  assumes ok: "cache_ok s" and i: "bufof s blk = Some i" and lim: "bref s blk + 1 < 2 ^ 32"
  shows "cache_ok (bread_hit i s)" "bufof (bread_hit i s) blk = Some i" "keeps s (bread_hit i s)"
    "cabs (bread_hit i s) = (cabs s)\<lparr>c_ref := (bref s)(blk := bref s blk + 1), c_own := (bown s)(blk := Some (mypid s))\<rparr>"
proof -
  have i30: "i < NBUF" and hold: "holds (buf_at s i) blk" using i by (simp_all add: bufof_iff[OF ok])
  have r: "unat (b_refcnt (buf_at s i) + 1) = bref s blk + 1"
    using lim i by (simp add: bref_def unat_word_ariths)
  then have r0: "b_refcnt (buf_at s i) + 1 \<noteq> 0" by (metis add_is_0 one_neq_zero unat_0)
  show "cache_ok (bread_hit i s)" unfolding bread_hit_def
    using cache_okD(3)[OF ok i30] hold r0
    by (intro cache_ok_upd_same[OF ok i30]) (simp_all add: buf_ok_def holds_def)
  show "bufof (bread_hit i s) blk = Some i" unfolding bread_hit_def
    using bufof_upd_same[OF cache_okD(5)[OF ok]] i by simp
  show "keeps s (bread_hit i s)" unfolding bread_hit_def
    by (rule keeps_upd_same[OF ok]) simp_all
  let ?f = "\<lambda>x. x\<lparr>b_refcnt := b_refcnt x + 1, b_lock := take_lock (mypid s) (b_lock x)\<rparr>"
  have "b_data (buf_at s i) = bview s blk" using i by (simp add: bview_def)
  then show "cabs (bread_hit i s) = (cabs s)\<lparr>c_ref := (bref s)(blk := bref s blk + 1), c_own := (bown s)(blk := Some (mypid s))\<rparr>"
    unfolding bread_hit_def using fields_upd_same[OF ok i, of ?f] r
    by (intro cabs_eqI) (simp_all add: take_lock_def)
qed


lemma bread_miss_ok:
  assumes ok: "cache_ok s" and n: "bufof s blk = None" and i: "i < NBUF" "b_refcnt (buf_at s i) = 0"
  shows "cache_ok (bread_miss blk i s)" "bufof (bread_miss blk i s) blk = Some i" "keeps s (bread_miss blk i s)"
    "cabs (bread_miss blk i s) = (cabs s)\<lparr>c_ref := (bref s)(blk := 1), c_own := (bown s)(blk := Some (mypid s))\<rparr>"
proof -
  let ?t = "bread_miss blk i s"
  let ?f = "\<lambda>x. x\<lparr>b_dev := ROOTDEV, b_blockno := blk, b_refcnt := 1,
       b_lock := take_lock (mypid s) (b_lock x), b_data := disk s blk, b_valid := True\<rparr>"
  have len: "length (bufs s) = 31" using cache_okD(5)[OF ok] .
  have at: "buf_at ?t j = (if j = i then ?f (buf_at s i) else buf_at s j)" if "j < NBUF" for j
    using that len by (auto simp: bread_miss_def)
  have h: "holds (buf_at ?t j) b \<longleftrightarrow> (if j = i then b = blk else holds (buf_at s j) b)" if "j < NBUF" for j b
    using that by (auto simp: at holds_def)
  have fresh: "\<not> holds (buf_at s j) blk" if "j < NBUF" for j using n that by (simp add: bufof_None_iff)
  show ok': "cache_ok ?t"
  proof -
    obtain order where "lru s order" using cache_okD(2)[OF ok] by blast
    then have "lru ?t order" unfolding bread_miss_def by (intro lru_upd_buf) simp_all
    moreover have "buf_ok (disk s) (buf_at ?t j)" if "j < NBUF" for j
      using cache_okD(3)[OF ok that] cache_okD(4)[OF ok] by (simp add: at[OF that] buf_ok_def)
    moreover have "j = k" if "j < NBUF" "k < NBUF" "holds (buf_at ?t j) b" "holds (buf_at ?t k) b" for j k b
      using that fresh cache_okD(6)[OF ok, of j k b] by (auto simp: h split: if_splits)
    moreover have "kproc_ok ?t" "disk ?t = disk s" "myproc ?t = myproc s"
      using cache_okD(1)[OF ok] by (simp_all add: bread_miss_def)
    ultimately show ?thesis using cache_okD(4,7)[OF ok] unfolding cache_ok_def by auto
  qed
  have bo: "bufof ?t b = (if b = blk then Some i else if bufof s b = Some i then None else bufof s b)" for b
  proof (cases "bufof s b")
    case None
    have "bufof ?t b = Some i" if "b = blk" using that i(1) h by (simp add: bufof_iff[OF ok'])
    moreover have "bufof ?t b = None" if "b \<noteq> blk" using that None h by (simp add: bufof_None_iff)
    ultimately show ?thesis using None by auto
  next
    case (Some j)
    then have j: "j < NBUF" "holds (buf_at s j) b" by (simp_all add: bufof_iff[OF ok])
    have "b \<noteq> blk" using j fresh by blast
    moreover have "bufof ?t b = Some j" if "j \<noteq> i" using that j h by (simp add: bufof_iff[OF ok'])
    moreover have "bufof ?t b = None" if "j = i"
    proof -
      have "\<not> holds (buf_at ?t k) b" if k: "k < NBUF" for k
        using h[OF k, of b] cache_okD(6)[OF ok k j(1) _ j(2)] \<open>b \<noteq> blk\<close> \<open>j = i\<close> by (cases "k = i") auto
      then show ?thesis by (simp add: bufof_None_iff)
    qed
    ultimately show ?thesis using Some by auto
  qed
  show "bufof ?t blk = Some i" by (simp add: bo)
  have evict: "bref s b = 0 \<and> bown s b = None \<and> bview s b = disk s b" if "bufof s b = Some i" for b
  proof -
    have "holds (buf_at s i) b" using that by (simp add: bufof_iff[OF ok])
    then show ?thesis
      using that i(2) cache_okD(3)[OF ok i(1)] by (simp add: bref_def bown_def bview_def holds_def buf_ok_def)
  qed
  have n0: "bref s blk = 0" "bview s blk = disk s blk" using n by (simp_all add: bref_def bview_def)
  have "bufof ?t b = bufof s b" if "bref s b \<noteq> 0" for b
    using that evict[of b] n0 by (auto simp: bo)
  then show "keeps s ?t" unfolding keeps_def by (simp add: bread_miss_def)
  have d: "disk ?t = disk s" "dtrace ?t = dtrace s" by (simp_all add: bread_miss_def)
  have self: "bview ?t blk = bview s blk" "bref ?t blk = 1" "bown ?t blk = Some (mypid s)"
    using i(1) n0 by (simp_all add: bview_def bref_def bown_def bo at take_lock_def)
  have "bview ?t b = bview s b \<and> bref ?t b = bref s b \<and> bown ?t b = bown s b" if b: "b \<noteq> blk" for b
  proof (cases "bufof s b")
    case None
    then show ?thesis using b by (simp add: bview_def bref_def bown_def bo d)
  next
    case (Some j)
    then have "j < NBUF" by (simp add: bufof_iff[OF ok])
    show ?thesis
    proof (cases "j = i")
      case True
      then have "bufof ?t b = None" using b Some by (simp add: bo)
      then show ?thesis using evict[of b] Some True by (simp add: bview_def bref_def bown_def d)
    next
      case False
      then show ?thesis using b Some \<open>j < NBUF\<close> by (simp add: bview_def bref_def bown_def bo at)
    qed
  qed
  with self have "bview ?t b = bview s b" "bref ?t b = (if b = blk then 1 else bref s b)"
    "bown ?t b = (if b = blk then Some (mypid s) else bown s b)" for b
    by (cases "b = blk"; simp)+
  then show "cabs ?t = (cabs s)\<lparr>c_ref := (bref s)(blk := 1), c_own := (bown s)(blk := Some (mypid s))\<rparr>"
    using d by (intro cabs_eqI) (auto simp: fun_eq_iff)
qed


text \<open>A buffer is free to be recycled as long as fewer than NBUF blocks are referenced.\<close>

definition inuse :: "'a kfs_scheme \<Rightarrow> uint set" where
  "inuse s = {b. bref s b \<noteq> 0}"

lemma unreferenced_buffer:
  assumes ok: "cache_ok s" and c: "card (inuse s) < NBUF"
  shows "\<exists>i<NBUF. b_refcnt (buf_at s i) = 0"
proof (rule ccontr)
  assume "\<not> (\<exists>i<NBUF. b_refcnt (buf_at s i) = 0)"
  then have r: "b_refcnt (buf_at s i) \<noteq> 0" if "i < NBUF" for i using that by blast
  have hold: "holds (buf_at s i) (b_blockno (buf_at s i))" if "i < NBUF" for i
    using r[OF that] cache_okD(3)[OF ok that] by (auto simp: holds_def buf_ok_def split: if_splits)
  have b: "bufof s (b_blockno (buf_at s i)) = Some i" if "i < NBUF" for i
    using hold[OF that] that by (simp add: bufof_iff[OF ok])
  have "inj_on (\<lambda>i. b_blockno (buf_at s i)) {..<NBUF}"
  proof (rule inj_onI)
    fix i j
    assume "i \<in> {..<NBUF}" "j \<in> {..<NBUF}" "b_blockno (buf_at s i) = b_blockno (buf_at s j)"
    then have "Some i = Some j" using b[of i] b[of j] by (metis lessThan_iff)
    then show "i = j" by simp
  qed
  then have "card ((\<lambda>i. b_blockno (buf_at s i)) ` {..<NBUF}) = NBUF"
    by (simp only: card_image card_lessThan)
  moreover have "(\<lambda>i. b_blockno (buf_at s i)) ` {..<NBUF} \<subseteq> inuse s"
  proof
    fix x
    assume "x \<in> (\<lambda>i. b_blockno (buf_at s i)) ` {..<NBUF}"
    then obtain i where i: "i < NBUF" "x = b_blockno (buf_at s i)" by (metis imageE lessThan_iff)
    then show "x \<in> inuse s" using b[OF i(1)] r[OF i(1)] by (simp add: inuse_def bref_def unat_gt_0)
  qed
  moreover have "finite (inuse s)"
    by (rule finite_subset[of _ "UNIV :: uint set"]) simp_all
  ultimately have "NBUF \<le> card (inuse s)" by (metis card_mono)
  with c show False by simp
qed

lemma bread_ok:
  assumes ok: "cache_ok s" and p: "myproc s = Some p" and free: "bown s blk = None"
    and lim: "bref s blk + 1 < 2 ^ 32" and room: "bref s blk \<noteq> 0 \<or> card (inuse s) < NBUF"
  shows "\<exists>i t. bread ROOTDEV blk s = Ok (i, t) \<and> cache_ok t \<and> bufof t blk = Some i \<and> keeps s t \<and>
    cabs t = (cabs s)\<lparr>c_ref := (bref s)(blk := bref s blk + 1), c_own := (bown s)(blk := Some (mypid s))\<rparr>"
proof (cases "bufof s blk")
  case (Some i)
  then show ?thesis using bread_hit_eq[OF ok p Some free] bread_hit_ok[OF ok Some lim] by blast
next
  case None
  then have z: "bref s blk = 0" by (simp add: bref_def)
  obtain order where l: "lru s order" using cache_okD(2)[OF ok] by blast
  obtain j where "j < NBUF" "b_refcnt (buf_at s j) = 0" using unreferenced_buffer[OF ok] room z by blast
  then have "find (\<lambda>j. b_refcnt (buf_at s j) = 0) (rev order) \<noteq> None"
    using lruD(4)[OF l, of j] unfolding find_None_iff by auto
  then obtain i where i: "find (\<lambda>j. b_refcnt (buf_at s j) = 0) (rev order) = Some i" by blast
  then have "i < NBUF" "b_refcnt (buf_at s i) = 0" using find_SomeD[OF i] lruD(4)[OF l, of i] by simp_all
  then show ?thesis using bread_miss_eq[OF ok l p None i] bread_miss_ok[OF ok None] z by auto
qed

subsection \<open>Changing, pinning and writing a buffer\<close>

lemma upd_data_ok:
  assumes ok: "cache_ok s" and i: "bufof s blk = Some i" and r: "bref s blk \<noteq> 0" and d: "length d = BSIZE"
  shows "cache_ok (upd_buf i (\<lambda>x. x\<lparr>b_data := d\<rparr>) s)" "keeps s (upd_buf i (\<lambda>x. x\<lparr>b_data := d\<rparr>) s)"
    "bufof (upd_buf i (\<lambda>x. x\<lparr>b_data := d\<rparr>) s) = bufof s"
    "cabs (upd_buf i (\<lambda>x. x\<lparr>b_data := d\<rparr>) s) = (cabs s)\<lparr>c_view := (bview s)(blk := d)\<rparr>"
proof -
  let ?f = "\<lambda>x. x\<lparr>b_data := d\<rparr>"
  have i30: "i < NBUF" using i by (simp add: bufof_iff[OF ok])
  have r0: "b_refcnt (buf_at s i) \<noteq> 0" using r i by (auto simp: bref_def)
  show "cache_ok (upd_buf i ?f s)" using cache_okD(3)[OF ok i30] r0 d
    by (intro cache_ok_upd_same[OF ok i30]) (simp_all add: buf_ok_def)
  show "keeps s (upd_buf i ?f s)" by (rule keeps_upd_same[OF ok]) simp_all
  show "bufof (upd_buf i ?f s) = bufof s" by (rule bufof_upd_same[OF cache_okD(5)[OF ok]]) simp_all
  show "cabs (upd_buf i ?f s) = (cabs s)\<lparr>c_view := (bview s)(blk := d)\<rparr>"
    using fields_upd_same[OF ok i, of ?f] i
    by (intro cabs_eqI) (auto simp: bref_def bown_def fun_eq_iff)
qed

lemma upd_refcnt_ok:
  assumes ok: "cache_ok s" and i: "bufof s blk = Some i" and n: "0 < n" "n < 2 ^ 32"
    and f: "\<And>x. f x = x\<lparr>b_refcnt := g x\<rparr>" "unat (g (buf_at s i)) = n"
  shows "cache_ok (upd_buf i f s)" "keeps s (upd_buf i f s)" "bufof (upd_buf i f s) = bufof s"
    "cabs (upd_buf i f s) = (cabs s)\<lparr>c_ref := (bref s)(blk := n)\<rparr>"
proof -
  have i30: "i < NBUF" and hold: "holds (buf_at s i) blk" using i by (simp_all add: bufof_iff[OF ok])
  have r0: "g (buf_at s i) \<noteq> 0" using n f(2) by (metis less_numeral_extra(3) unat_0)
  show "cache_ok (upd_buf i f s)" using cache_okD(3)[OF ok i30] r0 hold
    by (intro cache_ok_upd_same[OF ok i30]) (simp_all add: buf_ok_def f(1) holds_def)
  show "keeps s (upd_buf i f s)" by (rule keeps_upd_same[OF ok]) (simp_all add: f(1))
  show "bufof (upd_buf i f s) = bufof s" by (rule bufof_upd_same[OF cache_okD(5)[OF ok]]) (simp_all add: f(1))
  show "cabs (upd_buf i f s) = (cabs s)\<lparr>c_ref := (bref s)(blk := n)\<rparr>"
    using fields_upd_same[OF ok i, of f] i
    by (intro cabs_eqI) (auto simp: bview_def bown_def fun_eq_iff f)
qed


lemma bpin_ok:
  assumes ok: "cache_ok s" and i: "bufof s blk = Some i" and n: "bref s blk + 1 < 2 ^ 32"
  shows "cache_ok (bpin i s)" "keeps s (bpin i s)" "bufof (bpin i s) = bufof s"
    "cabs (bpin i s) = (cabs s)\<lparr>c_ref := (bref s)(blk := bref s blk + 1)\<rparr>"
proof -
  have "unat (b_refcnt (buf_at s i) + 1) = bref s blk + 1"
    using n i by (simp add: bref_def unat_word_ariths)
  note u = upd_refcnt_ok[where g = "\<lambda>x. b_refcnt x + 1", OF ok i _ n refl this]
  show "cache_ok (bpin i s)" "keeps s (bpin i s)" "bufof (bpin i s) = bufof s"
    "cabs (bpin i s) = (cabs s)\<lparr>c_ref := (bref s)(blk := bref s blk + 1)\<rparr>"
    unfolding bpin_def using u by simp_all
qed

lemma unat_pred: "unat (w - 1) = unat w - 1" if "w \<noteq> 0" for w :: uint
  using that unat_gt_0[of w] by (simp add: unat_sub word_le_nat_alt)

lemma bunpin_ok:
  assumes ok: "cache_ok s" and i: "bufof s blk = Some i" and n: "1 < bref s blk"
  shows "cache_ok (bunpin i s)" "keeps s (bunpin i s)" "bufof (bunpin i s) = bufof s"
    "cabs (bunpin i s) = (cabs s)\<lparr>c_ref := (bref s)(blk := bref s blk - 1)\<rparr>"
proof -
  have b: "bref s blk = unat (b_refcnt (buf_at s i))" using i by (simp add: bref_def)
  then have "b_refcnt (buf_at s i) \<noteq> 0" using n by auto
  then have g: "unat (b_refcnt (buf_at s i) - 1) = bref s blk - 1" using b by (simp add: unat_pred)
  have l: "0 < bref s blk - 1" "bref s blk - 1 < 2 ^ 32"
    using n b unat_lt[of "b_refcnt (buf_at s i)"] by simp_all
  note u = upd_refcnt_ok[where g = "\<lambda>x. b_refcnt x - 1", OF ok i l refl g]
  show "cache_ok (bunpin i s)" "keeps s (bunpin i s)" "bufof (bunpin i s) = bufof s"
    "cabs (bunpin i s) = (cabs s)\<lparr>c_ref := (bref s)(blk := bref s blk - 1)\<rparr>"
    unfolding bunpin_def using u by simp_all
qed

lemma holdingsleep_mine:
  assumes "cache_ok s" "myproc s = Some p" "bufof s blk = Some i" "bown s blk = Some (mypid s)"
  shows "holdingsleep (b_lock (buf_at s i)) s = Ok (True, s)" "b_refcnt (buf_at s i) \<noteq> 0"
proof -
  have lk: "sl_locked (b_lock (buf_at s i)) \<noteq> 0" "sl_pid (b_lock (buf_at s i)) = mypid s"
    using assms(3,4) by (auto simp: bown_def Let_def split: if_splits)
  then show "holdingsleep (b_lock (buf_at s i)) s = Ok (True, s)"
    using assms(2) by (simp add: holdingsleep_def curproc_def mypid_def)
  have "i < NBUF" using assms(3) by (simp add: bufof_iff[OF assms(1)])
  then show "b_refcnt (buf_at s i) \<noteq> 0" using cache_okD(3)[OF assms(1)] lk by (auto simp: buf_ok_def)
qed

lemma disk_write_frame [simp]:
  "bufs (disk_write i s) = bufs s" "klog (disk_write i s) = klog s" "sb (disk_write i s) = sb s"
  "itable (disk_write i s) = itable s" "procs (disk_write i s) = procs s" "cpus (disk_write i s) = cpus s"
  "hart (disk_write i s) = hart s"
  by (simp_all add: disk_write_def Let_def)

lemma buf_at_disk_write [simp]: "buf_at (disk_write i s) = buf_at s"
  by (rule ext) (simp add: buf_at_def)

lemma proc_frame:
  "cpus t = cpus s \<Longrightarrow> hart t = hart s \<Longrightarrow> myproc t = myproc s"
  "procs t = procs s \<Longrightarrow> proc_at t i = proc_at s i"
  "cpus t = cpus s \<Longrightarrow> hart t = hart s \<Longrightarrow> procs t = procs s \<Longrightarrow> mypid t = mypid s"
  "cpus t = cpus s \<Longrightarrow> hart t = hart s \<Longrightarrow> procs t = procs s \<Longrightarrow> kproc_ok t = kproc_ok s"
  by (simp_all add: myproc_def mycpu_def cpuid_def proc_at_def mypid_def kproc_ok_def hart_ok_def split: option.split)

lemma bwrite_ok:
  assumes ok: "cache_ok s" and p: "myproc s = Some p" and i: "bufof s blk = Some i"
    and own: "bown s blk = Some (mypid s)"
  shows "\<exists>t. bwrite i s = Ok ((), t) \<and> cache_ok t \<and> keeps s t \<and> bufof t = bufof s \<and>
    cabs t = (cabs s)\<lparr>c_disk := (disk s)(blk := bview s blk), c_trace := dtrace s @ [(blk, bview s blk)]\<rparr>"
proof -
  let ?t = "disk_write i s"
  have i30: "i < NBUF" and hold: "holds (buf_at s i) blk" using i by (simp_all add: bufof_iff[OF ok])
  note h = holdingsleep_mine[OF ok p i own]
  have w: "bwrite i s = Ok ((), ?t)" using h(1) by (simp add: bwrite_def)
  have v: "b_data (buf_at s i) = bview s blk" "b_blockno (buf_at s i) = blk"
    using i hold by (simp_all add: bview_def holds_def)
  have d: "disk ?t = (disk s)(blk := bview s blk)" "dtrace ?t = dtrace s @ [(blk, bview s blk)]"
    using v by (simp_all add: disk_write_def Let_def)
  have bo: "bufof ?t = bufof s" by (simp add: fun_eq_iff bufof_def)
  have len: "length (bview s blk) = BSIZE" using cache_okD(3)[OF ok i30] v(1) by (simp add: buf_ok_def)
  have "buf_ok (disk ?t) (buf_at s j)" if j: "j < NBUF" for j
  proof (cases "j = i")
    case True
    then show ?thesis using cache_okD(3)[OF ok i30] h(2) by (simp add: buf_ok_def)
  next
    case False
    then have "\<not> holds (buf_at s j) blk" using cache_okD(6)[OF ok j i30 _ hold] by blast
    then show ?thesis using cache_okD(3)[OF ok j] d(1) by (auto simp: buf_ok_def holds_def split: if_splits)
  qed
  then have bok: "buf_ok (disk ?t) (buf_at ?t j)" if "j < NBUF" for j using that by simp
  obtain order where "lru s order" using cache_okD(2)[OF ok] by blast
  then have l: "lru ?t order" by (simp add: lru_def)
  have f: "myproc ?t = myproc s" "mypid ?t = mypid s" "kproc_ok ?t = kproc_ok s"
    by (rule proc_frame; simp)+
  have ok': "cache_ok ?t"
    using cache_okD(1,4,6,7)[OF ok] len d(1) by (intro cache_okI[OF _ _ l bok]) (simp_all add: f)
  have "keeps s ?t" unfolding keeps_def by (simp add: bo f)
  moreover have "cabs ?t = (cabs s)\<lparr>c_disk := (disk s)(blk := bview s blk), c_trace := dtrace s @ [(blk, bview s blk)]\<rparr>"
    using i d by (intro cabs_eqI) (auto simp: fun_eq_iff bview_def bref_def bown_def bo split: option.split)
  ultimately show ?thesis using w ok' bo by blast
qed


subsection \<open>brelse\<close>

text \<open>The four and two assignments of \<open>brelse\<close> that move a buffer to the front.\<close>

definition unlink_buf :: "nat \<Rightarrow> 'a kfs_scheme \<Rightarrow> 'a kfs_scheme" where
  "unlink_buf b s =
     (let t = upd_buf (b_next (buf_at s b)) (\<lambda>x. x\<lparr>b_prev := b_prev (buf_at s b)\<rparr>) s
      in upd_buf (b_prev (buf_at t b)) (\<lambda>x. x\<lparr>b_next := b_next (buf_at t b)\<rparr>) t)"

definition same_but_links :: "'a kfs_scheme \<Rightarrow> 'a kfs_scheme \<Rightarrow> bool" where
  "same_but_links s t \<longleftrightarrow> (\<exists>bs. t = s\<lparr>bufs := bs\<rparr> \<and> length bs = length (bufs s)) \<and>
     (\<forall>j<length (bufs s). \<exists>n q. buf_at t j = (buf_at s j)\<lparr>b_next := n, b_prev := q\<rparr>)"

lemma same_but_links_refl: "same_but_links s s"
proof -
  have "\<exists>n q. x = x\<lparr>b_next := n, b_prev := q\<rparr>" for x :: buf by (cases x) simp
  moreover have "s = s\<lparr>bufs := bufs s\<rparr>" by simp
  ultimately show ?thesis unfolding same_but_links_def by blast
qed

lemma same_but_links_upd:
  assumes "same_but_links s t" "\<And>x. \<exists>n q. f x = x\<lparr>b_next := n, b_prev := q\<rparr>"
  shows "same_but_links s (upd_buf i f t)"
proof -
  obtain bs where bs: "t = s\<lparr>bufs := bs\<rparr>" "length bs = length (bufs s)"
    using assms(1) by (auto simp: same_but_links_def)
  have u: "upd_buf i f t = s\<lparr>bufs := bs[i := f (bs ! i)]\<rparr>" using bs by (simp add: upd_buf_def)
  have "\<exists>n q. buf_at (upd_buf i f t) j = (buf_at s j)\<lparr>b_next := n, b_prev := q\<rparr>" if j: "j < length (bufs s)" for j
  proof -
    obtain n q where nq: "buf_at t j = (buf_at s j)\<lparr>b_next := n, b_prev := q\<rparr>"
      using assms(1) j by (auto simp: same_but_links_def)
    have len: "j < length (bufs t)" using j bs by simp
    obtain n' q' where "f (buf_at t j) = (buf_at t j)\<lparr>b_next := n', b_prev := q'\<rparr>" using assms(2) by blast
    then have f: "f (buf_at t j) = (buf_at s j)\<lparr>b_next := n', b_prev := q'\<rparr>" using nq by simp
    show ?thesis using f nq len by (cases "i = j") auto
  qed
  then show ?thesis using u bs(2) unfolding same_but_links_def by auto
qed

lemma update_links [intro]:
  "\<exists>n q. x\<lparr>b_prev := a\<rparr> = x\<lparr>b_next := n, b_prev := q\<rparr>"
  "\<exists>n q. x\<lparr>b_next := a\<rparr> = x\<lparr>b_next := n, b_prev := q\<rparr>"
  "\<exists>n q. x\<lparr>b_next := a, b_prev := c\<rparr> = x\<lparr>b_next := n, b_prev := q\<rparr>" for x :: buf
  by (cases x; simp)+

lemma same_but_links_relink: "same_but_links s (bufs_push_front b (unlink_buf b s))"
  unfolding bufs_push_front_def unlink_buf_def Let_def
  by (intro same_but_links_upd same_but_links_refl) blast+

lemma lru_relink:
  assumes l: "lru s order" and b: "b < NBUF"
  shows "lru (bufs_push_front b (unlink_buf b s)) (b # filter (\<lambda>i. i \<noteq> b) order)"
proof -
  have len: "length (bufs s) = 31" and d: "dll (nxt s) (prv s) NBUF order NBUF" and dis: "distinct order"
    and mem: "\<And>x. x \<in> set order \<longleftrightarrow> x < NBUF" using lruD[OF l] by simp_all
  obtain xs ys where o: "order = xs @ b # ys" using mem[of b] b by (auto simp: in_set_conv_decomp)
  have "filter (\<lambda>i. i \<noteq> b) xs = xs" "filter (\<lambda>i. i \<noteq> b) ys = ys"
    by (rule filter_True; use o dis in auto)+
  then have fil: "filter (\<lambda>i. i \<noteq> b) order = xs @ ys" by (simp add: o)
  have dis': "distinct (NBUF # xs @ b # ys)" using dis o mem[of NBUF] by auto
  let ?u = "unlink_buf b s" and ?t = "bufs_push_front b (unlink_buf b s)"
  have lr: "dll (nxt s) (prv s) NBUF xs b" "dll (nxt s) (prv s) b ys NBUF" using d o by (simp_all add: dll_append)
  have "hd (ys @ [NBUF]) \<in> set (ys @ [NBUF])" "last (NBUF # xs) \<in> set (NBUF # xs)"
    by (rule hd_in_set, simp, rule last_in_set, simp)
  then have nb: "nxt s b \<noteq> b" "nxt s b < 31" "prv s b < 31"
    using dll_first[OF lr(2)] dll_last[OF lr(1)] dis' mem o by (force simp del: last.simps)+
  have u: "nxt ?u j = ((nxt s)(prv s b := nxt s b)) j" "prv ?u j = ((prv s)(nxt s b := prv s b)) j" if "j < 31" for j
    using that nb len b by (simp_all add: unlink_buf_def Let_def)
  have in31: "j < 31" if "j \<in> set (NBUF # b # xs @ ys)" for j using that mem[of j] o by auto
  have lenu: "length (bufs ?u) = 31" using len by (simp add: unlink_buf_def Let_def)
  have "dll (nxt ?u) (prv ?u) NBUF (xs @ ys) NBUF =
      dll ((nxt s)(prv s b := nxt s b)) ((prv s)(nxt s b := prv s b)) NBUF (xs @ ys) NBUF"
    by (intro dll_cong u in31) auto
  then have du: "dll (nxt ?u) (prv ?u) NBUF (xs @ ys) NBUF" using dll_unlink[OF _ dis'] d o by simp
  have "nxt ?u NBUF \<in> set ((xs @ ys) @ [NBUF])"
    unfolding dll_first[OF du] by (rule hd_in_set) simp
  then have nu: "nxt ?u NBUF < 31" "nxt ?u NBUF \<noteq> b"
    using in31[of "nxt ?u NBUF"] dis' by auto
  have t: "nxt ?t j = ((nxt ?u)(b := nxt ?u NBUF, NBUF := b)) j"
    "prv ?t j = ((prv ?u)(b := NBUF, nxt ?u NBUF := b)) j" if "j < 31" for j
    using that nu lenu b by (simp_all add: bufs_push_front_def Let_def)
  have "dll (nxt ?t) (prv ?t) NBUF (b # xs @ ys) NBUF =
      dll ((nxt ?u)(b := nxt ?u NBUF, NBUF := b)) ((prv ?u)(b := NBUF, nxt ?u NBUF := b)) NBUF (b # xs @ ys) NBUF"
    by (intro dll_cong t in31) auto
  moreover have "dll ((nxt ?u)(b := nxt ?u NBUF, NBUF := b)) ((prv ?u)(b := NBUF, nxt ?u NBUF := b)) NBUF (b # xs @ ys) NBUF"
    using dis' by (intro dll_push[OF du]) auto
  moreover have "length (bufs ?t) = 31" using lenu by (simp add: bufs_push_front_def Let_def)
  moreover have "distinct (b # xs @ ys)" "i \<in> set (b # xs @ ys) \<longleftrightarrow> i < NBUF" for i
    using dis' mem[of i] o by auto
  ultimately show ?thesis unfolding lru_def fil by blast
qed


lemma same_but_linksD:
  assumes "same_but_links s t" "length (bufs s) = 31"
  shows "disk t = disk s" "dtrace t = dtrace s" "klog t = klog s" "sb t = sb s" "itable t = itable s"
    "procs t = procs s" "cpus t = cpus s" "hart t = hart s" "bufof t = bufof s"
    "j < NBUF \<Longrightarrow> b_dev (buf_at t j) = b_dev (buf_at s j) \<and> b_blockno (buf_at t j) = b_blockno (buf_at s j) \<and>
       b_valid (buf_at t j) = b_valid (buf_at s j) \<and> b_refcnt (buf_at t j) = b_refcnt (buf_at s j) \<and>
       b_lock (buf_at t j) = b_lock (buf_at s j) \<and> b_data (buf_at t j) = b_data (buf_at s j)"
proof -
  obtain bs where bs: "t = s\<lparr>bufs := bs\<rparr>" using assms(1) by (auto simp: same_but_links_def)
  then show "disk t = disk s" "dtrace t = dtrace s" "klog t = klog s" "sb t = sb s" "itable t = itable s"
    "procs t = procs s" "cpus t = cpus s" "hart t = hart s" by simp_all
  have f: "b_dev (buf_at t j) = b_dev (buf_at s j) \<and> b_blockno (buf_at t j) = b_blockno (buf_at s j) \<and>
       b_valid (buf_at t j) = b_valid (buf_at s j) \<and> b_refcnt (buf_at t j) = b_refcnt (buf_at s j) \<and>
       b_lock (buf_at t j) = b_lock (buf_at s j) \<and> b_data (buf_at t j) = b_data (buf_at s j)" if j: "j < NBUF" for j
  proof -
    have "j < length (bufs s)" using j assms(2) by simp
    then obtain n q where "buf_at t j = (buf_at s j)\<lparr>b_next := n, b_prev := q\<rparr>"
      using assms(1) unfolding same_but_links_def by blast
    then show ?thesis by simp
  qed
  then show "j < NBUF \<Longrightarrow> b_dev (buf_at t j) = b_dev (buf_at s j) \<and> b_blockno (buf_at t j) = b_blockno (buf_at s j) \<and>
       b_valid (buf_at t j) = b_valid (buf_at s j) \<and> b_refcnt (buf_at t j) = b_refcnt (buf_at s j) \<and>
       b_lock (buf_at t j) = b_lock (buf_at s j) \<and> b_data (buf_at t j) = b_data (buf_at s j)" .
  show "bufof t = bufof s"
  proof (rule ext)
    fix blk
    show "bufof t blk = bufof s blk"
      unfolding bufof_def by (intro find_cong) (auto simp: holds_def f)
  qed
qed

text \<open>Relinking keeps the invariant and the four functions.\<close>

lemma relink_ok:
  assumes ok: "cache_ok s" and b: "b < NBUF"
  shows "cache_ok (bufs_push_front b (unlink_buf b s))" "keeps s (bufs_push_front b (unlink_buf b s))"
    "bufof (bufs_push_front b (unlink_buf b s)) = bufof s" "cabs (bufs_push_front b (unlink_buf b s)) = cabs s"
proof -
  let ?t = "bufs_push_front b (unlink_buf b s)"
  note f = same_but_linksD[OF same_but_links_relink[of s b] cache_okD(5)[OF ok]]
  have pf: "myproc ?t = myproc s" "mypid ?t = mypid s" "kproc_ok ?t = kproc_ok s"
    by (rule proc_frame; simp add: f)+
  obtain order where l: "lru s order" using cache_okD(2)[OF ok] by blast
  show "cache_ok ?t"
  proof (rule cache_okI[OF _ _ lru_relink[OF l b]])
    show "buf_ok (disk ?t) (buf_at ?t j)" if "j < NBUF" for j
      using cache_okD(3)[OF ok that] f(10)[OF that] by (simp add: buf_ok_def f(1))
    show "i = j" if "i < NBUF" "j < NBUF" "holds (buf_at ?t i) blk" "holds (buf_at ?t j) blk" for i j blk
      using cache_okD(6)[OF ok that(1,2)] f(10)[OF that(1)] f(10)[OF that(2)] that(3,4) by (simp add: holds_def)
  qed (use cache_okD(1,4,7)[OF ok] in \<open>simp_all add: pf f(1)\<close>)
  show "keeps s ?t" by (simp add: keeps_def pf f)
  show "bufof ?t = bufof s" by (rule f(9))
  have "j < NBUF" if "bufof s blk = Some j" for blk j using that by (simp add: bufof_iff[OF ok])
  then show "cabs ?t = cabs s"
    by (intro cabs_eqI) (auto simp: fun_eq_iff bview_def bref_def bown_def f split: option.split)
qed

lemma wakeup_cache:
  assumes ok: "cache_ok s"
  shows "cache_ok (wakeup ch s)" "keeps s (wakeup ch s)" "bufof (wakeup ch s) = bufof s" "cabs (wakeup ch s) = cabs s"
    "buf_at (wakeup ch s) = buf_at s"
proof -
  have k: "kproc_ok s" by (rule cache_okD(1)[OF ok])
  show at: "buf_at (wakeup ch s) = buf_at s" by (rule ext) (simp add: buf_at_def)
  show bo: "bufof (wakeup ch s) = bufof s" by (rule ext) (simp add: bufof_def at)
  obtain order where "lru s order" using cache_okD(2)[OF ok] by blast
  then have l: "lru (wakeup ch s) order" by (simp add: lru_def at)
  show "cache_ok (wakeup ch s)"
    using cache_okD(3,4,6,7)[OF ok] k by (intro cache_okI[OF _ _ l]) (simp_all add: at)
  have "mypid (wakeup ch s) = mypid s"
    using k cache_okD(7)[OF ok] by (auto simp: mypid_def split: option.split)
  then show "keeps s (wakeup ch s)" using k by (simp add: keeps_def bo)
  show "cabs (wakeup ch s) = cabs s"
    by (rule cabs_eqI) (simp_all add: fun_eq_iff bview_def bref_def bown_def bo at split: option.split)
qed

lemma keeps_trans: "keeps s t \<Longrightarrow> keeps t u \<Longrightarrow> bufof t = bufof s \<Longrightarrow> bufof u = bufof t \<Longrightarrow> keeps s u"
  by (simp add: keeps_def)


lemma brelse_ok:
  assumes ok: "cache_ok s" and p: "myproc s = Some p" and i: "bufof s blk = Some i"
    and own: "bown s blk = Some (mypid s)" and clean: "bref s blk = 1 \<Longrightarrow> bview s blk = disk s blk"
  shows "\<exists>t. brelse i s = Ok ((), t) \<and> cache_ok t \<and> keeps s t \<and> bufof t = bufof s \<and>
    cabs t = (cabs s)\<lparr>c_ref := (bref s)(blk := bref s blk - 1), c_own := (bown s)(blk := None)\<rparr>"
proof -
  note h = holdingsleep_mine[OF ok p i own]
  have i30: "i < NBUF" and hold: "holds (buf_at s i) blk" using i by (simp_all add: bufof_iff[OF ok])
  let ?w = "wakeup (Some (ChanBufLock i)) s"
  let ?lk = "(b_lock (buf_at s i))\<lparr>sl_locked := 0, sl_pid := 0\<rparr>"
  let ?f = "\<lambda>x. x\<lparr>b_lock := ?lk, b_refcnt := b_refcnt x - 1\<rparr>"
  let ?s1 = "upd_buf i ?f ?w"
  note w = wakeup_cache[OF ok, of "Some (ChanBufLock i)"]
  have wok: "cache_ok ?w" and wi: "bufof ?w blk = Some i" using w i by simp_all
  have wf: "bview ?w = bview s" "bref ?w = bref s" "bown ?w = bown s" "disk ?w = disk s" "dtrace ?w = dtrace s"
    using w(4) unfolding cabs_def by simp_all
  have len: "length (bufs ?w) = 31" using cache_okD(5)[OF wok] .
  have r: "unat (b_refcnt (buf_at s i) - 1) = bref s blk - 1" using h(2) i by (simp add: unat_pred bref_def)
  have bk: "buf_ok (disk s) (?f (buf_at s i))"
  proof -
    have "b_data (buf_at s i) = disk s blk" if "b_refcnt (buf_at s i) - 1 = 0"
    proof -
      have "b_refcnt (buf_at s i) = 1" using that by simp
      then have "bref s blk = 1" using i by (simp add: bref_def)
      then show ?thesis using clean i by (simp add: bview_def)
    qed
    then show ?thesis using cache_okD(3)[OF ok i30] hold by (simp add: buf_ok_def holds_def)
  qed
  have ok1: "cache_ok ?s1"
    using bk by (intro cache_ok_upd_same[OF wok i30]) (simp_all add: w(5))
  have bo1: "bufof ?s1 = bufof s" using bufof_upd_same[OF len, of ?f i] w(3) by simp
  have k1: "keeps s ?s1"
    using keeps_trans[OF w(2) keeps_upd_same[OF wok, of ?f i]] bufof_upd_same[OF len, of ?f i] w(3) by simp
  have c1: "cabs ?s1 = (cabs s)\<lparr>c_ref := (bref s)(blk := bref s blk - 1), c_own := (bown s)(blk := None)\<rparr>"
    using fields_upd_same[OF wok wi, of ?f] r i
    by (intro cabs_eqI) (auto simp: wf w(5) fun_eq_iff bview_def)
  have b: "brelse i s = Ok ((), if b_refcnt (buf_at ?s1 i) = 0 then bufs_push_front i (unlink_buf i ?s1) else ?s1)"
    using h(1) len i30 by (simp add: brelse_def releasesleep_def w(5) unlink_buf_def Let_def)
  show ?thesis
  proof (cases "b_refcnt (buf_at ?s1 i) = 0")
    case True
    note rl = relink_ok[OF ok1 i30]
    then show ?thesis using b True keeps_trans[OF k1 rl(2)] bo1 c1 by auto
  next
    case False
    then show ?thesis using b ok1 k1 bo1 c1 by auto
  qed
qed

end
