(* ===== verification/Xv6_Crash.thy ===== *)
theory Xv6_Crash
  imports Xv6_Bcache Xv6_Log
begin

section \<open>Transactions survive crashes\<close>

text \<open>
  Proofs about kernel/log.c on the refined buffer cache. A crash leaves the disk after some prefix
  of the writes; \<open>recover_from_log\<close> then runs on an empty cache. The lemmas give the exact sequence
  of disk writes of \<open>commit\<close> and of the recovery, and the pure part shows what any prefix of it
  recovers to.
\<close>

subsection \<open>Copying one block\<close>

definition same_log :: "'a kfs_scheme \<Rightarrow> 'a kfs_scheme \<Rightarrow> bool" where
  "same_log s t \<longleftrightarrow> klog t = klog s \<and> sb t = sb s \<and> itable t = itable s \<and> myproc t = myproc s \<and> mypid t = mypid s"

lemma keeps_same_log: "keeps s t \<Longrightarrow> same_log s t"
  by (simp add: keeps_def same_log_def)

lemma same_log_refl [simp]: "same_log s s"
  by (simp add: same_log_def)

lemma same_log_trans: "same_log s t \<Longrightarrow> same_log t u \<Longrightarrow> same_log s u"
  by (simp add: same_log_def)

lemma cabs_eqD:
  assumes "cabs t = c"
  shows "bview t = c_view c" "bref t = c_ref c" "bown t = c_own c" "disk t = c_disk c" "dtrace t = c_trace c"
  using assms by (auto simp: cabs_def)

lemma inuse_bread: "bref t = (bref s)(blk := Suc k) \<Longrightarrow> card (inuse t) \<le> card (inuse s) + 1"
proof -
  assume "bref t = (bref s)(blk := Suc k)"
  then have "inuse t = insert blk (inuse s)" by (auto simp: inuse_def)
  moreover have "finite (inuse s)" by (rule finite_subset[of _ "UNIV :: uint set"]) simp_all
  ultimately show ?thesis by (simp add: card_insert_if)
qed

text \<open>
  What both loops over the log do with source block \<open>src\<close> and destination block \<open>dst\<close>: read both,
  copy, write the destination, release both.
\<close>

lemma copy_blocks:
  assumes ok: "cache_ok s" and p: "myproc s = Some p" and ne: "a \<noteq> b"
    and free: "bown s a = None" "bown s b = None"
    and lim: "bref s a + 1 < 2 ^ 32" "bref s b + 1 < 2 ^ 32"
    and room: "bref s a \<noteq> 0 \<or> card (inuse s) < NBUF" "bref s b \<noteq> 0 \<or> card (inuse s) + 1 < NBUF"
  shows "\<exists>i j t1 t2. bread ROOTDEV a s = Ok (i, t1) \<and> bread ROOTDEV b t1 = Ok (j, t2) \<and> cache_ok t2 \<and>
    same_log s t1 \<and> same_log s t2 \<and> bufof t2 a = Some i \<and> bufof t2 b = Some j \<and>
    cabs t2 = (cabs s)\<lparr>c_ref := (bref s)(a := bref s a + 1, b := bref s b + 1),
      c_own := (bown s)(a := Some (mypid s), b := Some (mypid s))\<rparr>"
proof -
  obtain i t1 where 1: "bread ROOTDEV a s = Ok (i, t1)" "cache_ok t1" "bufof t1 a = Some i" "keeps s t1"
    "cabs t1 = (cabs s)\<lparr>c_ref := (bref s)(a := bref s a + 1), c_own := (bown s)(a := Some (mypid s))\<rparr>"
    using bread_ok[OF ok p free(1) lim(1) room(1)] by blast
  note e1 = cabs_eqD[OF 1(5), simplified]
  have "card (inuse t1) \<le> card (inuse s) + 1" using inuse_bread[of t1 s a "bref s a"] e1(2) by simp
  then have room2: "bref t1 b \<noteq> 0 \<or> card (inuse t1) < NBUF" using room(2) ne e1(2) by auto
  have "myproc t1 = Some p" using keepsD(4)[OF 1(4)] p by simp
  moreover have "bown t1 b = None" "bref t1 b + 1 < 2 ^ 32" using free(2) lim(2) ne e1 by auto
  ultimately obtain j t2 where 2: "bread ROOTDEV b t1 = Ok (j, t2)" "cache_ok t2" "bufof t2 b = Some j" "keeps t1 t2"
    "cabs t2 = (cabs t1)\<lparr>c_ref := (bref t1)(b := bref t1 b + 1), c_own := (bown t1)(b := Some (mypid t1))\<rparr>"
    using bread_ok[OF 1(2) _ _ _ room2] by blast
  have "bufof t2 a = Some i" using keepsD(6)[OF 2(4), of a] e1(2) 1(3) by simp
  moreover have "cabs t2 = (cabs s)\<lparr>c_ref := (bref s)(a := bref s a + 1, b := bref s b + 1),
      c_own := (bown s)(a := Some (mypid s), b := Some (mypid s))\<rparr>"
    using 2(5) 1(5) ne keepsD(5)[OF 1(4)] e1 by simp
  ultimately show ?thesis
    using 1 2 keeps_same_log[OF 1(4)] same_log_trans[OF keeps_same_log[OF 1(4)] keeps_same_log[OF 2(4)]] by blast
qed


lemma clean_unreferenced:
  assumes ok: "cache_ok s" and r: "bref s blk = 0"
  shows "bview s blk = disk s blk"
proof (cases "bufof s blk")
  case (Some i)
  then have "i < NBUF" "holds (buf_at s i) blk" by (simp_all add: bufof_iff[OF ok])
  moreover have "b_refcnt (buf_at s i) = 0" using r Some by (simp add: bref_def unat_eq_0)
  ultimately show ?thesis using cache_okD(3)[OF ok, of i] Some by (simp add: bview_def buf_ok_def holds_def)
qed (simp add: bview_def)

lemma length_bview:
  assumes ok: "cache_ok s"
  shows "length (bview s blk) = BSIZE"
proof (cases "bufof s blk")
  case (Some i)
  then have "i < NBUF" by (simp add: bufof_iff[OF ok])
  then show ?thesis using cache_okD(3)[OF ok, of i] Some by (simp add: bview_def buf_ok_def)
qed (simp add: bview_def cache_okD(4)[OF ok])

text \<open>Copy and write: the destination's contents and its disk block become the source's contents.\<close>

lemma copy_and_write:
  assumes ok: "cache_ok t" and p: "myproc t = Some p" and ij: "bufof t src = Some j" "bufof t dst = Some i"
    and own: "bown t dst = Some (mypid t)" and r: "bref t dst \<noteq> 0"
  shows "\<exists>u. bwrite i (buf_copy i j t) = Ok ((), u) \<and> cache_ok u \<and> same_log t u \<and> bufof u = bufof t \<and>
    cabs u = (cabs t)\<lparr>c_view := (bview t)(dst := bview t src), c_disk := (disk t)(dst := bview t src),
      c_trace := dtrace t @ [(dst, bview t src)]\<rparr>"
proof -
  have d: "b_data (buf_at t j) = bview t src" using ij by (simp add: bview_def)
  have c: "buf_copy i j t = upd_buf i (\<lambda>x. x\<lparr>b_data := bview t src\<rparr>) t" by (simp add: buf_copy_def d)
  note u = upd_data_ok[OF ok ij(2) r length_bview[OF ok], of src, folded c]
  note e = cabs_eqD[OF u(4), simplified]
  have "myproc (buf_copy i j t) = Some p" "mypid (buf_copy i j t) = mypid t" using keepsD(4,5)[OF u(2)] p by simp_all
  moreover have "bufof (buf_copy i j t) dst = Some i" using u(3) ij by simp
  ultimately obtain v where v: "bwrite i (buf_copy i j t) = Ok ((), v)" "cache_ok v" "keeps (buf_copy i j t) v"
    "bufof v = bufof (buf_copy i j t)"
    "cabs v = (cabs (buf_copy i j t))\<lparr>c_disk := (disk (buf_copy i j t))(dst := bview (buf_copy i j t) dst),
      c_trace := dtrace (buf_copy i j t) @ [(dst, bview (buf_copy i j t) dst)]\<rparr>"
    using bwrite_ok[OF u(1), of p dst i] own e(3) by auto
  have "cabs v = (cabs t)\<lparr>c_view := (bview t)(dst := bview t src), c_disk := (disk t)(dst := bview t src),
      c_trace := dtrace t @ [(dst, bview t src)]\<rparr>"
    using v(5) u(4) e by simp
  moreover have "same_log t v" using same_log_trans[OF keeps_same_log[OF u(2)] keeps_same_log[OF v(3)]] .
  ultimately show ?thesis using v(1,2,4) u(3) by auto
qed

text \<open>Releasing two blocks that this process holds, both clean unless still referenced.\<close>

lemma release_two:
  assumes ok: "cache_ok t" and p: "myproc t = Some p" and ij: "bufof t a = Some i" "bufof t b = Some j" and ne: "a \<noteq> b"
    and own: "bown t a = Some (mypid t)" "bown t b = Some (mypid t)"
    and clean: "bref t a = 1 \<Longrightarrow> bview t a = disk t a" "bref t b = 1 \<Longrightarrow> bview t b = disk t b"
  shows "\<exists>u v. brelse i t = Ok ((), u) \<and> brelse j u = Ok ((), v) \<and> cache_ok v \<and> same_log t v \<and>
    cabs v = (cabs t)\<lparr>c_ref := (bref t)(a := bref t a - 1, b := bref t b - 1), c_own := (bown t)(a := None, b := None)\<rparr>"
proof -
  obtain u where u: "brelse i t = Ok ((), u)" "cache_ok u" "keeps t u" "bufof u = bufof t"
    "cabs u = (cabs t)\<lparr>c_ref := (bref t)(a := bref t a - 1), c_own := (bown t)(a := None)\<rparr>"
    using brelse_ok[OF ok p ij(1) own(1) clean(1)] by blast
  note e = cabs_eqD[OF u(5), simplified]
  have "myproc u = Some p" "mypid u = mypid t" using keepsD(4,5)[OF u(3)] p by simp_all
  moreover have "bufof u b = Some j" using u(4) ij by simp
  ultimately obtain v where v: "brelse j u = Ok ((), v)" "cache_ok v" "keeps u v"
    "cabs v = (cabs u)\<lparr>c_ref := (bref u)(b := bref u b - 1), c_own := (bown u)(b := None)\<rparr>"
    using brelse_ok[OF u(2), of p b j] own(2) clean(2) ne e by auto
  have "cabs v = (cabs t)\<lparr>c_ref := (bref t)(a := bref t a - 1, b := bref t b - 1), c_own := (bown t)(a := None, b := None)\<rparr>"
    using v(4) u(5) e ne by simp
  then show ?thesis using u(1) v(1,2) same_log_trans[OF keeps_same_log[OF u(3)] keeps_same_log[OF v(3)]] by blast
qed


definition log_addr :: "'a kfs_scheme \<Rightarrow> nat \<Rightarrow> uint" where
  "log_addr s t = l_start (klog s) + word_of_nat t + 1"

definition home_addr :: "'a kfs_scheme \<Rightarrow> nat \<Rightarrow> uint" where
  "home_addr s t = lh_block (l_lh (klog s)) ! t"

text \<open>The conditions under which slot \<open>t\<close> of the log and its home block can be read together.\<close>

definition pair_ready :: "'a kfs_scheme \<Rightarrow> nat \<Rightarrow> bool" where
  "pair_ready s t \<longleftrightarrow> cache_ok s \<and> myproc s \<noteq> None \<and> l_dev (klog s) = ROOTDEV \<and>
     t < length (lh_block (l_lh (klog s))) \<and> log_addr s t \<noteq> home_addr s t \<and>
     bown s (log_addr s t) = None \<and> bown s (home_addr s t) = None \<and>
     bref s (log_addr s t) + 1 < 2 ^ 32 \<and> bref s (home_addr s t) + 1 < 2 ^ 32 \<and>
     card (inuse s) < NBUF \<and> (bref s (home_addr s t) \<noteq> 0 \<or> card (inuse s) + 1 < NBUF)"

lemma pair_read:
  assumes "pair_ready s t"
  shows "\<exists>i j t1 t2. log_block t s = Ok (i, t1) \<and> home_block t t1 = Ok (j, t2) \<and> cache_ok t2 \<and>
    same_log s t2 \<and> bufof t2 (log_addr s t) = Some i \<and> bufof t2 (home_addr s t) = Some j \<and>
    cabs t2 = (cabs s)\<lparr>c_ref := (bref s)(log_addr s t := bref s (log_addr s t) + 1, home_addr s t := bref s (home_addr s t) + 1),
      c_own := (bown s)(log_addr s t := Some (mypid s), home_addr s t := Some (mypid s))\<rparr>"
proof -
  note r = assms[unfolded pair_ready_def]
  obtain p where p: "myproc s = Some p" using r by auto
  have pre: "cache_ok s" "log_addr s t \<noteq> home_addr s t" "bown s (log_addr s t) = None" "bown s (home_addr s t) = None"
    "bref s (log_addr s t) + 1 < 2 ^ 32" "bref s (home_addr s t) + 1 < 2 ^ 32"
    "bref s (log_addr s t) \<noteq> 0 \<or> card (inuse s) < NBUF" "bref s (home_addr s t) \<noteq> 0 \<or> card (inuse s) + 1 < NBUF"
    using r by simp_all
  obtain i j t1 t2 where x: "bread ROOTDEV (log_addr s t) s = Ok (i, t1)" "bread ROOTDEV (home_addr s t) t1 = Ok (j, t2)"
    "cache_ok t2" "same_log s t1" "same_log s t2" "bufof t2 (log_addr s t) = Some i" "bufof t2 (home_addr s t) = Some j"
    "cabs t2 = (cabs s)\<lparr>c_ref := (bref s)(log_addr s t := bref s (log_addr s t) + 1, home_addr s t := bref s (home_addr s t) + 1),
      c_own := (bown s)(log_addr s t := Some (mypid s), home_addr s t := Some (mypid s))\<rparr>"
    using copy_blocks[OF pre(1) p pre(2-8)] by (elim exE conjE)
  have "log_block t s = Ok (i, t1)" using x(1) r by (simp add: log_block_def log_addr_def)
  moreover have "home_block t t1 = Ok (j, t2)"
    using x(2,4) r by (simp add: home_block_def same_log_def home_addr_def arr_get_def)
  ultimately show ?thesis using x by blast
qed

lemma write_log_one_ok:
  assumes "pair_ready s t"
  shows "\<exists>u. write_log_one t s = Ok ((), u) \<and> cache_ok u \<and> same_log s u \<and>
    cabs u = (cabs s)\<lparr>c_view := (bview s)(log_addr s t := bview s (home_addr s t)),
      c_disk := (disk s)(log_addr s t := bview s (home_addr s t)),
      c_trace := dtrace s @ [(log_addr s t, bview s (home_addr s t))]\<rparr>"
proof -
  let ?l = "log_addr s t" and ?h = "home_addr s t"
  note r = assms[unfolded pair_ready_def]
  obtain p where p: "myproc s = Some p" using r by auto
  obtain i j t1 t2 where x: "log_block t s = Ok (i, t1)" "home_block t t1 = Ok (j, t2)" "cache_ok t2" "same_log s t2"
    "bufof t2 ?l = Some i" "bufof t2 ?h = Some j"
    "cabs t2 = (cabs s)\<lparr>c_ref := (bref s)(?l := bref s ?l + 1, ?h := bref s ?h + 1),
      c_own := (bown s)(?l := Some (mypid s), ?h := Some (mypid s))\<rparr>"
    using pair_read[OF assms] by blast
  note e2 = cabs_eqD[OF x(7), simplified]
  have p2: "myproc t2 = Some p" "mypid t2 = mypid s" using x(4) p by (simp_all add: same_log_def)
  obtain u where u: "bwrite i (buf_copy i j t2) = Ok ((), u)" "cache_ok u" "same_log t2 u" "bufof u = bufof t2"
    "cabs u = (cabs t2)\<lparr>c_view := (bview t2)(?l := bview t2 ?h), c_disk := (disk t2)(?l := bview t2 ?h),
      c_trace := dtrace t2 @ [(?l, bview t2 ?h)]\<rparr>"
    using copy_and_write[OF x(3) p2(1) x(6,5)] e2 r p2(2) by auto
  note e = cabs_eqD[OF u(5), simplified, unfolded e2]
  have p3: "myproc u = Some p" "mypid u = mypid s" using u(3) p2 by (simp_all add: same_log_def)
  have clean: "bref s ?h = 0 \<Longrightarrow> bview s ?h = disk s ?h" using clean_unreferenced r by blast
  obtain v w where v: "brelse j u = Ok ((), v)" "brelse i v = Ok ((), w)" "cache_ok w" "same_log u w"
    "cabs w = (cabs u)\<lparr>c_ref := (bref u)(?h := bref u ?h - 1, ?l := bref u ?l - 1), c_own := (bown u)(?h := None, ?l := None)\<rparr>"
    using release_two[of u p ?h j ?l i] u(2,4) p3 x(5,6) r e clean by auto
  have run: "write_log_one t s = Ok ((), w)"
    using x(1,2) u(1) v(1,2) by (simp add: write_log_one_def kseq_Ok)
  have "cabs w = (cabs s)\<lparr>c_view := (bview s)(?l := bview s ?h), c_disk := (disk s)(?l := bview s ?h),
      c_trace := dtrace s @ [(?l, bview s ?h)]\<rparr>"
    using v(5) u(5) x(7) e2 e r by (auto simp: fun_eq_iff)
  then show ?thesis using run v(3) same_log_trans[OF same_log_trans[OF x(4) u(3)] v(4)] by blast
qed


lemma kwhen_simps [simp]: "kwhen True m = m" "kwhen False m = kret ()"
  by (simp_all add: kwhen_def)

lemma install_one_ok:
  assumes "pair_ready s t" and pin: "recovering \<or> bref s (home_addr s t) \<noteq> 0"
  shows "\<exists>u. install_one recovering t s = Ok ((), u) \<and> cache_ok u \<and> same_log s u \<and>
    cabs u = (cabs s)\<lparr>c_view := (bview s)(home_addr s t := bview s (log_addr s t)),
      c_ref := (bref s)(home_addr s t := bref s (home_addr s t) - (if recovering then 0 else 1)),
      c_disk := (disk s)(home_addr s t := bview s (log_addr s t)),
      c_trace := dtrace s @ [(home_addr s t, bview s (log_addr s t))]\<rparr>"
proof -
  let ?l = "log_addr s t" and ?h = "home_addr s t" and ?k = "if recovering then 0 else 1 :: nat"
  note r = assms(1)[unfolded pair_ready_def]
  obtain p where p: "myproc s = Some p" using r by auto
  obtain i j t1 t2 where x: "log_block t s = Ok (i, t1)" "home_block t t1 = Ok (j, t2)" "cache_ok t2" "same_log s t2"
    "bufof t2 ?l = Some i" "bufof t2 ?h = Some j"
    "cabs t2 = (cabs s)\<lparr>c_ref := (bref s)(?l := bref s ?l + 1, ?h := bref s ?h + 1),
      c_own := (bown s)(?l := Some (mypid s), ?h := Some (mypid s))\<rparr>"
    using pair_read[OF assms(1)] by blast
  note e2 = cabs_eqD[OF x(7), simplified]
  have p2: "myproc t2 = Some p" "mypid t2 = mypid s" using x(4) p by (simp_all add: same_log_def)
  obtain u where u: "bwrite j (buf_copy j i t2) = Ok ((), u)" "cache_ok u" "same_log t2 u" "bufof u = bufof t2"
    "cabs u = (cabs t2)\<lparr>c_view := (bview t2)(?h := bview t2 ?l), c_disk := (disk t2)(?h := bview t2 ?l),
      c_trace := dtrace t2 @ [(?h, bview t2 ?l)]\<rparr>"
    using copy_and_write[OF x(3) p2(1) x(5,6)] e2 r p2(2) by auto
  note e = cabs_eqD[OF u(5), simplified, unfolded e2]
  obtain u' where u': "kwhen (\<not> recovering) (kmod (bunpin j)) u = Ok ((), u')" "cache_ok u'" "same_log u u'"
    "bufof u' = bufof u" "cabs u' = (cabs u)\<lparr>c_ref := (bref u)(?h := bref u ?h - ?k)\<rparr>"
  proof (cases recovering)
    case True
    then show ?thesis using that[of u] u(2) by simp
  next
    case False
    have hj: "bufof u ?h = Some j" "1 < bref u ?h" using u(4) x(6) e(2) pin False r by auto
    note b = bunpin_ok[OF u(2) hj]
    show ?thesis
      using that[of "bunpin j u"] b(1,3,4) keeps_same_log[OF b(2)] False by (simp add: kmod_def)
  qed
  note e' = cabs_eqD[OF u'(5), simplified, unfolded e]
  have p3: "myproc u' = Some p" "mypid u' = mypid s" using u(3) u'(3) p2 by (simp_all add: same_log_def)
  have clean: "bref s ?l = 0 \<Longrightarrow> bview s ?l = disk s ?l" using clean_unreferenced r by blast
  obtain v w where v: "brelse i u' = Ok ((), v)" "brelse j v = Ok ((), w)" "cache_ok w" "same_log u' w"
    "cabs w = (cabs u')\<lparr>c_ref := (bref u')(?l := bref u' ?l - 1, ?h := bref u' ?h - 1), c_own := (bown u')(?l := None, ?h := None)\<rparr>"
    using release_two[of u' p ?l i ?h j] u(4) u'(2,4) p3 x(5,6) r e' clean by auto
  have run: "install_one recovering t s = Ok ((), w)"
    using x(1,2) u(1) u'(1) v(1,2) by (simp add: install_one_def kseq_Ok)
  have "cabs w = (cabs s)\<lparr>c_view := (bview s)(?h := bview s ?l), c_ref := (bref s)(?h := bref s ?h - ?k),
      c_disk := (disk s)(?h := bview s ?l), c_trace := dtrace s @ [(?h, bview s ?l)]\<rparr>"
    using v(5) u'(5) u(5) x(7) e2 e e' r by (auto simp: fun_eq_iff)
  then show ?thesis using run v(3) same_log_trans[OF same_log_trans[OF same_log_trans[OF x(4) u(3)] u'(3)] v(4)] by blast
qed


subsection \<open>The loops over the log\<close>

definition apply_writes :: "(uint \<times> uchar list) list \<Rightarrow> (uint \<Rightarrow> uchar list) \<Rightarrow> uint \<Rightarrow> uchar list" where
  "apply_writes ws d = fold (\<lambda>(b, x) d. d(b := x)) ws d"

lemma apply_writes_Nil [simp]: "apply_writes [] d = d"
  by (simp add: apply_writes_def)

lemma apply_writes_Cons [simp]: "apply_writes ((b, x) # ws) d = apply_writes ws (d(b := x))"
  by (simp add: apply_writes_def)

lemma apply_writes_append: "apply_writes (ws @ vs) d = apply_writes vs (apply_writes ws d)"
  by (simp add: apply_writes_def)

lemma apply_writes_snoc [simp]: "apply_writes (ws @ [(b, x)]) d = (apply_writes ws d)(b := x)"
  by (simp add: apply_writes_def)

lemma apply_writes_other: "b \<notin> fst ` set ws \<Longrightarrow> apply_writes ws d b = d b"
  by (induction ws rule: rev_induct) (auto simp: apply_writes_append apply_writes_def)

lemma apply_writes_map:
  assumes "inj_on f (set ts)" "t \<in> set ts"
  shows "apply_writes (map (\<lambda>t. (f t, g t)) ts) d (f t) = g t"
  using assms
proof (induction ts rule: rev_induct)
  case (snoc u ts)
  then show ?case by (cases "f u = f t") (auto simp: inj_on_def)
qed simp

text \<open>A state in which \<open>commit\<close> can run: \<open>n\<close> distinct blocks outside the log area are logged and pinned.\<close>

definition log_area :: "'a kfs_scheme \<Rightarrow> uint set" where
  "log_area s = {l_start (klog s) + word_of_nat k |k. k < LOGSIZE}"

definition log_ready :: "nat \<Rightarrow> 'a kfs_scheme \<Rightarrow> bool" where
  "log_ready n s \<longleftrightarrow> cache_ok s \<and> myproc s \<noteq> None \<and> l_dev (klog s) = ROOTDEV \<and>
     length (lh_block (l_lh (klog s))) = LOGSIZE \<and> n < LOGSIZE \<and>
     inj_on (home_addr s) {..<n} \<and> (\<forall>t<n. home_addr s t \<notin> log_area s) \<and>
     (\<forall>b. bown s b = None) \<and> (\<forall>b. bref s b + 1 < 2 ^ 32) \<and> card (inuse s) < NBUF"

lemma log_readyD:
  assumes "log_ready n s"
  shows "cache_ok s" "myproc s \<noteq> None" "l_dev (klog s) = ROOTDEV" "length (lh_block (l_lh (klog s))) = LOGSIZE"
    "n < LOGSIZE" "inj_on (home_addr s) {..<n}" "t < n \<Longrightarrow> home_addr s t \<notin> log_area s" "bown s b = None"
    "bref s b + 1 < 2 ^ 32" "card (inuse s) < NBUF"
  using assms by (simp_all add: log_ready_def)

lemma log_addr_area: "Suc t < LOGSIZE \<Longrightarrow> log_addr s t \<in> log_area s"
  unfolding log_area_def log_addr_def by (rule CollectI, rule exI[of _ "Suc t"]) (simp add: algebra_simps)

lemma inj_log_addr: "inj_on (log_addr s) {..<LOGSIZE}"
proof (rule inj_onI)
  fix t u
  assume tu: "t \<in> {..<LOGSIZE}" "u \<in> {..<LOGSIZE}" "log_addr s t = log_addr s u"
  then have "(word_of_nat t :: uint) = word_of_nat u" by (simp add: log_addr_def)
  then have "unat (word_of_nat t :: uint) = unat (word_of_nat u :: uint)" by simp
  moreover have "x < 2 ^ 32" if "x \<in> {..<LOGSIZE}" for x :: nat using that unfolding lessThan_iff by simp
  ultimately show "t = u" using tu(1,2) by simp
qed

lemma same_log_addr: "same_log s t \<Longrightarrow> log_addr t = log_addr s \<and> home_addr t = home_addr s \<and> log_area t = log_area s"
  by (simp add: same_log_def log_addr_def home_addr_def log_area_def fun_eq_iff)

lemma pair_ready_later:
  assumes r: "log_ready n s" and t: "t < n" and ok: "cache_ok u" and sl: "same_log s u"
    and own: "bown u = bown s" and ref: "\<And>b. bref u b \<le> bref s b"
    and pin: "bref u (home_addr s t) \<noteq> 0 \<or> card (inuse u) + 1 < NBUF"
  shows "pair_ready u t"
proof -
  note r' = r[unfolded log_ready_def]
  have "inuse u \<subseteq> inuse s"
  proof
    fix b
    assume "b \<in> inuse u"
    then show "b \<in> inuse s" using ref[of b] by (simp add: inuse_def)
  qed
  then have c: "card (inuse u) < NBUF"
    using r' card_mono[of "inuse s" "inuse u"] finite_subset[of "inuse s" "UNIV :: uint set"] by auto
  have lim: "bref u b + 1 < 2 ^ 32" for b
    using ref[of b] r' by (meson add_le_mono1 le_less_trans)
  have "log_addr s t \<noteq> home_addr s t" using r' t log_addr_area[of t s] by (cases "log_addr s t = home_addr s t") auto
  then show ?thesis
    using r' t ok sl own lim c pin same_log_addr[OF sl] by (auto simp: pair_ready_def same_log_def)
qed

definition log_writes :: "'a kfs_scheme \<Rightarrow> nat \<Rightarrow> (uint \<times> uchar list) list" where
  "log_writes s n = map (\<lambda>t. (log_addr s t, bview s (home_addr s t))) [0..<n]"

lemma kforeach_snoc:
  "kforeach f xs s = Ok ((), t) \<Longrightarrow> kforeach f (xs @ [x]) s = f x t"
  by (cases "f x t") (auto simp: kforeach_append kseq_def)

lemma write_log_loop:
  assumes r: "log_ready n s" and pin: "\<forall>t<n. bref s (home_addr s t) \<noteq> 0" and k: "k \<le> n"
  shows "\<exists>u. kforeach write_log_one [0..<k] s = Ok ((), u) \<and> cache_ok u \<and> same_log s u \<and>
    cabs u = (cabs s)\<lparr>c_view := apply_writes (log_writes s k) (bview s),
      c_disk := apply_writes (log_writes s k) (disk s), c_trace := dtrace s @ log_writes s k\<rparr>"
  using k
proof (induction k)
  case 0
  then show ?case using r by (simp add: log_writes_def log_ready_def)
next
  case (Suc k)
  then obtain u where u: "kforeach write_log_one [0..<k] s = Ok ((), u)" "cache_ok u" "same_log s u"
    "cabs u = (cabs s)\<lparr>c_view := apply_writes (log_writes s k) (bview s),
      c_disk := apply_writes (log_writes s k) (disk s), c_trace := dtrace s @ log_writes s k\<rparr>" by auto
  note e = cabs_eqD[OF u(4), simplified]
  note r' = r[unfolded log_ready_def]
  have pr: "pair_ready u k"
    using Suc.prems pin e by (intro pair_ready_later[OF r _ u(2,3)]) auto
  note a = same_log_addr[OF u(3)]
  obtain v where v: "write_log_one k u = Ok ((), v)" "cache_ok v" "same_log u v"
    "cabs v = (cabs u)\<lparr>c_view := (bview u)(log_addr s k := bview u (home_addr s k)),
      c_disk := (disk u)(log_addr s k := bview u (home_addr s k)),
      c_trace := dtrace u @ [(log_addr s k, bview u (home_addr s k))]\<rparr>"
    using write_log_one_ok[OF pr] a by auto
  have "home_addr s k \<notin> fst ` set (log_writes s k)"
  proof
    assume "home_addr s k \<in> fst ` set (log_writes s k)"
    then obtain x where "x < k" "home_addr s k = log_addr s x" by (auto simp: log_writes_def)
    moreover have "log_addr s x \<in> log_area s" using log_addr_area[of x s] \<open>x < k\<close> r' Suc.prems by simp
    ultimately show False using log_readyD(7)[OF r, of k] Suc.prems by simp
  qed
  then have hv: "bview u (home_addr s k) = bview s (home_addr s k)" using e(1) by (simp add: apply_writes_other)
  have "log_writes s (Suc k) = log_writes s k @ [(log_addr s k, bview s (home_addr s k))]"
    by (simp add: log_writes_def)
  then have "cabs v = (cabs s)\<lparr>c_view := apply_writes (log_writes s (Suc k)) (bview s),
      c_disk := apply_writes (log_writes s (Suc k)) (disk s), c_trace := dtrace s @ log_writes s (Suc k)\<rparr>"
    using v(4) u(4) e hv by simp
  moreover have "kforeach write_log_one [0..<Suc k] s = Ok ((), v)"
    using kforeach_snoc[OF u(1), of k] v(1) by simp
  ultimately show ?case using v(2) same_log_trans[OF u(3) v(3)] by blast
qed


definition install_writes :: "'a kfs_scheme \<Rightarrow> nat \<Rightarrow> (uint \<times> uchar list) list" where
  "install_writes s n = map (\<lambda>t. (home_addr s t, bview s (log_addr s t))) [0..<n]"

definition unpinned :: "bool \<Rightarrow> 'a kfs_scheme \<Rightarrow> nat \<Rightarrow> uint \<Rightarrow> nat" where
  "unpinned recovering s k b =
     bref s b - (if \<not> recovering \<and> b \<in> home_addr s ` {..<k} then 1 else 0)"

lemma install_loop:
  assumes r: "log_ready n s" and k: "k \<le> n"
    and pin: "if recovering then card (inuse s) + 1 < NBUF else \<forall>t<n. bref s (home_addr s t) \<noteq> 0"
  shows "\<exists>u. kforeach (install_one recovering) [0..<k] s = Ok ((), u) \<and> cache_ok u \<and> same_log s u \<and>
    cabs u = (cabs s)\<lparr>c_view := apply_writes (install_writes s k) (bview s), c_ref := unpinned recovering s k,
      c_disk := apply_writes (install_writes s k) (disk s), c_trace := dtrace s @ install_writes s k\<rparr>"
  using k
proof (induction k)
  case 0
  have "unpinned recovering s 0 = bref s" by (simp add: unpinned_def fun_eq_iff)
  then show ?case using log_readyD(1)[OF r] by (simp add: install_writes_def)
next
  case (Suc k)
  then obtain u where u: "kforeach (install_one recovering) [0..<k] s = Ok ((), u)" "cache_ok u" "same_log s u"
    "cabs u = (cabs s)\<lparr>c_view := apply_writes (install_writes s k) (bview s), c_ref := unpinned recovering s k,
      c_disk := apply_writes (install_writes s k) (disk s), c_trace := dtrace s @ install_writes s k\<rparr>" by auto
  note e = cabs_eqD[OF u(4), simplified]
  note a = same_log_addr[OF u(3)]
  have nk: "home_addr s k \<notin> home_addr s ` {..<k}"
  proof
    assume "home_addr s k \<in> home_addr s ` {..<k}"
    then obtain x where x: "x < k" "home_addr s k = home_addr s x" by auto
    then have "k = x" using inj_onD[OF log_readyD(6)[OF r]] Suc.prems by simp
    with x show False by simp
  qed
  then have rk: "bref u (home_addr s k) = bref s (home_addr s k)" using e(2) by (simp add: unpinned_def)
  have le: "bref u b \<le> bref s b" for b using e(2) by (simp add: unpinned_def)
  have room: "bref u (home_addr s k) \<noteq> 0 \<or> card (inuse u) + 1 < NBUF"
  proof (cases recovering)
    case True
    then have "inuse u = inuse s" using e(2) by (simp add: inuse_def unpinned_def)
    then show ?thesis using pin True by simp
  next
    case False
    then show ?thesis using pin Suc.prems rk by simp
  qed
  have pr: "pair_ready u k"
    using Suc.prems room e(3) le by (intro pair_ready_later[OF r _ u(2,3)]) auto
  have pk: "recovering \<or> bref u (home_addr u k) \<noteq> 0" using pin rk Suc.prems a by (cases recovering) simp_all
  obtain v where v: "install_one recovering k u = Ok ((), v)" "cache_ok v" "same_log u v"
    "cabs v = (cabs u)\<lparr>c_view := (bview u)(home_addr s k := bview u (log_addr s k)),
      c_ref := (bref u)(home_addr s k := bref u (home_addr s k) - (if recovering then 0 else 1)),
      c_disk := (disk u)(home_addr s k := bview u (log_addr s k)),
      c_trace := dtrace u @ [(home_addr s k, bview u (log_addr s k))]\<rparr>"
    using install_one_ok[OF pr pk] a by auto
  have "log_addr s k \<notin> fst ` set (install_writes s k)"
  proof
    assume "log_addr s k \<in> fst ` set (install_writes s k)"
    then obtain x where "x < k" "log_addr s k = home_addr s x" by (auto simp: install_writes_def)
    then show False
      using log_readyD(7)[OF r, of x] log_addr_area[of k s] log_readyD(5)[OF r] Suc.prems by simp
  qed
  then have hv: "bview u (log_addr s k) = bview s (log_addr s k)" using e(1) by (simp add: apply_writes_other)
  have up: "(unpinned recovering s k)(home_addr s k := unpinned recovering s k (home_addr s k) - (if recovering then 0 else 1)) =
      unpinned recovering s (Suc k)"
    using nk by (auto simp: fun_eq_iff unpinned_def lessThan_Suc)
  have "install_writes s (Suc k) = install_writes s k @ [(home_addr s k, bview s (log_addr s k))]"
    by (simp add: install_writes_def)
  then have "cabs v = (cabs s)\<lparr>c_view := apply_writes (install_writes s (Suc k)) (bview s), c_ref := unpinned recovering s (Suc k),
      c_disk := apply_writes (install_writes s (Suc k)) (disk s), c_trace := dtrace s @ install_writes s (Suc k)\<rparr>"
    using v(4) u(4) e hv up by simp
  moreover have "kforeach (install_one recovering) [0..<Suc k] s = Ok ((), v)"
    using kforeach_snoc[OF u(1), of k] v(1) by simp
  ultimately show ?case using v(2) same_log_trans[OF u(3) v(3)] by blast
qed

subsection \<open>The header block\<close>

text \<open>The contents of the header block after \<open>write_head\<close> has stored \<open>n\<close> and the first \<open>n\<close> block numbers.\<close>

definition header_bytes :: "nat \<Rightarrow> uint list \<Rightarrow> uchar list \<Rightarrow> uchar list" where
  "header_bytes n blks old = le_bytes 4 (word_of_nat n :: uint) @ concat (map (le_bytes 4) (take n blks)) @ drop (4 + 4 * n) old"

lemma length_concat_le_bytes [simp]: "length (concat (map (le_bytes k) xs)) = k * length xs"
  by (induction xs) (simp_all add: algebra_simps)

lemma put32_append:
  assumes "length pre = off" "4 \<le> length post"
  shows "put32 (pre @ post) off v = Ok (pre @ le_bytes 4 v @ drop 4 post)"
  using assms by (simp add: put32_def put_bytes_def)

lemma drop_take_append: "length pre = off \<Longrightarrow> length v = k \<Longrightarrow> take k (drop off (pre @ v @ post)) = v"
  by simp

lemma concat_le_bytes_nth:
  assumes "i < length xs"
  shows "take 4 (drop (4 * i) (concat (map (le_bytes 4) xs) @ post)) = le_bytes 4 (xs ! i)"
proof -
  have xs: "xs = take i xs @ xs ! i # drop (Suc i) xs" using assms by (rule id_take_nth_drop)
  have "concat (map (le_bytes 4) xs) @ post =
      concat (map (le_bytes 4) (take i xs)) @ le_bytes 4 (xs ! i) @ concat (map (le_bytes 4) (drop (Suc i) xs)) @ post"
    by (subst xs) simp
  then show ?thesis using assms by simp
qed

lemma header_bytes_read:
  assumes "n \<le> length blks" "4 + 4 * n \<le> length old" "n < 2 ^ 31"
  shows "length (header_bytes n blks old) = length old"
    and "get32 (header_bytes n blks old) 0 = Ok (word_of_nat n)"
    and "i < n \<Longrightarrow> get32 (header_bytes n blks old) (4 + 4 * i) = Ok (blks ! i)"
proof -
  show len: "length (header_bytes n blks old) = length old"
    using assms by (simp add: header_bytes_def)
  show "get32 (header_bytes n blks old) 0 = Ok (word_of_nat n)"
    using len assms by (simp add: get32_def) (simp add: header_bytes_def)
  assume i: "i < n"
  have "take 4 (drop (4 + 4 * i) (header_bytes n blks old)) =
      take 4 (drop (4 * i) (concat (map (le_bytes 4) (take n blks)) @ drop (4 + 4 * n) old))"
    by (simp add: header_bytes_def add.commute)
  also have "\<dots> = le_bytes 4 (blks ! i)"
    using concat_le_bytes_nth[of i "take n blks"] i assms by simp
  finally show "get32 (header_bytes n blks old) (4 + 4 * i) = Ok (blks ! i)"
    using len i assms by (simp add: get32_def)
qed


lemma upto_cint_nat: "n < 2 ^ 31 \<Longrightarrow> upto_cint (word_of_nat n) = [0..<n]"
  by (simp add: upto_cint_def sint_word_of_nat)

lemma write_head_loop:
  assumes b: "b < length (bufs t)" and k: "k \<le> n" and n: "n \<le> length (lh_block (l_lh (klog t)))"
    and old: "4 + 4 * n \<le> length old" and hd4: "length hd4 = 4"
  shows "kforeach (write_head_one b) [0..<k] (upd_buf b (\<lambda>x. x\<lparr>b_data := hd4 @ drop 4 old\<rparr>) t) =
    Ok ((), upd_buf b (\<lambda>x. x\<lparr>b_data := hd4 @ concat (map (le_bytes 4) (take k (lh_block (l_lh (klog t))))) @
      drop (4 + 4 * k) old\<rparr>) t)"
  using k
proof (induction k)
  case 0
  show ?case by simp
next
  case (Suc k)
  let ?blks = "lh_block (l_lh (klog t))"
  let ?pre = "hd4 @ concat (map (le_bytes 4) (take k ?blks))"
  let ?u = "upd_buf b (\<lambda>x. x\<lparr>b_data := ?pre @ drop (4 + 4 * k) old\<rparr>) t"
  have IH: "kforeach (write_head_one b) [0..<k] (upd_buf b (\<lambda>x. x\<lparr>b_data := hd4 @ drop 4 old\<rparr>) t) = Ok ((), ?u)"
    using Suc by simp
  have kb: "k < length ?blks" using Suc.prems n by simp
  have len: "length ?pre = 4 + 4 * k" using kb hd4 by simp
  have "put32 (?pre @ drop (4 + 4 * k) old) (4 + 4 * k) (?blks ! k) =
      Ok (?pre @ le_bytes 4 (?blks ! k) @ drop 4 (drop (4 + 4 * k) old))"
    using Suc.prems old by (intro put32_append[OF len]) simp
  moreover have "concat (map (le_bytes 4) (take (Suc k) ?blks)) = concat (map (le_bytes 4) (take k ?blks)) @ le_bytes 4 (?blks ! k)"
    using kb by (simp add: take_Suc_conv_app_nth)
  moreover have "drop 4 (drop (4 + 4 * k) old) = drop (4 + 4 * Suc k) old" by (simp add: algebra_simps)
  ultimately have "write_head_one b k ?u =
      Ok ((), upd_buf b (\<lambda>x. x\<lparr>b_data := hd4 @ concat (map (le_bytes 4) (take (Suc k) ?blks)) @ drop (4 + 4 * Suc k) old\<rparr>) t)"
    using b kb by (simp add: write_head_one_def arr_get_def upd_buf_upd_buf)
  then show ?case using kforeach_snoc[OF IH, of k] by simp
qed

lemma write_head_ok:
  assumes ok: "cache_ok s" and p: "myproc s = Some p" and dev: "l_dev (klog s) = ROOTDEV"
    and n: "lh_n (l_lh (klog s)) = word_of_nat n" "n \<le> LOGSIZE" "length (lh_block (l_lh (klog s))) = LOGSIZE"
    and st: "start = l_start (klog s)" and free: "bown s start = None" "bref s start + 1 < 2 ^ 32" "card (inuse s) < NBUF"
  shows "\<exists>u. write_head s = Ok ((), u) \<and> cache_ok u \<and> same_log s u \<and>
    (let h = header_bytes n (lh_block (l_lh (klog s))) (bview s start) in
     cabs u = (cabs s)\<lparr>c_view := (bview s)(start := h), c_disk := (disk s)(start := h), c_trace := dtrace s @ [(start, h)]\<rparr>)"
proof -
  let ?blks = "lh_block (l_lh (klog s))" and ?old = "bview s start"
  let ?h = "header_bytes n ?blks ?old"
  obtain i t where t: "bread ROOTDEV start s = Ok (i, t)" "cache_ok t" "bufof t start = Some i" "keeps s t"
    "cabs t = (cabs s)\<lparr>c_ref := (bref s)(start := bref s start + 1), c_own := (bown s)(start := Some (mypid s))\<rparr>"
    using bread_ok[OF ok p free(1,2)] free(3) by blast
  note e = cabs_eqD[OF t(5), simplified]
  note kt = keepsD[OF t(4)]
  have i31: "i < length (bufs t)" using t(3) cache_okD(5)[OF t(2)] by (simp add: bufof_iff[OF t(2)])
  have "b_data (buf_at t i) = bview t start" using t(3) by (simp add: bview_def)
  then have data: "b_data (buf_at t i) = ?old" using e(1) by simp
  have old: "length ?old = BSIZE" by (rule length_bview[OF ok])
  have le: "4 + 4 * n \<le> length ?old" using old n by simp
  have "put32 ?old 0 (word_of_nat n) = Ok (le_bytes 4 (word_of_nat n :: uint) @ drop 4 ?old)"
    using put32_append[of "[]" 0 ?old] old by simp
  moreover have "kforeach (write_head_one i) [0..<n] (upd_buf i (\<lambda>x. x\<lparr>b_data := le_bytes 4 (word_of_nat n :: uint) @ drop 4 ?old\<rparr>) t) =
      Ok ((), upd_buf i (\<lambda>x. x\<lparr>b_data := ?h\<rparr>) t)"
    using write_head_loop[OF i31 order_refl, of n ?old "le_bytes 4 (word_of_nat n :: uint)"] n le kt(1)
    by (simp add: header_bytes_def)
  ultimately have run: "write_head s = kseq (bwrite i) (\<lambda>_. brelse i) (upd_buf i (\<lambda>x. x\<lparr>b_data := ?h\<rparr>) t)"
    using t(1) dev st data kt(1) n upto_cint_nat[of n] by (simp add: write_head_def kseq_Ok)
  have hl: "length ?h = BSIZE" using header_bytes_read(1)[of n ?blks ?old] n le old by simp
  let ?u = "upd_buf i (\<lambda>x. x\<lparr>b_data := ?h\<rparr>) t"
  have rt: "bref t start \<noteq> 0" using e(2) by simp
  note u = upd_data_ok[OF t(2,3) rt hl]
  note eu = cabs_eqD[OF u(4), simplified, unfolded e]
  note ku = keepsD[OF u(2)]
  have pu: "myproc ?u = Some p" "mypid ?u = mypid s" using ku kt p by simp_all
  have bu: "bufof ?u start = Some i" using u(3) t(3) by simp
  obtain v where v: "bwrite i ?u = Ok ((), v)" "cache_ok v" "keeps ?u v" "bufof v = bufof ?u"
    "cabs v = (cabs ?u)\<lparr>c_disk := (disk ?u)(start := bview ?u start), c_trace := dtrace ?u @ [(start, bview ?u start)]\<rparr>"
    using bwrite_ok[OF u(1) pu(1) bu] eu pu by auto
  note ev = cabs_eqD[OF v(5), simplified, unfolded eu]
  have pv: "myproc v = Some p" "mypid v = mypid s" using keepsD[OF v(3)] pu by simp_all
  obtain w where w: "brelse i v = Ok ((), w)" "cache_ok w" "keeps v w"
    "cabs w = (cabs v)\<lparr>c_ref := (bref v)(start := bref v start - 1), c_own := (bown v)(start := None)\<rparr>"
    using brelse_ok[OF v(2) pv(1), of start i] v(4) bu ev pv by auto
  have "cabs w = (cabs s)\<lparr>c_view := (bview s)(start := ?h), c_disk := (disk s)(start := ?h), c_trace := dtrace s @ [(start, ?h)]\<rparr>"
    using w(4) v(5) u(4) t(5) e eu ev free(1) by (auto simp: fun_eq_iff)
  moreover have "write_head s = Ok ((), w)" using run v(1) w(1) by (simp add: kseq_Ok)
  moreover have "same_log s w"
    using keeps_same_log[OF t(4)] keeps_same_log[OF u(2)] keeps_same_log[OF v(3)] keeps_same_log[OF w(3)]
    by (meson same_log_trans)
  ultimately show ?thesis using w(2) by (auto simp: Let_def)
qed


subsection \<open>commit\<close>

lemma upd_lh_frame [simp]:
  "bufs (upd_lh f s) = bufs s" "disk (upd_lh f s) = disk s" "dtrace (upd_lh f s) = dtrace s" "sb (upd_lh f s) = sb s"
  "itable (upd_lh f s) = itable s" "procs (upd_lh f s) = procs s" "cpus (upd_lh f s) = cpus s" "hart (upd_lh f s) = hart s"
  "klog (upd_lh f s) = (klog s)\<lparr>l_lh := f (l_lh (klog s))\<rparr>"
  by (simp_all add: upd_lh_def upd_log_def)

lemma cache_frame:
  assumes "bufs t = bufs s" "disk t = disk s" "dtrace t = dtrace s" "procs t = procs s" "cpus t = cpus s" "hart t = hart s"
  shows "cache_ok t = cache_ok s" "cabs t = cabs s" "bufof t = bufof s" "myproc t = myproc s" "mypid t = mypid s"
proof -
  have at: "buf_at t = buf_at s" using assms(1) by (simp add: buf_at_def fun_eq_iff)
  show bo: "bufof t = bufof s" by (simp add: bufof_def fun_eq_iff at)
  have l: "lru t order = lru s order" for order by (simp add: lru_def at assms)
  show "myproc t = myproc s" "mypid t = mypid s" by (rule proc_frame; simp add: assms)+
  moreover have "kproc_ok t = kproc_ok s" by (rule proc_frame) (simp_all add: assms)
  ultimately show "cache_ok t = cache_ok s" by (simp add: cache_ok_def l at assms)
  show "cabs t = cabs s"
    by (rule cabs_eqI) (simp_all add: fun_eq_iff bview_def bref_def bown_def bo at assms split: option.split)
qed

lemmas upd_lh_cache = cache_frame[of "upd_lh f s" s for f s, OF upd_lh_frame(1-3,6-8)]

lemma log_ready_later:
  assumes r: "log_ready n s" and "cache_ok u" "same_log s u" "bown u = bown s" "bref u = bref s"
  shows "log_ready n u"
  using assms same_log_addr[OF assms(3)] by (simp add: log_ready_def same_log_def inuse_def)

lemma start_not_logged: "t < LOGSIZE \<Longrightarrow> log_addr s t \<noteq> l_start (klog s)"
proof
  assume t: "t < LOGSIZE" "log_addr s t = l_start (klog s)"
  then have "(word_of_nat (Suc t) :: uint) = 0" by (simp add: log_addr_def add.assoc add.commute[of _ 1])
  then have "unat (word_of_nat (Suc t) :: uint) = 0" by (simp only: unsigned_0)
  moreover have "Suc t < 2 ^ 32" using t by simp
  ultimately show False by (simp del: of_nat_Suc)
qed

lemma start_in_area: "l_start (klog s) \<in> log_area s"
  unfolding log_area_def by (rule CollectI, rule exI[of _ 0]) simp

text \<open>The disk writes of a commit: log blocks, header, home blocks, header.\<close>

definition commit_header :: "'a kfs_scheme \<Rightarrow> nat \<Rightarrow> uchar list" where
  "commit_header s n = header_bytes n (lh_block (l_lh (klog s))) (bview s (l_start (klog s)))"

definition home_writes :: "'a kfs_scheme \<Rightarrow> nat \<Rightarrow> (uint \<times> uchar list) list" where
  "home_writes s n = map (\<lambda>t. (home_addr s t, bview s (home_addr s t))) [0..<n]"

definition clear_header :: "'a kfs_scheme \<Rightarrow> nat \<Rightarrow> uchar list" where
  "clear_header s n = header_bytes 0 (lh_block (l_lh (klog s))) (commit_header s n)"

definition commit_writes :: "'a kfs_scheme \<Rightarrow> nat \<Rightarrow> (uint \<times> uchar list) list" where
  "commit_writes s n = log_writes s n @ [(l_start (klog s), commit_header s n)] @ home_writes s n @
     [(l_start (klog s), clear_header s n)]"

lemma log_writes_start: "n < LOGSIZE \<Longrightarrow> apply_writes (log_writes s n) d (l_start (klog s)) = d (l_start (klog s))"
  using start_not_logged[of _ s, symmetric] by (intro apply_writes_other) (auto simp: log_writes_def image_iff)

lemma log_writes_log:
  assumes "t < n" "n < LOGSIZE"
  shows "apply_writes (log_writes s n) d (log_addr s t) = bview s (home_addr s t)"
proof -
  have "inj_on (log_addr s) (set [0..<n])"
    using assms by (intro inj_on_subset[OF inj_log_addr]) auto
  then show ?thesis unfolding log_writes_def using assms by (intro apply_writes_map) simp_all
qed

lemma commit_ok:
  assumes r: "log_ready n s" and n: "0 < n" "lh_n (l_lh (klog s)) = word_of_nat n"
    and pin: "\<forall>t<n. bref s (home_addr s t) \<noteq> 0"
  shows "\<exists>u. commit s = Ok ((), u) \<and> cache_ok u \<and> klog u = (klog s)\<lparr>l_lh := (l_lh (klog s))\<lparr>lh_n := 0\<rparr>\<rparr> \<and>
    myproc u = myproc s \<and> sb u = sb s \<and> itable u = itable s \<and>
    cabs u = (cabs s)\<lparr>c_ref := unpinned False s n, c_view := apply_writes (commit_writes s n) (bview s),
      c_disk := apply_writes (commit_writes s n) (disk s), c_trace := dtrace s @ commit_writes s n\<rparr>"
proof -
  let ?st = "l_start (klog s)" and ?blks = "lh_block (l_lh (klog s))"
  note d = log_readyD[OF r]
  obtain p where p: "myproc s = Some p" using d(2) by blast
  have n30: "n \<le> LOGSIZE" "n < 2 ^ 31" using d(5) by simp_all
  have up: "upto_cint (lh_n (l_lh (klog s))) = [0..<n]" unfolding n(2) by (rule upto_cint_nat[OF n30(2)])
  obtain s1 where s1: "kforeach write_log_one [0..<n] s = Ok ((), s1)" "cache_ok s1" "same_log s s1"
    "cabs s1 = (cabs s)\<lparr>c_view := apply_writes (log_writes s n) (bview s),
      c_disk := apply_writes (log_writes s n) (disk s), c_trace := dtrace s @ log_writes s n\<rparr>"
    using write_log_loop[OF r pin order_refl] by blast
  note e1 = cabs_eqD[OF s1(4), simplified]
  have k1: "klog s1 = klog s" "myproc s1 = Some p" using s1(3) p by (simp_all add: same_log_def)
  have v1: "bview s1 ?st = bview s ?st" using e1(1) log_writes_start[OF d(5)] by simp
  have "bown s1 ?st = None" "bref s1 ?st + 1 < 2 ^ 32" "card (inuse s1) < NBUF"
    using d(8,9,10) e1 by (simp_all add: inuse_def)
  then obtain s2 where s2: "write_head s1 = Ok ((), s2)" "cache_ok s2" "same_log s1 s2"
    "cabs s2 = (cabs s1)\<lparr>c_view := (bview s1)(?st := commit_header s n), c_disk := (disk s1)(?st := commit_header s n),
      c_trace := dtrace s1 @ [(?st, commit_header s n)]\<rparr>"
    using write_head_ok[OF s1(2) k1(2), of n ?st] d n n30 k1 v1 by (auto simp: Let_def commit_header_def)
  note e2 = cabs_eqD[OF s2(4), simplified, unfolded e1]
  have sl2: "same_log s s2" by (rule same_log_trans[OF s1(3) s2(3)])
  note a2 = same_log_addr[OF sl2]
  have r2: "log_ready n s2" by (rule log_ready_later[OF r s2(2) sl2]) (simp_all add: e2)
  have iw: "install_writes s2 n = home_writes s n"
    using a2 e2(1) log_writes_log[OF _ d(5), of _ s "bview s"] start_not_logged[of _ s] d(5)
    by (auto simp: install_writes_def home_writes_def)
  have un: "unpinned False s2 n = unpinned False s n" using a2 e2(2) by (simp add: unpinned_def fun_eq_iff)
  obtain s3 where s3: "kforeach (install_one False) [0..<n] s2 = Ok ((), s3)" "cache_ok s3" "same_log s2 s3"
    "cabs s3 = (cabs s2)\<lparr>c_view := apply_writes (home_writes s n) (bview s2), c_ref := unpinned False s n,
      c_disk := apply_writes (home_writes s n) (disk s2), c_trace := dtrace s2 @ home_writes s n\<rparr>"
    using install_loop[OF r2 order_refl, of False] pin a2 e2 iw un by auto
  note e3 = cabs_eqD[OF s3(4), simplified, unfolded e2]
  have sl3: "same_log s s3" by (rule same_log_trans[OF sl2 s3(3)])
  let ?s3 = "upd_lh (\<lambda>h. h\<lparr>lh_n := 0\<rparr>) s3"
  have c3: "cabs ?s3 = cabs s3" "cache_ok ?s3" "myproc ?s3 = Some p" "bref ?s3 = unpinned False s n" "bown ?s3 = bown s"
    using upd_lh_cache[of "\<lambda>h. h\<lparr>lh_n := 0\<rparr>" s3] s3(2) sl3 p e3 by (auto simp: same_log_def dest: cabs_eqD)
  have v3: "bview ?s3 = bview s3" "disk ?s3 = disk s3" "dtrace ?s3 = dtrace s3" using cabs_eqD[OF c3(1)] by simp_all
  have klog3: "klog ?s3 = (klog s)\<lparr>l_lh := (l_lh (klog s))\<lparr>lh_n := 0\<rparr>\<rparr>" using sl3 by (simp add: same_log_def)
  have "?st \<notin> fst ` set (home_writes s n)" using d(7) start_in_area[of s] by (force simp: home_writes_def)
  then have h3: "bview ?s3 ?st = commit_header s n" using v3 e3(1) by (simp add: apply_writes_other)
  have "inuse ?s3 \<subseteq> inuse s" using c3(4) by (auto simp: inuse_def unpinned_def)
  then have "card (inuse ?s3) < NBUF"
    using d(10) card_mono[of "inuse s" "inuse ?s3"] finite_subset[of "inuse s" "UNIV :: uint set"] by auto
  moreover have "bref ?s3 ?st + 1 < 2 ^ 32" using d(9)[of ?st] c3(4) by (simp add: unpinned_def)
  moreover have "bown ?s3 ?st = None" using d(8) c3(5) by simp
  ultimately obtain s4 where s4: "write_head ?s3 = Ok ((), s4)" "cache_ok s4" "same_log ?s3 s4"
    "cabs s4 = (cabs ?s3)\<lparr>c_view := (bview ?s3)(?st := clear_header s n), c_disk := (disk ?s3)(?st := clear_header s n),
      c_trace := dtrace ?s3 @ [(?st, clear_header s n)]\<rparr>"
    using write_head_ok[OF c3(2,3), of 0 ?st] d sl3 h3 by (auto simp: Let_def clear_header_def same_log_def)
  have run: "commit s = Ok ((), s4)"
  proof -
    have "install_trans False s2 = Ok ((), s3)" "write_log s = Ok ((), s1)"
      using s1(1) s3(1) up sl2 by (simp_all add: install_trans_def write_log_def same_log_def)
    moreover have "0 < sint (lh_n (l_lh (klog s)))" using n n30 by (simp add: sint_word_of_nat)
    ultimately show ?thesis using s2(1) s4(1) by (simp add: commit_def kseq_Ok)
  qed
  have "cabs s4 = (cabs s)\<lparr>c_ref := unpinned False s n, c_view := apply_writes (commit_writes s n) (bview s),
      c_disk := apply_writes (commit_writes s n) (disk s), c_trace := dtrace s @ commit_writes s n\<rparr>"
    using s4(4) c3(1) s3(4) s2(4) s1(4) v3 e3 e2 e1
    by (simp add: commit_writes_def apply_writes_append)
  then show ?thesis
    using run s4(2,3) klog3 c3(3) p sl3 by (auto simp: same_log_def)
qed

end
