(* ===== verification/Xv6_Recover.thy ===== *)
theory Xv6_Recover
  imports Xv6_Crash
begin

section \<open>Crash recovery of the log\<close>

text \<open>
  Recovery as a function of the disk, the proof that \<open>recover_from_log\<close> computes it on a freshly
  booted cache, and crash atomicity: whatever prefix of the disk writes of a commit reached the disk,
  recovery leaves either every home block as it was or every home block with its new contents.
\<close>

subsection \<open>The header on the disk\<close>

definition hdr_n :: "uchar list \<Rightarrow> uint" where
  "hdr_n bs = le_word (take 4 bs)"

definition hdr_count :: "uchar list \<Rightarrow> nat" where
  "hdr_count bs = unat (hdr_n bs)"

definition hdr_block :: "uchar list \<Rightarrow> nat \<Rightarrow> uint" where
  "hdr_block bs i = le_word (take 4 (drop (4 + 4 * i) bs))"

lemma hdr_header_bytes:
  assumes "n \<le> length blks" "4 + 4 * n \<le> length old" "n < 2 ^ 31"
  shows "hdr_count (header_bytes n blks old) = n" "i < n \<Longrightarrow> hdr_block (header_bytes n blks old) i = blks ! i"
proof -
  note r = header_bytes_read[OF assms]
  have "hdr_n (header_bytes n blks old) = word_of_nat n"
    using r(2) assms by (auto simp: get32_def hdr_n_def split: if_splits)
  then show "hdr_count (header_bytes n blks old) = n"
    using assms by (simp add: hdr_count_def unat_of_nat)
  show "hdr_block (header_bytes n blks old) i = blks ! i" if "i < n"
    using r(3)[OF that] by (auto simp: get32_def hdr_block_def split: if_splits)
qed

lemma header_zero: "header_bytes 0 blks old = le_bytes 4 (0 :: uint) @ drop 4 old"
  by (simp add: header_bytes_def)

text \<open>The LOGSIZE blocks of the log, its header first, and what recovery does to a disk.\<close>

definition area :: "uint \<Rightarrow> uint set" where
  "area start = {start + word_of_nat k |k. k < LOGSIZE}"

lemma log_area_eq: "log_area s = area (l_start (klog s))"
  by (simp add: log_area_def area_def)

definition install_list :: "uint \<Rightarrow> (uint \<Rightarrow> uchar list) \<Rightarrow> (uint \<times> uchar list) list" where
  "install_list start d = map (\<lambda>t. (hdr_block (d start) t, d (start + word_of_nat t + 1))) [0..<hdr_count (d start)]"

definition recovery_writes :: "uint \<Rightarrow> (uint \<Rightarrow> uchar list) \<Rightarrow> (uint \<times> uchar list) list" where
  "recovery_writes start d = install_list start d @ [(start, header_bytes 0 [] (d start))]"

definition recovered :: "uint \<Rightarrow> (uint \<Rightarrow> uchar list) \<Rightarrow> uint \<Rightarrow> uchar list" where
  "recovered start d = apply_writes (recovery_writes start d) d"

text \<open>A header that the log code can have written: at most 29 distinct blocks outside the log.\<close>

definition hdr_ok :: "uint \<Rightarrow> (uint \<Rightarrow> uchar list) \<Rightarrow> bool" where
  "hdr_ok start d \<longleftrightarrow> hdr_count (d start) < LOGSIZE \<and> inj_on (hdr_block (d start)) {..<hdr_count (d start)} \<and>
     (\<forall>t<hdr_count (d start). hdr_block (d start) t \<notin> area start)"

subsection \<open>read_head\<close>

lemma read_head_loop:
  assumes b: "length (b_data (buf_at t b)) = BSIZE" and n: "n \<le> LOGSIZE"
    and blks: "length (lh_block (l_lh (klog t))) = LOGSIZE" and k: "k \<le> n"
  shows "kforeach (read_head_one b) [0..<k] t =
    Ok ((), upd_lh (\<lambda>h. h\<lparr>lh_block := map (hdr_block (b_data (buf_at t b))) [0..<k] @ drop k (lh_block h)\<rparr>) t)"
  using k
proof (induction k)
  case 0
  show ?case by (simp add: upd_lh_def upd_log_def)
next
  case (Suc k)
  let ?bs = "b_data (buf_at t b)" and ?blks = "lh_block (l_lh (klog t))"
  let ?u = "upd_lh (\<lambda>h. h\<lparr>lh_block := map (hdr_block ?bs) [0..<k] @ drop k (lh_block h)\<rparr>) t"
  have IH: "kforeach (read_head_one b) [0..<k] t = Ok ((), ?u)" using Suc by simp
  have at: "buf_at ?u b = buf_at t b" by (simp add: buf_at_def)
  have "get32 ?bs (4 + 4 * k) = Ok (hdr_block ?bs k)" using Suc.prems n b by (simp add: get32_def hdr_block_def)
  moreover have "(map (hdr_block ?bs) [0..<k] @ drop k ?blks)[k := hdr_block ?bs k] =
      map (hdr_block ?bs) [0..<Suc k] @ drop (Suc k) ?blks"
    using Suc.prems n blks by (simp add: list_update_append Cons_nth_drop_Suc[symmetric])
  ultimately have "read_head_one b k ?u =
      Ok ((), upd_lh (\<lambda>h. h\<lparr>lh_block := map (hdr_block ?bs) [0..<Suc k] @ drop (Suc k) (lh_block h)\<rparr>) t)"
    using Suc.prems n blks at by (simp add: read_head_one_def arr_set_def) (simp add: upd_lh_def upd_log_def)
  then show ?case using kforeach_snoc[OF IH, of k] by simp
qed

definition read_lh :: "uchar list \<Rightarrow> logheader \<Rightarrow> logheader" where
  "read_lh bs h = h\<lparr>lh_n := hdr_n bs, lh_block := map (hdr_block bs) [0..<hdr_count bs] @ drop (hdr_count bs) (lh_block h)\<rparr>"

lemma read_head_ok:
  assumes ok: "cache_ok s" and p: "myproc s = Some p" and dev: "l_dev (klog s) = ROOTDEV"
    and blks: "length (lh_block (l_lh (klog s))) = LOGSIZE" and st: "start = l_start (klog s)"
    and n: "hdr_count (bview s start) \<le> LOGSIZE"
    and free: "bown s start = None" "bref s start + 1 < 2 ^ 32" "card (inuse s) < NBUF"
  shows "\<exists>u. read_head s = Ok ((), u) \<and> cache_ok u \<and> cabs u = cabs s \<and>
    klog u = (klog s)\<lparr>l_lh := read_lh (bview s start) (l_lh (klog s))\<rparr> \<and> sb u = sb s \<and> itable u = itable s \<and>
    myproc u = myproc s \<and> mypid u = mypid s"
proof -
  let ?bs = "bview s start"
  let ?n = "hdr_count ?bs"
  obtain i t where t: "bread ROOTDEV start s = Ok (i, t)" "cache_ok t" "bufof t start = Some i" "keeps s t"
    "cabs t = (cabs s)\<lparr>c_ref := (bref s)(start := bref s start + 1), c_own := (bown s)(start := Some (mypid s))\<rparr>"
    using bread_ok[OF ok p free(1,2)] free(3) by blast
  note e = cabs_eqD[OF t(5), simplified]
  note kt = keepsD[OF t(4)]
  have "b_data (buf_at t i) = bview t start" using t(3) by (simp add: bview_def)
  then have data: "b_data (buf_at t i) = ?bs" using e(1) by simp
  have len: "length ?bs = BSIZE" by (rule length_bview[OF ok])
  have g: "get32 ?bs 0 = Ok (hdr_n ?bs)" using len by (simp add: get32_def hdr_n_def)
  have up: "upto_cint (hdr_n ?bs) = [0..<?n]"
    using upto_cint_nat[of ?n] n by (simp add: hdr_count_def)
  let ?t = "upd_lh (\<lambda>h. h\<lparr>lh_n := hdr_n ?bs\<rparr>) t" and ?v = "upd_lh (read_lh ?bs) t"
  have at: "buf_at ?t i = buf_at t i" by (simp add: buf_at_def)
  have "kforeach (read_head_one i) [0..<?n] ?t = Ok ((), ?v)"
    using read_head_loop[of ?t i ?n ?n] n blks kt(1) data at len
    by (simp add: upd_lh_def upd_log_def read_lh_def)
  then have run: "read_head s = brelse i ?v"
    using t(1) dev st data g up by (simp add: read_head_def kseq_Ok)
  have c: "cache_ok ?v" "cabs ?v = cabs t" "bufof ?v start = Some i" "myproc ?v = Some p" "mypid ?v = mypid s"
    using upd_lh_cache[of "read_lh ?bs" t] t kt p by simp_all
  note ev = cabs_eqD[OF c(2), simplified, unfolded e]
  have cl: "bref ?v start = 1 \<Longrightarrow> bview ?v start = disk ?v start"
    using ev clean_unreferenced[OF ok, of start] e by simp
  obtain w where w: "brelse i ?v = Ok ((), w)" "cache_ok w" "keeps ?v w"
    "cabs w = (cabs ?v)\<lparr>c_ref := (bref ?v)(start := bref ?v start - 1), c_own := (bown ?v)(start := None)\<rparr>"
    using brelse_ok[OF c(1,4,3)] ev c(5) cl by auto
  have "cabs w = cabs s"
    using w(4) c(2) ev t(5) free(1) by (simp add: cabs_def fun_upd_idem)
  then show ?thesis using run w(1,2) keepsD[OF w(3)] kt c p by auto
qed

subsection \<open>recover_from_log\<close>

text \<open>The state after boot: nothing is cached in use, and a process runs (\<open>forkret\<close> calls \<open>fsinit\<close>).\<close>

definition fresh :: "'a kfs_scheme \<Rightarrow> bool" where
  "fresh s \<longleftrightarrow> cache_ok s \<and> myproc s \<noteq> None \<and> l_dev (klog s) = ROOTDEV \<and>
     length (lh_block (l_lh (klog s))) = LOGSIZE \<and> (\<forall>b. bref s b = 0)"

lemma unreferenced_unowned:
  assumes ok: "cache_ok s" and r: "bref s b = 0"
  shows "bown s b = None"
proof (cases "bufof s b")
  case (Some i)
  then have "i < NBUF" by (simp add: bufof_iff[OF ok])
  moreover have "b_refcnt (buf_at s i) = 0" using r Some by (simp add: bref_def unat_eq_0)
  ultimately show ?thesis using cache_okD(3)[OF ok, of i] Some by (simp add: bown_def buf_ok_def Let_def)
qed (simp add: bown_def)

lemma freshD:
  assumes "fresh s"
  shows "cache_ok s" "myproc s \<noteq> None" "l_dev (klog s) = ROOTDEV" "length (lh_block (l_lh (klog s))) = LOGSIZE"
    "bref s b = 0" "bown s b = None" "bview s = disk s" "inuse s = {}"
  using assms clean_unreferenced[of s] unreferenced_unowned[of s]
  by (auto simp: fresh_def inuse_def fun_eq_iff)

lemma recover_from_log_ok:
  assumes f: "fresh s" and h: "hdr_ok start (disk s)" and st: "start = l_start (klog s)"
  shows "\<exists>u. recover_from_log s = Ok ((), u) \<and> fresh u \<and> disk u = recovered start (disk s) \<and>
    dtrace u = dtrace s @ recovery_writes start (disk s) \<and>
    l_start (klog u) = start \<and> lh_n (l_lh (klog u)) = 0 \<and> sb u = sb s \<and> itable u = itable s \<and>
    klog u = (klog s)\<lparr>l_lh := l_lh (klog u)\<rparr> \<and> myproc u = myproc s"
proof -
  note d = freshD[OF f]
  let ?bs = "disk s start"
  let ?n = "hdr_count ?bs"
  obtain p where p: "myproc s = Some p" using d(2) by blast
  have n: "?n < LOGSIZE" using h by (simp add: hdr_ok_def)
  obtain s1 where s1: "read_head s = Ok ((), s1)" "cache_ok s1" "cabs s1 = cabs s"
    "klog s1 = (klog s)\<lparr>l_lh := read_lh ?bs (l_lh (klog s))\<rparr>" "sb s1 = sb s" "itable s1 = itable s"
    "myproc s1 = Some p" "mypid s1 = mypid s"
    using read_head_ok[OF d(1) p d(3,4) st] d n p by auto
  note e1 = cabs_eqD[OF s1(3), simplified]
  have hm: "t < ?n \<Longrightarrow> home_addr s1 t = hdr_block ?bs t" for t
    using s1(4) by (simp add: home_addr_def read_lh_def nth_append)
  have la: "log_addr s1 = (\<lambda>t. start + word_of_nat t + 1)" "log_area s1 = area start" "l_start (klog s1) = start"
    using s1(4) st by (simp_all add: log_addr_def log_area_eq fun_eq_iff)
  have inj: "inj_on (home_addr s1) {..<?n}"
    using h inj_on_cong[of "{..<?n}" "home_addr s1" "hdr_block ?bs"] hm by (simp add: hdr_ok_def)
  have r1: "log_ready ?n s1"
    unfolding log_ready_def using s1 d h n inj hm la e1 by (simp add: hdr_ok_def read_lh_def inuse_def)
  have iw: "install_writes s1 ?n = install_list start (disk s)"
    using hm la e1 d(7) by (simp add: install_writes_def install_list_def)
  have un: "unpinned True s1 ?n = bref s" using e1 by (simp add: unpinned_def fun_eq_iff)
  have up: "upto_cint (lh_n (l_lh (klog s1))) = [0..<?n]"
    using upto_cint_nat[of ?n] n s1(4) by (simp add: read_lh_def hdr_count_def)
  obtain s2 where s2: "install_trans True s1 = Ok ((), s2)" "cache_ok s2" "same_log s1 s2"
    "cabs s2 = (cabs s)\<lparr>c_view := apply_writes (install_list start (disk s)) (disk s), c_ref := bref s,
      c_disk := apply_writes (install_list start (disk s)) (disk s), c_trace := dtrace s @ install_list start (disk s)\<rparr>"
    using install_loop[OF r1 order_refl, of True] d e1 iw un up s1(3) by (auto simp: inuse_def install_trans_def)
  note e2 = cabs_eqD[OF s2(4), simplified]
  have k2: "klog s2 = klog s1" "myproc s2 = Some p" "sb s2 = sb s" "itable s2 = itable s"
    using s2(3) s1 by (simp_all add: same_log_def)
  let ?s2 = "upd_lh (\<lambda>h. h\<lparr>lh_n := 0\<rparr>) s2"
  have c2: "cabs ?s2 = cabs s2" "cache_ok ?s2" "myproc ?s2 = Some p"
    using upd_lh_cache[of "\<lambda>h. h\<lparr>lh_n := 0\<rparr>" s2] s2(2) k2 by simp_all
  note e2' = cabs_eqD[OF c2(1), simplified, unfolded e2]
  have "start \<in> area start" unfolding area_def by (rule CollectI, rule exI[of _ 0]) simp
  then have "start \<notin> fst ` set (install_list start (disk s))"
    using h by (force simp: hdr_ok_def install_list_def)
  then have v2: "bview ?s2 start = ?bs" using e2'(1) by (simp add: apply_writes_other)
  obtain s3 where s3: "write_head ?s2 = Ok ((), s3)" "cache_ok s3" "same_log ?s2 s3"
    "cabs s3 = (cabs ?s2)\<lparr>c_view := (bview ?s2)(start := header_bytes 0 [] ?bs),
      c_disk := (disk ?s2)(start := header_bytes 0 [] ?bs), c_trace := dtrace ?s2 @ [(start, header_bytes 0 [] ?bs)]\<rparr>"
    using write_head_ok[OF c2(2,3), of 0 start] k2 s1(4) n d e2' st v2
    by (auto simp: Let_def header_zero read_lh_def inuse_def)
  note e3 = cabs_eqD[OF s3(4), simplified, unfolded e2' e2]
  have run: "recover_from_log s = Ok ((), s3)"
    using s1(1) s2(1) s3(1) by (simp add: recover_from_log_def kseq_Ok)
  have k3: "klog s3 = (klog s)\<lparr>l_lh := (read_lh ?bs (l_lh (klog s)))\<lparr>lh_n := 0\<rparr>\<rparr>" "myproc s3 = Some p"
      "sb s3 = sb s" "itable s3 = itable s"
    using s3(3) s1(4) k2 c2(3) by (simp_all add: same_log_def)
  have "fresh s3" unfolding fresh_def using s3(2) k3 d n e3 by (simp add: read_lh_def)
  then show ?thesis
    using run k3 e3 st p by (simp add: recovered_def recovery_writes_def)
qed

subsection \<open>Prefixes of the writes\<close>

lemma area_log: "Suc t < LOGSIZE \<Longrightarrow> start + word_of_nat t + 1 \<in> area start"
  unfolding area_def by (rule CollectI, rule exI[of _ "Suc t"]) (simp add: algebra_simps)

lemma area_start: "start \<in> area start"
  unfolding area_def by (rule CollectI, rule exI[of _ 0]) simp

lemma apply_writes_take_other: "b \<notin> fst ` set ws \<Longrightarrow> apply_writes (take k ws) d b = d b"
  by (rule apply_writes_other) (auto dest: in_set_takeD)

text \<open>Writing a list again after a prefix of it changes nothing, if its blocks are distinct.\<close>

lemma apply_writes_rewrite:
  assumes "distinct (map fst ws)"
  shows "apply_writes ws (apply_writes (take k ws) d) = apply_writes ws d"
proof (rule ext)
  fix b
  show "apply_writes ws (apply_writes (take k ws) d) b = apply_writes ws d b"
  proof (cases "b \<in> fst ` set ws")
    case True
    have "apply_writes ws d1 b = apply_writes ws d2 b" if "b \<in> fst ` set ws" for d1 d2 :: "uint \<Rightarrow> uchar list"
      using that
    proof (induction ws rule: rev_induct)
      case (snoc w ws)
      then show ?case by (cases w) auto
    qed simp
    then show ?thesis using True by blast
  next
    case False
    then show ?thesis by (simp add: apply_writes_other apply_writes_take_other)
  qed
qed

lemma install_list_outside: "hdr_ok start d \<Longrightarrow> b \<in> area start \<Longrightarrow> b \<notin> fst ` set (install_list start d)"
  by (force simp: hdr_ok_def install_list_def)

lemma distinct_install_list: "hdr_ok start d \<Longrightarrow> distinct (map fst (install_list start d))"
  by (simp add: hdr_ok_def install_list_def distinct_map comp_def atLeast0LessThan)

lemma recovered_empty: "hdr_count (d start) = 0 \<Longrightarrow> b \<noteq> start \<Longrightarrow> recovered start d b = d b"
  by (simp add: recovered_def recovery_writes_def install_list_def)

lemma recovered_outside: "b \<noteq> start \<Longrightarrow> recovered start d b = apply_writes (install_list start d) d b"
  by (simp add: recovered_def recovery_writes_def)

text \<open>A crash during recovery does no harm: the next recovery ends with the same file system.\<close>

lemma recovery_restart:
  fixes k :: nat
  assumes h: "hdr_ok start d" and len: "4 \<le> length (d start)"
  defines "d' \<equiv> apply_writes (take k (recovery_writes start d)) d"
  shows "hdr_ok start d'" "b \<noteq> start \<Longrightarrow> recovered start d' b = recovered start d b"
proof -
  let ?ws = "install_list start d"
  have ws: "b \<in> area start \<Longrightarrow> apply_writes (take j ?ws) d b = d b" for j b
    using install_list_outside[OF h] by (rule apply_writes_take_other)
  have "hdr_ok start d' \<and> (b \<noteq> start \<longrightarrow> recovered start d' b = recovered start d b)"
  proof (cases "k \<le> length ?ws")
    case True
    then have d': "d' = apply_writes (take k ?ws) d" by (simp add: d'_def recovery_writes_def)
    have st: "d' start = d start" unfolding d' by (rule ws[OF area_start])
    have "install_list start d' = ?ws"
      unfolding install_list_def st using h ws[OF area_log] by (simp add: d' hdr_ok_def)
    moreover have "hdr_ok start d'" using h by (simp add: hdr_ok_def st)
    ultimately show ?thesis
      using apply_writes_rewrite[OF distinct_install_list[OF h], of k d] by (simp add: recovered_outside d')
  next
    case False
    then have d': "d' = recovered start d" by (simp add: d'_def recovered_def recovery_writes_def)
    then have "d' start = header_bytes 0 [] (d start)" by (simp add: recovered_def recovery_writes_def)
    then have "hdr_count (d' start) = 0" using hdr_header_bytes(1)[of 0 "[]" "d start"] len by simp
    then show ?thesis using d' recovered_empty[of d' start b] by (simp add: hdr_ok_def)
  qed
  then show "hdr_ok start d'" "b \<noteq> start \<Longrightarrow> recovered start d' b = recovered start d b" by simp_all
qed

subsection \<open>Crashes during commit\<close>

lemma apply_writes_pointwise: "d b = e b \<Longrightarrow> apply_writes ws d b = apply_writes ws e b"
  by (induction ws rule: rev_induct) (auto simp: apply_writes_append)

definition crash_disk :: "'a kfs_scheme \<Rightarrow> nat \<Rightarrow> nat \<Rightarrow> uint \<Rightarrow> uchar list" where
  "crash_disk s n k = apply_writes (take k (commit_writes s n)) (disk s)"

lemma log_writes_outside: "n < LOGSIZE \<Longrightarrow> b \<notin> area (l_start (klog s)) \<Longrightarrow> b \<notin> fst ` set (log_writes s n)"
  using log_addr_area[of _ s] by (auto simp: log_writes_def log_area_eq)

lemma crash_before_header:
  assumes r: "log_ready n s" and k: "k \<le> n" and empty: "hdr_count (disk s (l_start (klog s))) = 0"
  defines "start \<equiv> l_start (klog s)"
  shows "hdr_ok start (crash_disk s n k)" "b \<notin> area start \<Longrightarrow> recovered start (crash_disk s n k) b = disk s b"
proof -
  have n: "n < LOGSIZE" by (rule log_readyD(5)[OF r])
  have c: "crash_disk s n k = apply_writes (take k (log_writes s n)) (disk s)"
    using k by (simp add: crash_disk_def commit_writes_def log_writes_def)
  have "start \<notin> fst ` set (log_writes s n)"
    using start_not_logged[of _ s, symmetric] n by (auto simp: log_writes_def image_iff start_def)
  then have "crash_disk s n k start = disk s start" unfolding c by (rule apply_writes_take_other)
  then have z: "hdr_count (crash_disk s n k start) = 0" using empty by (simp add: start_def)
  then show "hdr_ok start (crash_disk s n k)" by (simp add: hdr_ok_def)
  assume b: "b \<notin> area start"
  then have "recovered start (crash_disk s n k) b = crash_disk s n k b"
    using recovered_empty[of "crash_disk s n k" start b] z area_start by metis
  then show "recovered start (crash_disk s n k) b = disk s b"
    unfolding c using apply_writes_take_other log_writes_outside[OF n] b by (metis start_def)
qed

lemma hdr_commit_header:
  assumes r: "log_ready n s"
  shows "hdr_count (commit_header s n) = n" "i < n \<Longrightarrow> hdr_block (commit_header s n) i = home_addr s i"
    "hdr_count (clear_header s n) = 0"
proof -
  note d = log_readyD[OF r]
  have n: "n \<le> length (lh_block (l_lh (klog s)))" "4 + 4 * n \<le> length (bview s (l_start (klog s)))" "n < 2 ^ 31"
    using d(4,5) length_bview[OF d(1)] by simp_all
  show "hdr_count (commit_header s n) = n" "i < n \<Longrightarrow> hdr_block (commit_header s n) i = home_addr s i"
    unfolding commit_header_def home_addr_def by (rule hdr_header_bytes[OF n], assumption?)+
  have "4 \<le> length (commit_header s n)" using header_bytes_read(1)[OF n] n by (simp add: commit_header_def)
  then show "hdr_count (clear_header s n) = 0"
    unfolding clear_header_def by (intro hdr_header_bytes(1)) simp_all
qed

lemma crash_after_header:
  assumes r: "log_ready n s" and k: "n < k"
  defines "start \<equiv> l_start (klog s)"
  shows "hdr_ok start (crash_disk s n k)"
    "b \<notin> area start \<Longrightarrow> recovered start (crash_disk s n k) b = apply_writes (home_writes s n) (disk s) b"
proof -
  note d = log_readyD[OF r] and h = hdr_commit_header[OF r]
  let ?hw = "home_writes s n" and ?c = "crash_disk s n k"
  let ?d1 = "(apply_writes (log_writes s n) (disk s))(start := commit_header s n)"
  have dist: "distinct (map fst ?hw)"
    using d(6) by (simp add: home_writes_def distinct_map comp_def atLeast0LessThan)
  have out: "b \<in> area start \<Longrightarrow> b \<notin> fst ` set ?hw" for b
    using d(7) by (force simp: home_writes_def log_area_eq start_def)
  have d1: "b \<notin> area start \<Longrightarrow> ?d1 b = disk s b" for b
    using area_start[of start] log_writes_outside[OF d(5), of b s] by (auto simp: apply_writes_other start_def)
  have len: "length (log_writes s n) = n" "length ?hw = n" by (simp_all add: log_writes_def home_writes_def)
  have "hdr_ok start ?c \<and> (b \<notin> area start \<longrightarrow> recovered start ?c b = apply_writes ?hw (disk s) b)"
  proof (cases "k \<le> 2 * n + 1")
    case True
    then have c: "?c = apply_writes (take (k - n - 1) ?hw) ?d1"
      using k len by (cases "k - n") (simp_all add: crash_disk_def commit_writes_def apply_writes_append start_def)
    have same: "b \<in> area start \<Longrightarrow> ?c b = ?d1 b" for b unfolding c by (rule apply_writes_take_other[OF out])
    have st: "?c start = commit_header s n" using same[OF area_start] by simp
    have lg: "?c (start + word_of_nat t + 1) = bview s (home_addr s t)" if "t < n" for t
      using same[OF area_log, of t] that d(5) log_writes_log[OF that d(5), of s "disk s"] start_not_logged[of t s]
      by (simp add: log_addr_def start_def)
    have il: "install_list start ?c = ?hw" using lg h st by (simp add: install_list_def home_writes_def)
    have hk: "hdr_ok start ?c"
      using d(5,6,7) h st inj_on_cong[of "{..<n}" "hdr_block (commit_header s n)" "home_addr s"]
      by (simp add: hdr_ok_def log_area_eq start_def)
    have "recovered start ?c b = apply_writes ?hw (disk s) b" if "b \<notin> area start"
    proof -
      have "recovered start ?c b = apply_writes ?hw ?d1 b"
        using recovered_outside[of b start ?c] that area_start[of start] il apply_writes_rewrite[OF dist, of "k - n - 1" ?d1]
        by (metis c)
      then show ?thesis using apply_writes_pointwise[of ?d1 b "disk s" ?hw, OF d1[OF that]] by simp
    qed
    then show ?thesis using hk by simp
  next
    case False
    then have c: "?c = (apply_writes ?hw ?d1)(start := clear_header s n)"
      using len by (simp add: crash_disk_def commit_writes_def apply_writes_append start_def)
    then have z: "hdr_count (?c start) = 0" using h by simp
    have "recovered start ?c b = apply_writes ?hw (disk s) b" if "b \<notin> area start"
    proof -
      have ne: "b \<noteq> start" using that area_start by auto
      have "recovered start ?c b = ?c b" by (rule recovered_empty[of ?c start b, OF z ne])
      then show ?thesis using apply_writes_pointwise[of ?d1 b "disk s" ?hw, OF d1[OF that]] ne by (simp add: c)
    qed
    then show ?thesis using z by (simp add: hdr_ok_def)
  qed
  then show "hdr_ok start ?c" "b \<notin> area start \<Longrightarrow> recovered start ?c b = apply_writes ?hw (disk s) b" by simp_all
qed

end
