(* ===== verification/Xv6_Transaction.thy ===== *)
theory Xv6_Transaction
  imports Xv6_Recover Xv6_Fs Xv6_Boot
begin

section \<open>Transactions\<close>

text \<open>
  The buffer cache after boot, \<open>log_write\<close>, and a whole transaction between \<open>begin_op\<close> and
  \<open>end_op\<close>: its updates reach the disk together or not at all, wherever the machine stops.
\<close>

subsection \<open>binit\<close>

text \<open>\<^verbatim>\<open>bcache\<close> is in the bss segment, so its buffers are zero when \<open>binit\<close> runs.\<close>

definition bss_bufs :: "'a kfs_scheme \<Rightarrow> bool" where
  "bss_bufs s \<longleftrightarrow> length (bufs s) = 31 \<and>
     (\<forall>i<NBUF. b_dev (buf_at s i) = 0 \<and> b_refcnt (buf_at s i) = 0 \<and> length (b_data (buf_at s i)) = BSIZE)"

lemma push_front_dll:
  assumes d: "dll (nxt s) (prv s) NBUF xs NBUF" and dis: "distinct (b # NBUF # xs)" and len: "length (bufs s) = 31"
    and b: "b < NBUF" and xs: "\<And>x. x \<in> set xs \<Longrightarrow> x < NBUF"
  shows "dll (nxt (bufs_push_front b s)) (prv (bufs_push_front b s)) NBUF (b # xs) NBUF"
proof -
  let ?t = "bufs_push_front b s"
  have "nxt s NBUF \<in> set (xs @ [NBUF])" unfolding dll_first[OF d] by (rule hd_in_set) simp
  then have nu: "nxt s NBUF < 31" "nxt s NBUF \<noteq> b" using xs[of "nxt s NBUF"] b dis by auto
  have t: "nxt ?t j = ((nxt s)(b := nxt s NBUF, NBUF := b)) j"
    "prv ?t j = ((prv s)(b := NBUF, nxt s NBUF := b)) j" if "j < 31" for j
    using that nu len b by (simp_all add: bufs_push_front_def Let_def)
  have in31: "j < 31" if "j \<in> set (NBUF # b # xs)" for j using that xs[of j] b by auto
  have "dll (nxt ?t) (prv ?t) NBUF (b # xs) NBUF =
      dll ((nxt s)(b := nxt s NBUF, NBUF := b)) ((prv s)(b := NBUF, nxt s NBUF := b)) NBUF (b # xs) NBUF"
    by (intro dll_cong t in31) auto
  then show ?thesis using dll_push[OF d] dis by simp
qed

definition binit_upto :: "nat \<Rightarrow> 'a kfs_scheme \<Rightarrow> 'a kfs_scheme" where
  "binit_upto k s =
     fold (\<lambda>b t. bufs_push_front b (upd_buf b (\<lambda>x. x\<lparr>b_lock := initsleeplock ''buffer'' (b_lock x)\<rparr>) t))
       [0..<k] (upd_buf NBUF (\<lambda>x. x\<lparr>b_prev := NBUF, b_next := NBUF\<rparr>) s)"

lemma same_but_links_push: "same_but_links s (bufs_push_front b s)"
  unfolding bufs_push_front_def Let_def by (intro same_but_links_upd same_but_links_refl) blast+

lemma binit_upto_ok:
  assumes "bss_bufs s" "k \<le> NBUF"
  shows "length (bufs (binit_upto k s)) = 31 \<and>
    dll (nxt (binit_upto k s)) (prv (binit_upto k s)) NBUF (rev [0..<k]) NBUF \<and>
    (\<exists>bs. binit_upto k s = s\<lparr>bufs := bs\<rparr>) \<and>
    (\<forall>i<NBUF. b_dev (buf_at (binit_upto k s) i) = 0 \<and> b_refcnt (buf_at (binit_upto k s) i) = 0 \<and>
       length (b_data (buf_at (binit_upto k s) i)) = BSIZE \<and>
       (i < k \<longrightarrow> sl_locked (b_lock (buf_at (binit_upto k s) i)) = 0))"
  using assms(2)
proof (induction k)
  case 0
  show ?case using assms(1) by (auto simp: binit_upto_def bss_bufs_def upd_buf_def buf_at_def)
next
  case (Suc k)
  let ?t = "binit_upto k s" and ?f = "\<lambda>x. x\<lparr>b_lock := initsleeplock ''buffer'' (b_lock x)\<rparr>"
  let ?u = "upd_buf k ?f ?t"
  let ?v = "bufs_push_front k ?u"
  have v: "binit_upto (Suc k) s = ?v" by (simp add: binit_upto_def)
  have IH: "length (bufs ?t) = 31" "dll (nxt ?t) (prv ?t) NBUF (rev [0..<k]) NBUF" "\<exists>bs. ?t = s\<lparr>bufs := bs\<rparr>"
    "i < NBUF \<Longrightarrow> b_dev (buf_at ?t i) = 0 \<and> b_refcnt (buf_at ?t i) = 0 \<and> length (b_data (buf_at ?t i)) = BSIZE \<and>
       (i < k \<longrightarrow> sl_locked (b_lock (buf_at ?t i)) = 0)" for i
    using Suc by auto
  have lu: "length (bufs ?u) = 31" using IH(1) by simp
  have u: "buf_at ?u i = (if i = k then ?f (buf_at ?t i) else buf_at ?t i)" if "i < 31" for i
    using that IH(1) by simp
  have "dll (nxt ?u) (prv ?u) NBUF (rev [0..<k]) NBUF = dll (nxt ?t) (prv ?t) NBUF (rev [0..<k]) NBUF"
    using Suc.prems by (intro dll_cong) (auto simp: u)
  then have "dll (nxt ?v) (prv ?v) NBUF (k # rev [0..<k]) NBUF"
    using IH(2) Suc.prems lu by (intro push_front_dll) auto
  moreover obtain bs where bs: "?v = ?u\<lparr>bufs := bs\<rparr>" "length bs = 31"
    using same_but_links_push[of ?u k] lu by (auto simp: same_but_links_def)
  moreover have "\<exists>bs. ?v = s\<lparr>bufs := bs\<rparr>" using bs IH(3) by (auto simp: upd_buf_def)
  moreover have "b_dev (buf_at ?v i) = 0 \<and> b_refcnt (buf_at ?v i) = 0 \<and> length (b_data (buf_at ?v i)) = BSIZE \<and>
       (i < Suc k \<longrightarrow> sl_locked (b_lock (buf_at ?v i)) = 0)" if "i < NBUF" for i
    using same_but_linksD(10)[OF same_but_links_push[of ?u k] lu that] IH(4)[OF that] u[of i] that
    by (auto simp: initsleeplock_def)
  ultimately show ?case unfolding v by simp
qed

lemma binit_ok:
  assumes z: "bss_bufs s" and k: "kproc_ok s" "\<And>p. myproc s = Some p \<Longrightarrow> p < NPROC"
    and d: "\<And>blk. length (disk s blk) = BSIZE"
  shows "cache_ok (binit s)" "bref (binit s) b = 0" "\<exists>bs. binit s = s\<lparr>bufs := bs\<rparr>" "lru (binit s) (rev [0..<NBUF])"
    "bufof (binit s) b = None" "j < NBUF \<Longrightarrow> b_refcnt (buf_at (binit s) j) = 0"
proof -
  have eq: "binit s = binit_upto NBUF s" by (simp only: binit_def binit_upto_def)
  note i = binit_upto_ok[OF z order_refl, folded eq]
  obtain bs where bs: "binit s = s\<lparr>bufs := bs\<rparr>" using i by blast
  have i': "b_dev (buf_at (binit s) j) = 0" "b_refcnt (buf_at (binit s) j) = 0" "length (b_data (buf_at (binit s) j)) = BSIZE"
    "sl_locked (b_lock (buf_at (binit s) j)) = 0" if "j < NBUF" for j
    using i that by blast+
  have "distinct (rev [0..<NBUF])" "\<forall>j. j \<in> set (rev [0..<NBUF]) \<longleftrightarrow> j < NBUF" by simp_all
  then show l: "lru (binit s) (rev [0..<NBUF])" unfolding lru_def using i by blast
  have pf: "myproc (binit s) = myproc s" "kproc_ok (binit s) = kproc_ok s"
    by (rule proc_frame; simp add: bs)+
  have "disk (binit s) = disk s" using bs by simp
  then show c: "cache_ok (binit s)"
    using k d pf i' by (intro cache_okI[OF _ _ l]) (auto simp: buf_ok_def holds_def)
  show "j < NBUF \<Longrightarrow> b_refcnt (buf_at (binit s) j) = 0" by (rule i'(2))
  show n: "bufof (binit s) b = None" using i'(1) by (auto simp: bufof_def find_None_iff holds_def)
  then show "bref (binit s) b = 0" by (simp add: bref_def)
  show "\<exists>bs. binit s = s\<lparr>bufs := bs\<rparr>" using bs by blast
qed

subsection \<open>log\_write\<close>

lemma log_absorb_ok:
  assumes "i + k \<le> length blks"
  shows "\<exists>j. log_absorb blks blk i k = Ok j \<and> i \<le> j \<and> j \<le> i + k \<and> (j < i + k \<longrightarrow> blks ! j = blk) \<and>
    (\<forall>t. i \<le> t \<longrightarrow> t < j \<longrightarrow> blks ! t \<noteq> blk)"
  using assms
proof (induction k arbitrary: i)
  case (Suc k)
  have i: "i < length blks" using Suc.prems by simp
  show ?case
  proof (cases "blks ! i = blk")
    case True
    then show ?thesis using i by (simp add: arr_get_def exI[of _ i])
  next
    case False
    obtain j where j: "log_absorb blks blk (Suc i) k = Ok j" "Suc i \<le> j" "j \<le> Suc i + k"
      "j < Suc i + k \<longrightarrow> blks ! j = blk" "\<forall>t. Suc i \<le> t \<longrightarrow> t < j \<longrightarrow> blks ! t \<noteq> blk"
      using Suc.IH[of "Suc i"] Suc.prems by auto
    have "blks ! t \<noteq> blk" if "i \<le> t" "t < j" for t using that j(5) False by (cases "t = i") simp_all
    then show ?thesis using False i j by (intro exI[of _ j]) (simp add: arr_get_def)
  qed
qed simp

definition logged :: "'a kfs_scheme \<Rightarrow> nat \<Rightarrow> uint set" where
  "logged s n = home_addr s ` {..<n}"

text \<open>A block already in the log is absorbed; another one is appended and its buffer pinned.\<close>

lemma log_write_ok:
  assumes n: "lh_n (l_lh (klog s)) = word_of_nat n" "n < 29" and blks: "length (lh_block (l_lh (klog s))) = LOGSIZE"
    and sz: "l_size (klog s) = of_nat LOGSIZE" and out: "l_outstanding (klog s) = 1"
    and i: "b_blockno (buf_at s i) = blk"
  shows "log_write i s = Ok ((), if blk \<in> logged s n then s
    else upd_lh (\<lambda>h. h\<lparr>lh_n := lh_n h + 1\<rparr>) (bpin i (upd_lh (\<lambda>h. h\<lparr>lh_block := (lh_block h)[n := blk]\<rparr>) s)))"
proof -
  let ?blks = "lh_block (l_lh (klog s))"
  have n31: "sint (word_of_nat n :: cint) = int n" using n(2) by (simp add: sint_word_of_nat)
  obtain j where j: "log_absorb ?blks blk 0 n = Ok j" "j \<le> n" "j < n \<longrightarrow> ?blks ! j = blk" "\<forall>t<j. ?blks ! t \<noteq> blk"
    using log_absorb_ok[of 0 n ?blks blk] blks n by auto
  have mem: "blk \<in> logged s n \<longleftrightarrow> j < n"
  proof (cases "j < n")
    case False
    then have "j = n" using j(2) by simp
    then show ?thesis using j(4) by (auto simp: logged_def home_addr_def)
  qed (use j(3) in \<open>auto simp: logged_def home_addr_def\<close>)
  have idem: "upd_lh (\<lambda>h. h\<lparr>lh_block := ?blks[j := blk]\<rparr>) s = s" if "j < n"
  proof -
    have "?blks[j := blk] = ?blks" using that j(3) list_update_id[of ?blks j] by simp
    then show ?thesis by (simp add: upd_lh_def upd_log_def)
  qed
  have "log_write i s = (let s1 = upd_lh (\<lambda>h. h\<lparr>lh_block := ?blks[j := blk]\<rparr>) s in
      if j = n then Ok ((), upd_lh (\<lambda>h. h\<lparr>lh_n := lh_n h + 1\<rparr>) (bpin i s1)) else Ok ((), s1))"
    using n n31 blks sz out i j(1,2) by (simp add: log_write_def Let_def arr_set_def)
  moreover have "upd_lh (\<lambda>h. h\<lparr>lh_block := ?blks[n := blk]\<rparr>) s = upd_lh (\<lambda>h. h\<lparr>lh_block := (lh_block h)[n := blk]\<rparr>) s"
    by (simp add: upd_lh_def upd_log_def)
  ultimately show ?thesis using idem mem j(2) by (cases "j < n") (simp_all add: Let_def)
qed

subsection \<open>Inside a transaction\<close>

text \<open>
  The read-modify-write of a block that \<open>bzero\<close>, \<open>balloc\<close>, \<open>bfree\<close>, \<open>iupdate\<close>, \<open>bmap\<close> and \<open>writei\<close>
  consist of, and a transaction of such updates.
\<close>

definition tx_write :: "uint \<times> (uchar list \<Rightarrow> uchar list) \<Rightarrow> ('a kfs_scheme, unit) kop" where
  "tx_write w =
     kseq (bread ROOTDEV (fst w)) (\<lambda>bp.
     kseq (set_data bp (snd w)) (\<lambda>_.
     kseq (log_write bp) (\<lambda>_.
     brelse bp)))"

definition transaction :: "(uint \<times> (uchar list \<Rightarrow> uchar list)) list \<Rightarrow> ('a kfs_scheme, unit) kop" where
  "transaction ws = kseq begin_op (\<lambda>_. kseq (kforeach tx_write ws) (\<lambda>_. end_op))"

lemma bzero_tx_write: "bzero ROOTDEV bno = tx_write (bno, \<lambda>_. replicate BSIZE 0)"
  by (simp add: bzero_def tx_write_def)

text \<open>What the updates make of the contents of the blocks.\<close>

definition tx_effect :: "(uint \<times> (uchar list \<Rightarrow> uchar list)) list \<Rightarrow> (uint \<Rightarrow> uchar list) \<Rightarrow> uint \<Rightarrow> uchar list" where
  "tx_effect ws d = fold (\<lambda>(b, f) d. d(b := f (d b))) ws d"

text \<open>The only operation in progress has logged \<open>n\<close> blocks; \<open>d\<close> is the disk it started from.\<close>

definition tx_ok :: "(uint \<Rightarrow> uchar list) \<Rightarrow> nat \<Rightarrow> 'a kfs_scheme \<Rightarrow> bool" where
  "tx_ok d n s \<longleftrightarrow> cache_ok s \<and> myproc s \<noteq> None \<and> l_dev (klog s) = ROOTDEV \<and>
     length (lh_block (l_lh (klog s))) = LOGSIZE \<and> lh_n (l_lh (klog s)) = word_of_nat n \<and>
     l_size (klog s) = of_nat LOGSIZE \<and> l_outstanding (klog s) = 1 \<and> \<not> l_committing (klog s) \<and>
     inj_on (home_addr s) {..<n} \<and> logged s n \<inter> log_area s = {} \<and> (\<forall>b. bown s b = None) \<and>
     (\<forall>b. bref s b = (if b \<in> logged s n then 1 else 0)) \<and> (\<forall>b. b \<notin> logged s n \<longrightarrow> bview s b = d b) \<and> disk s = d"

lemma tx_okD:
  assumes "tx_ok d n s"
  shows "cache_ok s" "myproc s \<noteq> None" "l_dev (klog s) = ROOTDEV" "length (lh_block (l_lh (klog s))) = LOGSIZE"
    "lh_n (l_lh (klog s)) = word_of_nat n" "l_size (klog s) = of_nat LOGSIZE" "l_outstanding (klog s) = 1"
    "\<not> l_committing (klog s)" "inj_on (home_addr s) {..<n}" "logged s n \<inter> log_area s = {}" "bown s b = None"
    "bref s b = (if b \<in> logged s n then 1 else 0)" "b \<notin> logged s n \<Longrightarrow> bview s b = d b" "disk s = d"
  using assms by (simp_all add: tx_ok_def)

lemma tx_inuse: "tx_ok d n s \<Longrightarrow> inuse s = logged s n \<and> card (inuse s) = n"
  using tx_okD(9,12)[of d n s] by (auto simp: inuse_def logged_def card_image)

text \<open>Appending block \<open>blk\<close> to the header.\<close>

definition log_append :: "uint \<Rightarrow> nat \<Rightarrow> logheader \<Rightarrow> logheader" where
  "log_append blk n h = h\<lparr>lh_block := (lh_block h)[n := blk], lh_n := lh_n h + 1\<rparr>"

lemma bpin_upd_lh:
  "upd_lh (\<lambda>h. h\<lparr>lh_n := lh_n h + 1\<rparr>) (bpin i (upd_lh (\<lambda>h. h\<lparr>lh_block := (lh_block h)[n := blk]\<rparr>) s)) =
   upd_lh (log_append blk n) (bpin i s)"
  by (simp add: bpin_def upd_buf_def upd_lh_def upd_log_def log_append_def)

lemma append_addr:
  assumes k: "klog u = (klog s)\<lparr>l_lh := log_append blk n (l_lh (klog s))\<rparr>" and n: "n < LOGSIZE"
    and blks: "length (lh_block (l_lh (klog s))) = LOGSIZE"
  shows "home_addr u t = (if t = n then blk else home_addr s t)" "log_area u = log_area s"
    "logged u (Suc n) = insert blk (logged s n)"
proof -
  show h: "home_addr u t = (if t = n then blk else home_addr s t)" for t
    using k n blks by (simp add: home_addr_def log_append_def)
  show "log_area u = log_area s" using k by (simp add: log_area_def)
  have "{..<Suc n} = insert n {..<n}" by auto
  then show "logged u (Suc n) = insert blk (logged s n)" unfolding logged_def by (auto simp: h)
qed

text \<open>\<open>log_write\<close> of a buffer that the process holds, inside a transaction.\<close>

lemma log_write_step:
  assumes tx: "tx_ok d n s" and n: "n < 29" and blk: "blk \<notin> log_area s"
    and t: "cache_ok t" "bufof t blk = Some i" "klog t = klog s" "myproc t = myproc s"
      "cabs t = (cabs s)\<lparr>c_view := v, c_ref := (bref s)(blk := bref s blk + 1), c_own := w\<rparr>"
  shows "\<exists>u m. log_write i t = Ok ((), u) \<and> cache_ok u \<and> bufof u = bufof t \<and> n \<le> m \<and> m \<le> Suc n \<and>
    klog u = (klog s)\<lparr>l_lh := l_lh (klog u)\<rparr> \<and> length (lh_block (l_lh (klog u))) = LOGSIZE \<and>
    lh_n (l_lh (klog u)) = word_of_nat m \<and> myproc u = myproc s \<and> mypid u = mypid t \<and>
    inj_on (home_addr u) {..<m} \<and> logged u m = insert blk (logged s n) \<and> log_area u = log_area s \<and>
    cabs u = (cabs s)\<lparr>c_view := v, c_ref := (bref s)(blk := 2), c_own := w\<rparr>"
proof -
  note d = tx_okD[OF tx] and e = cabs_eqD[OF t(5), simplified]
  have ad: "logged t n = logged s n" "home_addr t = home_addr s" "log_area t = log_area s"
    using t(3) by (simp_all add: logged_def home_addr_def log_area_def fun_eq_iff)
  have no: "b_blockno (buf_at t i) = blk" using t(1,2) by (simp add: bufof_iff holds_def)
  have lw: "log_write i t = Ok ((), if blk \<in> logged s n then t else upd_lh (log_append blk n) (bpin i t))"
    using log_write_ok[OF _ n _ _ _ no] d t(3) ad by (simp add: bpin_upd_lh)
  show ?thesis
  proof (cases "blk \<in> logged s n")
    case True
    then have "cabs t = (cabs s)\<lparr>c_view := v, c_ref := (bref s)(blk := 2), c_own := w\<rparr>"
      using t(5) d(12) by (simp add: numeral_2_eq_2)
    then show ?thesis
      using True lw t(1-4) d(4,5,9) ad by (intro exI[of _ t] exI[of _ n]) (simp add: insert_absorb)
  next
    case False
    have lim: "bref t blk + 1 < 2 ^ 32" using e(2) d(12) False by simp
    note b = bpin_ok[OF t(1,2) lim]
    let ?u = "upd_lh (log_append blk n) (bpin i t)"
    note c = upd_lh_cache[of "log_append blk n" "bpin i t"]
    note kb = keepsD[OF b(2)]
    have k: "klog ?u = (klog s)\<lparr>l_lh := log_append blk n (l_lh (klog s))\<rparr>" using kb t(3) by simp
    have a: "home_addr ?u j = (if j = n then blk else home_addr s j)" "log_area ?u = log_area s"
      "logged ?u (Suc n) = insert blk (logged s n)" for j
      using append_addr[OF k _ d(4)] n by simp_all
    have "inj_on (home_addr ?u) {..<n}" using d(9) by (subst inj_on_cong[of _ _ "home_addr s"]) (simp_all add: a)
    moreover have "{..<Suc n} = insert n {..<n}" by auto
    moreover have "blk \<notin> home_addr ?u ` {..<n}" using False a(1) by (auto simp: logged_def)
    ultimately have inj: "inj_on (home_addr ?u) {..<Suc n}" using a(1)[of n] by simp
    have "cabs ?u = (cabs s)\<lparr>c_view := v, c_ref := (bref s)(blk := 2), c_own := w\<rparr>"
      using c(2) b(4) t(5) e(2) d(12) False by (simp add: numeral_2_eq_2)
    moreover have "lh_n (l_lh (klog ?u)) = word_of_nat (Suc n)" using k d(5) by (simp add: log_append_def)
    moreover have "length (lh_block (l_lh (klog ?u))) = LOGSIZE" using k d(4) by (simp add: log_append_def)
    ultimately show ?thesis
      using lw False c b kb t inj a(2,3) k by (intro exI[of _ ?u] exI[of _ "Suc n"]) simp
  qed
qed

lemma tx_write_ok:
  assumes tx: "tx_ok d n s" and n: "n < 29" and blk: "blk \<notin> log_area s"
    and f: "\<And>x. length x = BSIZE \<Longrightarrow> length (f x) = BSIZE"
  shows "\<exists>u m. tx_write (blk, f) s = Ok ((), u) \<and> tx_ok d m u \<and> n \<le> m \<and> m \<le> Suc n \<and>
    bview u = (bview s)(blk := f (bview s blk)) \<and> dtrace u = dtrace s \<and>
    klog u = (klog s)\<lparr>l_lh := l_lh (klog u)\<rparr> \<and> myproc u = myproc s"
proof -
  note d = tx_okD[OF tx]
  obtain p where p: "myproc s = Some p" using d(2) by blast
  have "card (inuse s) = n" using tx_inuse[OF tx] by blast
  then have lim: "bref s blk + 1 < 2 ^ 32" "card (inuse s) < NBUF" using d(12) n by simp_all
  obtain i t where t: "bread ROOTDEV blk s = Ok (i, t)" "cache_ok t" "bufof t blk = Some i" "keeps s t"
    "cabs t = (cabs s)\<lparr>c_ref := (bref s)(blk := bref s blk + 1), c_own := (bown s)(blk := Some (mypid s))\<rparr>"
    using bread_ok[OF d(1) p d(11) lim(1)] lim(2) by blast
  note e = cabs_eqD[OF t(5), simplified] and kt = keepsD[OF t(4)]
  have "b_data (buf_at t i) = bview t blk" using t(3) by (simp add: bview_def)
  then have data: "b_data (buf_at t i) = bview s blk" using e(1) by simp
  let ?x = "f (bview s blk)"
  let ?u = "upd_buf i (\<lambda>x. x\<lparr>b_data := ?x\<rparr>) t"
  have len: "length ?x = BSIZE" by (rule f[OF length_bview[OF d(1)]])
  have rt: "bref t blk \<noteq> 0" using e(2) by simp
  note u = upd_data_ok[OF t(2,3) rt len]
  have "upd_buf i (\<lambda>x. x\<lparr>b_data := f (b_data x)\<rparr>) t = ?u" using data by (simp add: upd_buf_def buf_at_def)
  then have set: "set_data i f t = Ok ((), ?u)" by (simp add: set_data_def)
  have cu: "cabs ?u = (cabs s)\<lparr>c_view := (bview s)(blk := ?x), c_ref := (bref s)(blk := bref s blk + 1),
      c_own := (bown s)(blk := Some (mypid s))\<rparr>"
    using u(4) t(5) e(1) by simp
  note ku = keepsD[OF u(2)]
  obtain v m where v: "log_write i ?u = Ok ((), v)" "cache_ok v" "bufof v = bufof ?u" "n \<le> m" "m \<le> Suc n"
    "klog v = (klog s)\<lparr>l_lh := l_lh (klog v)\<rparr>" "length (lh_block (l_lh (klog v))) = LOGSIZE"
    "lh_n (l_lh (klog v)) = word_of_nat m" "myproc v = myproc s" "mypid v = mypid ?u" "inj_on (home_addr v) {..<m}"
    "logged v m = insert blk (logged s n)" "log_area v = log_area s"
    "cabs v = (cabs s)\<lparr>c_view := (bview s)(blk := ?x), c_ref := (bref s)(blk := 2),
      c_own := (bown s)(blk := Some (mypid s))\<rparr>"
    using log_write_step[OF tx n blk u(1) _ _ _ cu] u(3) t(3) ku kt by auto
  note ev = cabs_eqD[OF v(14), simplified]
  have pv: "myproc v = Some p" "mypid v = mypid s" using v p ku kt by simp_all
  obtain z where z: "brelse i v = Ok ((), z)" "cache_ok z" "keeps v z"
    "cabs z = (cabs v)\<lparr>c_ref := (bref v)(blk := bref v blk - 1), c_own := (bown v)(blk := None)\<rparr>"
    using brelse_ok[OF v(2) pv(1), of blk i] v(3) u(3) t(3) ev pv(2) by auto
  note ez = cabs_eqD[OF z(4), simplified, unfolded ev] and kz = keepsD[OF z(3)]
  have az: "home_addr z = home_addr v" "logged z m = insert blk (logged s n)" "log_area z = log_area s"
    using kz(1) v(12,13) by (simp_all add: logged_def home_addr_def log_area_def fun_eq_iff)
  have run: "tx_write (blk, f) s = Ok ((), z)"
    using t(1) set v(1) z(1) by (simp add: tx_write_def kseq_Ok)
  have kl: "klog z = (klog s)\<lparr>l_lh := l_lh (klog z)\<rparr>" "l_lh (klog z) = l_lh (klog v)" using kz(1) v(6) by simp_all
  have "l_dev (klog z) = l_dev (klog s)" "l_size (klog z) = l_size (klog s)"
    "l_outstanding (klog z) = l_outstanding (klog s)" "l_committing (klog z) = l_committing (klog s)"
    by (subst kl(1); simp)+
  then have "tx_ok d m z"
    unfolding tx_ok_def using z(2) kz v az ez kl d(2,3,6,7,8,10,11,12,13,14) blk pv by auto
  then show ?thesis using run v(4,5) ez kz kl(1) v(9) by (intro exI[of _ z] exI[of _ m]) simp
qed

lemma tx_loop:
  assumes "tx_ok d n s" "n + length ws \<le> 29" "\<forall>(b, f)\<in>set ws. b \<notin> log_area s"
    "\<forall>(b, f)\<in>set ws. \<forall>x. length x = BSIZE \<longrightarrow> length (f x) = BSIZE"
  shows "\<exists>u m. kforeach tx_write ws s = Ok ((), u) \<and> tx_ok d m u \<and> m \<le> n + length ws \<and>
    bview u = tx_effect ws (bview s) \<and> dtrace u = dtrace s \<and> klog u = (klog s)\<lparr>l_lh := l_lh (klog u)\<rparr> \<and>
    myproc u = myproc s"
  using assms
proof (induction ws arbitrary: n s)
  case Nil
  then show ?case by (intro exI[of _ s] exI[of _ n]) (simp add: tx_effect_def)
next
  case (Cons w ws)
  obtain b f where w: "w = (b, f)" by (cases w)
  have n: "n < 29" using Cons.prems(2) by simp
  obtain t m where t: "tx_write w s = Ok ((), t)" "tx_ok d m t" "m \<le> Suc n"
    "bview t = (bview s)(b := f (bview s b))" "dtrace t = dtrace s" "klog t = (klog s)\<lparr>l_lh := l_lh (klog t)\<rparr>"
    "myproc t = myproc s"
    using tx_write_ok[OF Cons.prems(1) n, of b f] Cons.prems(3,4) w by auto
  have "l_start (klog t) = l_start (klog s)" by (subst t(6)) simp
  then have "log_area t = log_area s" by (simp add: log_area_def)
  then obtain u k where u: "kforeach tx_write ws t = Ok ((), u)" "tx_ok d k u" "k \<le> m + length ws"
    "bview u = tx_effect ws (bview t)" "dtrace u = dtrace t" "klog u = (klog t)\<lparr>l_lh := l_lh (klog u)\<rparr>"
    "myproc u = myproc t"
    using Cons.IH[OF t(2)] Cons.prems(2,3,4) t(3) by auto
  have "klog u = (klog s)\<lparr>l_lh := l_lh (klog u)\<rparr>" by (subst u(6), subst t(6)) simp
  then show ?case
    using t u w by (intro exI[of _ u] exI[of _ k]) (simp add: kseq_Ok tx_effect_def)
qed

subsection \<open>A whole transaction\<close>

text \<open>No operation is in progress and nothing is in the log.\<close>

definition log_quiet :: "'a kfs_scheme \<Rightarrow> bool" where
  "log_quiet s \<longleftrightarrow> fresh s \<and> lh_n (l_lh (klog s)) = 0 \<and> l_size (klog s) = of_nat LOGSIZE \<and>
     l_outstanding (klog s) = 0 \<and> \<not> l_committing (klog s) \<and> hdr_count (disk s (l_start (klog s))) = 0"

lemma upd_log_frame [simp]:
  "bufs (upd_log f s) = bufs s" "disk (upd_log f s) = disk s" "dtrace (upd_log f s) = dtrace s" "sb (upd_log f s) = sb s"
  "itable (upd_log f s) = itable s" "procs (upd_log f s) = procs s" "cpus (upd_log f s) = cpus s" "hart (upd_log f s) = hart s"
  "klog (upd_log f s) = f (klog s)"
  by (simp_all add: upd_log_def)

lemmas upd_log_cache [simp] = cache_frame[of "upd_log f s" s for f s, OF upd_log_frame(1-3,6-8)]

lemma begin_op_ok:
  assumes q: "log_quiet s"
  shows "\<exists>t. begin_op s = Ok ((), t) \<and> tx_ok (disk s) 0 t \<and> bview t = disk s \<and> dtrace t = dtrace s \<and>
    klog t = (klog s)\<lparr>l_outstanding := 1\<rparr> \<and> myproc t = myproc s"
proof -
  have f: "fresh s" using q by (simp add: log_quiet_def)
  note d = freshD[OF f]
  let ?t = "upd_log (\<lambda>l. l\<lparr>l_outstanding := l_outstanding l + 1\<rparr>) s"
  have c: "cabs ?t = cabs s" by simp
  note e = cabs_eqD[OF c, simplified]
  have "begin_op s = Ok ((), ?t)" using q by (simp add: begin_op_def log_quiet_def)
  moreover have "tx_ok (disk s) 0 ?t"
    unfolding tx_ok_def using q d e by (simp add: log_quiet_def logged_def)
  ultimately show ?thesis using q d e by (simp add: log_quiet_def)
qed

text \<open>
  Every prefix of the writes \<open>tr\<close> leaves a disk that recovers to the contents \<open>old\<close> or to the
  contents \<open>new\<close>, outside the log.
\<close>

definition all_or_nothing ::
    "uint \<Rightarrow> (uint \<Rightarrow> uchar list) \<Rightarrow> (uint \<times> uchar list) list \<Rightarrow> (uint \<Rightarrow> uchar list) \<Rightarrow> bool" where
  "all_or_nothing start old tr new \<longleftrightarrow> (\<forall>k. hdr_ok start (apply_writes (take k tr) old) \<and>
     ((\<forall>b. b \<notin> area start \<longrightarrow> recovered start (apply_writes (take k tr) old) b = old b) \<or>
      (\<forall>b. b \<notin> area start \<longrightarrow> recovered start (apply_writes (take k tr) old) b = new b)))"

lemma tx_log_ready:
  assumes tx: "tx_ok d n s" and n: "n \<le> 29" and t: "t = upd_log f s"
    and f: "l_lh (f (klog s)) = l_lh (klog s)" "l_start (f (klog s)) = l_start (klog s)" "l_dev (f (klog s)) = l_dev (klog s)"
  shows "log_ready n t" "home_addr t = home_addr s" "log_area t = log_area s"
proof -
  note d = tx_okD[OF tx]
  show a: "home_addr t = home_addr s" "log_area t = log_area s"
    using f t by (simp_all add: home_addr_def log_area_def fun_eq_iff)
  have c: "cabs t = cabs s" using t by simp
  note e = cabs_eqD[OF c, simplified]
  have "inuse t = inuse s" using e(2) by (simp add: inuse_def)
  then have "card (inuse t) = n" using tx_inuse[OF tx] by metis
  moreover have "\<forall>i<n. home_addr s i \<notin> log_area s" using d(10) by (auto simp: logged_def)
  ultimately show "log_ready n t"
    unfolding log_ready_def using d(1,2,3,4,9,11,12) e a n t f by simp
qed

lemma home_writes_view:
  assumes tx: "tx_ok d n s"
  shows "apply_writes (home_writes s n) d b = bview s b"
proof (cases "b \<in> logged s n")
  case True
  then obtain t where t: "t < n" "b = home_addr s t" by (auto simp: logged_def)
  have "inj_on (home_addr s) (set [0..<n])" using tx_okD(9)[OF tx] by (simp add: atLeast0LessThan)
  then show ?thesis unfolding home_writes_def t(2) using t(1) by (intro apply_writes_map) simp_all
next
  case False
  then have "b \<notin> fst ` set (home_writes s n)" by (auto simp: home_writes_def logged_def)
  then show ?thesis using tx_okD(13)[OF tx False] by (simp add: apply_writes_other)
qed

lemma commit_in_tx:
  assumes tx: "tx_ok d n s" and n: "n \<le> 29" and z: "hdr_count (d (l_start (klog s))) = 0"
  defines "t \<equiv> upd_log (\<lambda>l. l\<lparr>l_committing := True\<rparr>) (upd_log (\<lambda>l. l\<lparr>l_outstanding := l_outstanding l - 1\<rparr>) s)"
    and "start \<equiv> l_start (klog s)"
  shows "\<exists>u tr. commit t = Ok ((), u) \<and> cache_ok u \<and> klog u = (klog s)\<lparr>l_outstanding := 0, l_committing := True,
      l_lh := (l_lh (klog s))\<lparr>lh_n := 0\<rparr>\<rparr> \<and> myproc u = myproc s \<and> (\<forall>b. bref u b = 0) \<and> dtrace u = dtrace s @ tr \<and>
    disk u = apply_writes tr d \<and> hdr_count (disk u start) = 0 \<and> (\<forall>b. b \<notin> area start \<longrightarrow> disk u b = bview s b) \<and>
    all_or_nothing start d tr (bview s)"
proof -
  note d = tx_okD[OF tx]
  let ?f = "\<lambda>l. l\<lparr>l_outstanding := l_outstanding l - 1, l_committing := True\<rparr>"
  have t: "t = upd_log ?f s" by (simp add: t_def upd_log_def)
  have kt: "klog t = (klog s)\<lparr>l_outstanding := 0, l_committing := True\<rparr>" using d(7) by (simp add: t)
  note r = tx_log_ready[OF tx n t]
  have rdy: "log_ready n t" "home_addr t = home_addr s" "log_area t = log_area s" using r by simp_all
  have ct: "cabs t = cabs s" by (simp add: t)
  note e = cabs_eqD[OF ct, simplified]
  have st: "l_start (klog t) = start" by (simp add: kt start_def)
  have hw: "home_writes t n = home_writes s n" using rdy(2) e(1) by (simp add: home_writes_def)
  show ?thesis
  proof (cases "n = 0")
    case True
    have v: "bview s b = d b" for b using d(13)[of b] True by (simp add: logged_def)
    have "commit t = Ok ((), t)" using d(5) True by (simp add: commit_def kt)
    moreover have "recovered start d b = d b" if "b \<notin> area start" for b
      using recovered_empty[of d start b] z that area_start[of start] by (auto simp: start_def)
    then have "all_or_nothing start d [] (bview s)" using z by (simp add: all_or_nothing_def hdr_ok_def start_def)
    moreover have "klog t = (klog s)\<lparr>l_outstanding := 0, l_committing := True, l_lh := (l_lh (klog s))\<lparr>lh_n := 0\<rparr>\<rparr>"
      using kt d(5) True by simp
    ultimately show ?thesis
      using log_readyD(1)[OF rdy(1)] d(12,14) e v z True
      by (intro exI[of _ t] exI[of _ "[]"]) (simp add: t logged_def start_def)
  next
    case False
    have pin: "\<forall>i<n. bref t (home_addr t i) \<noteq> 0" using d(12) e rdy(2) by (simp add: logged_def)
    have lhn: "lh_n (l_lh (klog t)) = word_of_nat n" using d(5) kt by simp
    obtain u where u: "commit t = Ok ((), u)" "cache_ok u" "klog u = (klog t)\<lparr>l_lh := (l_lh (klog t))\<lparr>lh_n := 0\<rparr>\<rparr>"
      "myproc u = myproc t"
      "cabs u = (cabs t)\<lparr>c_ref := unpinned False t n, c_view := apply_writes (commit_writes t n) (bview t),
        c_disk := apply_writes (commit_writes t n) (disk t), c_trace := dtrace t @ commit_writes t n\<rparr>"
      using commit_ok[OF rdy(1) _ lhn pin] False by auto
    note eu = cabs_eqD[OF u(5), simplified, unfolded e]
    let ?tr = "commit_writes t n"
    have "bref u b = 0" for b using eu(2) d(12)[of b] e(2) rdy(2) by (simp add: unpinned_def logged_def)
    moreover have cd: "crash_disk t n k = apply_writes (take k ?tr) d" for k
      using e(4) d(14) by (simp add: crash_disk_def)
    have full: "disk u = crash_disk t n (length ?tr)" using cd[of "length ?tr"] eu d(14) by simp
    have old: "hdr_ok start (crash_disk t n k)" "b \<notin> area start \<Longrightarrow> recovered start (crash_disk t n k) b = d b"
      if "k \<le> n" for k b
      using crash_before_header[OF rdy(1) that] z st e(4) d(14) by (simp_all add: start_def)
    have new: "hdr_ok start (crash_disk t n k)" "b \<notin> area start \<Longrightarrow> recovered start (crash_disk t n k) b = bview s b"
      if "n < k" for k b
      using crash_after_header[OF rdy(1) that] st e(4) d(14) home_writes_view[OF tx] hw by simp_all
    have "all_or_nothing start d ?tr (bview s)"
      unfolding all_or_nothing_def cd[symmetric] using old new by (metis not_le)
    moreover have hz: "hdr_count (disk u start) = 0"
      using eu(4) hdr_commit_header(3)[OF rdy(1)] st by (simp add: commit_writes_def apply_writes_append)
    moreover have "disk u b = bview s b" if b: "b \<notin> area start" for b
    proof -
      have "b \<noteq> start" using b area_start by auto
      then have "recovered start (disk u) b = disk u b" by (rule recovered_empty[of "disk u" start b, OF hz])
      moreover have "n < length ?tr" by (simp add: commit_writes_def log_writes_def)
      ultimately show ?thesis using new(2)[of "length ?tr" b] b full by simp
    qed
    ultimately show ?thesis
      using u(1,2,3,4) eu d(14) kt by (intro exI[of _ u] exI[of _ ?tr]) (simp add: t)
  qed
qed

lemma end_op_ok:
  assumes tx: "tx_ok d n s" and n: "n \<le> 29" and z: "hdr_count (d (l_start (klog s))) = 0"
  defines "start \<equiv> l_start (klog s)"
  shows "\<exists>u tr. end_op s = Ok ((), u) \<and> log_quiet u \<and> l_start (klog u) = start \<and> dtrace u = dtrace s @ tr \<and>
    disk u = apply_writes tr d \<and> (\<forall>b. b \<notin> area start \<longrightarrow> disk u b = bview s b) \<and> all_or_nothing start d tr (bview s)"
proof -
  note d = tx_okD[OF tx]
  let ?t = "upd_log (\<lambda>l. l\<lparr>l_committing := True\<rparr>) (upd_log (\<lambda>l. l\<lparr>l_outstanding := l_outstanding l - 1\<rparr>) s)"
  obtain u tr where u: "commit ?t = Ok ((), u)" "cache_ok u"
    "klog u = (klog s)\<lparr>l_outstanding := 0, l_committing := True, l_lh := (l_lh (klog s))\<lparr>lh_n := 0\<rparr>\<rparr>"
    "myproc u = myproc s" "\<forall>b. bref u b = 0" "dtrace u = dtrace s @ tr" "disk u = apply_writes tr d"
    "hdr_count (disk u start) = 0" "\<forall>b. b \<notin> area start \<longrightarrow> disk u b = bview s b" "all_or_nothing start d tr (bview s)"
    using commit_in_tx[OF tx n z] unfolding start_def by blast
  let ?u = "upd_log (\<lambda>l. l\<lparr>l_committing := False\<rparr>) u"
  let ?v = "wakeup (Some ChanLog) ?u"
  have run: "end_op s = Ok ((), ?v)" using u(1) d(7,8) by (simp add: end_op_def Let_def kseq_Ok)
  have ou: "cache_ok ?u" using u(2) by simp
  note w = wakeup_cache[OF ou, of "Some ChanLog"] and k = keepsD[OF wakeup_cache(2)[OF ou, of "Some ChanLog"]]
  have c: "cabs ?v = cabs u" using w(4) by simp
  note e = cabs_eqD[OF c, simplified]
  have kv: "klog ?v = (klog s)\<lparr>l_outstanding := 0, l_committing := False, l_lh := (l_lh (klog s))\<lparr>lh_n := 0\<rparr>\<rparr>"
    using k(1) u(3) by simp
  have "log_quiet ?v"
    unfolding log_quiet_def fresh_def using w(1) k(4) u(4,5,8) d(2,3,4,6) e kv by (simp add: start_def)
  then show ?thesis using run u(6,7,9,10) e kv by (intro exI[of _ ?v] exI[of _ tr]) (simp add: start_def)
qed

text \<open>A transaction of at most 29 updates, from a quiet state, and every crash during it.\<close>

lemma transaction_ok:
  assumes q: "log_quiet s" and len: "length ws \<le> 29"
    and ws: "\<forall>(b, f)\<in>set ws. b \<notin> log_area s" "\<forall>(b, f)\<in>set ws. \<forall>x. length x = BSIZE \<longrightarrow> length (f x) = BSIZE"
  defines "start \<equiv> l_start (klog s)"
  shows "\<exists>u tr. transaction ws s = Ok ((), u) \<and> log_quiet u \<and> l_start (klog u) = start \<and> dtrace u = dtrace s @ tr \<and>
    disk u = apply_writes tr (disk s) \<and> (\<forall>b. b \<notin> area start \<longrightarrow> disk u b = tx_effect ws (disk s) b) \<and>
    all_or_nothing start (disk s) tr (tx_effect ws (disk s))"
proof -
  obtain t where t: "begin_op s = Ok ((), t)" "tx_ok (disk s) 0 t" "bview t = disk s" "dtrace t = dtrace s"
    "klog t = (klog s)\<lparr>l_outstanding := 1\<rparr>"
    using begin_op_ok[OF q] by blast
  have a: "log_area t = log_area s" using t(5) by (simp add: log_area_def)
  obtain u m where u: "kforeach tx_write ws t = Ok ((), u)" "tx_ok (disk s) m u" "m \<le> length ws"
    "bview u = tx_effect ws (bview t)" "dtrace u = dtrace t" "klog u = (klog t)\<lparr>l_lh := l_lh (klog u)\<rparr>"
    using tx_loop[OF t(2), of ws] len ws a by auto
  have m: "m \<le> 29" using u(3) len by simp
  have st: "l_start (klog u) = start" by (subst u(6)) (simp add: t(5) start_def)
  have z: "hdr_count (disk s (l_start (klog u))) = 0" using q st by (simp add: log_quiet_def start_def)
  obtain v tr where v: "end_op u = Ok ((), v)" "log_quiet v" "l_start (klog v) = start" "dtrace v = dtrace u @ tr"
    "disk v = apply_writes tr (disk s)" "\<forall>b. b \<notin> area start \<longrightarrow> disk v b = bview u b"
    "all_or_nothing start (disk s) tr (bview u)"
    using end_op_ok[OF u(2) m z] st by auto
  have "transaction ws s = Ok ((), v)" using t(1) u(1) v(1) by (simp add: transaction_def kseq_Ok)
  then show ?thesis using v u(4,5) t(3,4) by auto
qed

text \<open>Recovering a disk that satisfies \<open>all_or_nothing\<close>, by the code.\<close>

lemma all_or_nothing_recover:
  assumes a: "all_or_nothing start old tr new" and v: "fresh v" "l_start (klog v) = start"
    and d: "disk v = apply_writes (take k tr) old"
  shows "\<exists>w. recover_from_log v = Ok ((), w) \<and> fresh w \<and>
    ((\<forall>b. b \<notin> area start \<longrightarrow> disk w b = old b) \<or> (\<forall>b. b \<notin> area start \<longrightarrow> disk w b = new b))"
proof -
  have h: "hdr_ok start (disk v)" and r: "(\<forall>b. b \<notin> area start \<longrightarrow> recovered start (disk v) b = old b) \<or>
      (\<forall>b. b \<notin> area start \<longrightarrow> recovered start (disk v) b = new b)"
    using a unfolding all_or_nothing_def d by blast+
  obtain w where "recover_from_log v = Ok ((), w)" "fresh w" "disk w = recovered start (disk v)"
    using recover_from_log_ok[OF v(1) h v(2)[symmetric]] by blast
  then show ?thesis using r by metis
qed

lemma fold_frame:
  assumes "\<And>b t. g (f b t) = g t"
  shows "g (fold f bs s) = g s"
  by (induction bs arbitrary: s) (simp_all add: assms)

lemma binit_frame [simp]: "klog (binit s) = klog s" "disk (binit s) = disk s" "dtrace (binit s) = dtrace s"
  unfolding binit_def
  by (subst fold_frame[where g = klog] fold_frame[where g = disk] fold_frame[where g = dtrace],
      simp_all add: bufs_push_front_def Let_def)+

text \<open>Block numbers that lie behind the log.\<close>

lemma area_far:
  assumes "unat start + LOGSIZE \<le> unat b"
  shows "b \<notin> area start"
proof
  assume "b \<in> area start"
  then obtain k where k: "b = start + word_of_nat k" "k < LOGSIZE" by (auto simp: area_def)
  have "unat b \<le> unat start + unat (word_of_nat k :: uint)" unfolding k(1) unat_word_ariths by (rule mod_less_eq_dividend)
  then show False using k(2) assms by simp
qed

subsection \<open>Properties\<close>

text \<open>
  C1. A transaction is atomic: one of at most 29 block updates, started while no other is open and the log is empty,
  succeeds, its updates are on the disk afterwards and the log is empty again; and if the machine stops after any number \<open>k\<close> of its disk writes, the recovery of the next
  boot succeeds and leaves, outside the log, either the disk as it was or the disk with every update.
\<close>

theorem transaction_atomic:
  assumes "log_quiet s" and "length ws \<le> 29" and "\<forall>(b, f)\<in>set ws. b \<notin> log_area s"
    and "\<forall>(b, f)\<in>set ws. \<forall>x. length x = BSIZE \<longrightarrow> length (f x) = BSIZE"
  shows "\<exists>u tr. transaction ws s = Ok ((), u) \<and> log_quiet u \<and> dtrace u = dtrace s @ tr \<and>
    disk u = apply_writes tr (disk s) \<and> (\<forall>b. b \<notin> log_area s \<longrightarrow> disk u b = tx_effect ws (disk s) b) \<and>
    (\<forall>k v. fresh v \<and> l_start (klog v) = l_start (klog s) \<and> disk v = apply_writes (take k tr) (disk s) \<longrightarrow>
      (\<exists>w. recover_from_log v = Ok ((), w) \<and> fresh w \<and>
        ((\<forall>b. b \<notin> log_area s \<longrightarrow> disk w b = disk s b) \<or>
         (\<forall>b. b \<notin> log_area s \<longrightarrow> disk w b = tx_effect ws (disk s) b))))"
proof -
  obtain u tr where "transaction ws s = Ok ((), u)" "log_quiet u" "dtrace u = dtrace s @ tr"
    "disk u = apply_writes tr (disk s)" "\<forall>b. b \<notin> area (l_start (klog s)) \<longrightarrow> disk u b = tx_effect ws (disk s) b"
    and a: "all_or_nothing (l_start (klog s)) (disk s) tr (tx_effect ws (disk s))"
    using transaction_ok[OF assms] by blast
  then show ?thesis
    using all_or_nothing_recover[OF a] unfolding log_area_eq by (intro exI[of _ u] exI[of _ tr]) blast
qed

text \<open>A kernel with an empty cache and an empty log on a blank disk, running its first process.\<close>

definition example_bss :: kfile where
  "example_bss = (kernel_bss 1 example_kmem (\<lambda>_. replicate BSIZE 0))
     \<lparr>cpus := [cpu_zero\<lparr>c_proc := Some 0\<rparr>], klog := log_zero\<lparr>l_start := 2, l_size := 30, l_dev := 1\<rparr>\<rparr>"

lemma example_bss_facts:
  "bss_bufs example_bss" "kproc_ok example_bss" "myproc example_bss = Some 0"
  "disk example_bss = (\<lambda>_. replicate BSIZE 0)" "klog example_bss = log_zero\<lparr>l_start := 2, l_size := 30, l_dev := 1\<rparr>"
  by (simp_all add: bss_bufs_def example_bss_def kernel_bss_def buf_at_def buf_zero_def kproc_ok_def hart_ok_def
        kproc_boot_def myproc_def mycpu_def cpuid_def)

lemmas example_binit = binit_ok[OF example_bss_facts(1,2)]

lemma example_fs_quiet: "log_quiet (binit example_bss)"
proof -
  have c: "cache_ok (binit example_bss)" "bref (binit example_bss) blk = 0" for blk
    using example_binit(1,2) example_bss_facts by simp_all
  obtain bs where bs: "binit example_bss = example_bss\<lparr>bufs := bs\<rparr>" using example_binit(3) example_bss_facts by auto
  have "myproc (binit example_bss) = Some 0"
    unfolding bs using example_bss_facts(3) by (simp add: myproc_def mycpu_def cpuid_def)
  moreover have "hdr_count (replicate BSIZE 0) = 0" by (simp add: hdr_count_def hdr_n_def numeral_eq_Suc)
  ultimately show ?thesis using c example_bss_facts(4,5) by (simp add: log_quiet_def fresh_def log_zero_def)
qed

theorem transaction_atomic_witness:
  "\<exists>u. transaction [(50, \<lambda>_. replicate BSIZE 1), (60, \<lambda>_. replicate BSIZE 2)] (binit example_bss) = Ok ((), u) \<and>
     disk u 50 = replicate BSIZE 1 \<and> disk u 60 = replicate BSIZE 2 \<and> log_quiet u"
proof -
  let ?ws = "[(50, \<lambda>_. replicate BSIZE 1), (60, \<lambda>_. replicate BSIZE 2)]"
  have st: "log_area (binit example_bss) = area 2" by (simp add: log_area_eq example_bss_def)
  have "(50 :: uint) \<notin> area 2" "(60 :: uint) \<notin> area 2" by (rule area_far; simp)+
  then show ?thesis
    using transaction_atomic[OF example_fs_quiet, of ?ws] by (auto simp: st tx_effect_def)
qed

text \<open>
  C3. A crash during recovery is harmless: whatever prefix of recovery's disk writes was performed,
  the recovery of the next boot succeeds and leaves the same blocks, except for the log's header.
\<close>

theorem recovery_restartable:
  assumes "fresh s" and "hdr_ok (l_start (klog s)) (disk s)"
  shows "\<exists>u tr. recover_from_log s = Ok ((), u) \<and> dtrace u = dtrace s @ tr \<and> disk u = apply_writes tr (disk s) \<and>
    (\<forall>k v. fresh v \<and> l_start (klog v) = l_start (klog s) \<and> disk v = apply_writes (take k tr) (disk s) \<longrightarrow>
      (\<exists>w. recover_from_log v = Ok ((), w) \<and> (\<forall>b. b \<noteq> l_start (klog s) \<longrightarrow> disk w b = disk u b)))"
proof -
  let ?st = "l_start (klog s)" and ?tr = "recovery_writes (l_start (klog s)) (disk s)"
  obtain u where u: "recover_from_log s = Ok ((), u)" "disk u = recovered ?st (disk s)" "dtrace u = dtrace s @ ?tr"
    using recover_from_log_ok[OF assms refl] by blast
  have len: "4 \<le> length (disk s ?st)" using cache_okD(4)[OF freshD(1)[OF assms(1)], of ?st] by simp
  have "\<exists>w. recover_from_log v = Ok ((), w) \<and> (\<forall>b. b \<noteq> ?st \<longrightarrow> disk w b = disk u b)"
    if v: "fresh v" "l_start (klog v) = ?st" "disk v = apply_writes (take k ?tr) (disk s)" for k v
  proof -
    note r = recovery_restart[where k = k, OF assms(2) len, folded v(3)]
    obtain w where "recover_from_log v = Ok ((), w)" "disk w = recovered ?st (disk v)"
      using recover_from_log_ok[OF v(1) r(1) v(2)[symmetric]] by blast
    then show ?thesis using r(2) u(2) by metis
  qed
  then show ?thesis using u u(2)[unfolded recovered_def] by blast
qed

text \<open>The disk after a crash that came behind the commit point of a transaction on the blocks 50 and 60, and behind \<open>k\<close> steps of its recovery.\<close>

definition crashed_disk :: "nat \<Rightarrow> uint \<Rightarrow> uchar list" where
  "crashed_disk k = apply_writes (take k [(50, replicate BSIZE 1), (60, replicate BSIZE 2)])
     ((\<lambda>_. replicate BSIZE 0)(2 := header_bytes 2 [50, 60] (replicate BSIZE 0), 3 := replicate BSIZE 1, 4 := replicate BSIZE 2))"

lemma crashed_disk_2 [simp]: "crashed_disk k 2 = header_bytes 2 [50, 60] (replicate BSIZE 0)"
  by (cases k; cases "k - 1") (simp_all add: crashed_disk_def take_Cons')

lemma length_crashed_disk: "length (crashed_disk k b) = BSIZE"
  by (cases k; cases "k - 1") (auto simp: crashed_disk_def header_bytes_def take_Cons')

lemma example_crashed_fresh: "fresh (binit (example_bss\<lparr>disk := crashed_disk k\<rparr>))" (is "fresh (binit ?s)")
proof -
  have f: "bss_bufs ?s" "kproc_ok ?s" "myproc ?s = Some 0" using example_bss_facts
    by (simp_all add: bss_bufs_def buf_at_def kproc_ok_def hart_ok_def myproc_def mycpu_def cpuid_def)
  note b = binit_ok[OF f(1,2), unfolded f(3)]
  obtain bs where bs: "binit ?s = ?s\<lparr>bufs := bs\<rparr>" using b(3) by (auto simp: length_crashed_disk)
  have "myproc (binit ?s) = Some 0" unfolding bs using f(3) by (simp add: myproc_def mycpu_def cpuid_def)
  then show ?thesis using b(1,2) example_bss_facts(5) by (simp add: fresh_def length_crashed_disk log_zero_def)
qed

lemma example_crashed_state:
  "l_start (klog (binit (example_bss\<lparr>disk := crashed_disk k\<rparr>))) = 2" "disk (binit (example_bss\<lparr>disk := crashed_disk k\<rparr>)) = crashed_disk k"
proof -
  let ?s = "example_bss\<lparr>disk := crashed_disk k\<rparr>"
  have "bss_bufs ?s" "kproc_ok ?s" "myproc ?s = Some 0" using example_bss_facts
    by (simp_all add: bss_bufs_def buf_at_def kproc_ok_def hart_ok_def myproc_def mycpu_def cpuid_def)
  then obtain bs where "binit ?s = ?s\<lparr>bufs := bs\<rparr>" using binit_ok(3)[of ?s] by (auto simp: length_crashed_disk)
  then show "l_start (klog (binit ?s)) = 2" "disk (binit ?s) = crashed_disk k" using example_bss_facts(5) by simp_all
qed

lemma crashed_hdr: "hdr_count (crashed_disk k 2) = 2" "hdr_block (crashed_disk k 2) 0 = 50" "hdr_block (crashed_disk k 2) 1 = 60"
  using hdr_header_bytes[of 2 "[50, 60]" "replicate BSIZE 0"] by simp_all

lemma crashed_hdr_ok: "hdr_ok 2 (crashed_disk k)"
proof -
  have "(50 :: uint) \<notin> area 2" "(60 :: uint) \<notin> area 2" by (rule area_far; simp)+
  moreover have "{..<2} = {0, 1 :: nat}" by auto
  ultimately show ?thesis using crashed_hdr[of k] by (auto simp: hdr_ok_def less_2_cases_iff)
qed

text \<open>The recovery installs both blocks, and so does the one after a crash between the two.\<close>

theorem recovery_restartable_witness:
  "\<exists>u w. recover_from_log (binit (example_bss\<lparr>disk := crashed_disk 0\<rparr>)) = Ok ((), u) \<and>
     recover_from_log (binit (example_bss\<lparr>disk := crashed_disk 1\<rparr>)) = Ok ((), w) \<and>
     crashed_disk 1 60 = replicate BSIZE 0 \<and> disk u 60 = replicate BSIZE 2 \<and> disk w 50 = replicate BSIZE 1 \<and> disk w 60 = replicate BSIZE 2"
proof -
  let ?s = "\<lambda>k. binit (example_bss\<lparr>disk := crashed_disk k\<rparr>)"
  note st = example_crashed_state
  have h: "hdr_ok (l_start (klog (?s k))) (disk (?s k))" for k unfolding st by (rule crashed_hdr_ok)
  obtain u tr where u: "recover_from_log (?s 0) = Ok ((), u)" "dtrace u = dtrace (?s 0) @ tr" "disk u = apply_writes tr (crashed_disk 0)"
    "\<forall>k (v :: kfile). fresh v \<and> l_start (klog v) = 2 \<and> disk v = apply_writes (take k tr) (crashed_disk 0) \<longrightarrow>
      (\<exists>w. recover_from_log v = Ok ((), w) \<and> (\<forall>b. b \<noteq> 2 \<longrightarrow> disk w b = disk u b))"
    using recovery_restartable[OF example_crashed_fresh h, of 0] unfolding st by blast
  have at: "crashed_disk 0 3 = replicate BSIZE 1" "crashed_disk 0 4 = replicate BSIZE 2" by (simp_all add: crashed_disk_def)
  have "dtrace u = dtrace (?s 0) @ recovery_writes 2 (crashed_disk 0)"
    using recover_from_log_ok[OF example_crashed_fresh h refl, of 0] u(1) unfolding st by auto
  then have tr: "tr = [(50, replicate BSIZE 1), (60, replicate BSIZE 2), (2, header_bytes 0 [] (crashed_disk 0 2))]"
    using u(2) crashed_hdr[of 0] at by (simp add: recovery_writes_def install_list_def numeral_2_eq_2)
  have "crashed_disk 1 = apply_writes (take 1 tr) (crashed_disk 0)" by (simp add: tr crashed_disk_def)
  then obtain w where "recover_from_log (?s 1) = Ok ((), w)" "\<forall>b. b \<noteq> 2 \<longrightarrow> disk w b = disk u b"
    using u(4)[rule_format, of "?s 1" 1] example_crashed_fresh[of 1] unfolding st by blast
  moreover have "disk u 50 = replicate BSIZE 1" "disk u 60 = replicate BSIZE 2" using u(3) by (simp_all add: tr)
  moreover have "crashed_disk 1 60 = replicate BSIZE 0" by (simp add: crashed_disk_def)
  ultimately show ?thesis using u(1) by (intro exI[of _ u] exI[of _ w]) simp
qed

end
