(* ===== verification/Xv6_Cachespec.thy ===== *)
theory Xv6_Cachespec
  imports Xv6_Transaction
begin

section \<open>The buffer cache and the log against their specifications\<close>

text \<open>
  A sequence of cache operations of one process refines the same sequence on the abstract cache, in
  which a block has contents, a reference count and an owner, and there are no buffers. The buffers
  themselves are recycled in the order of their last release. The last part is the admission of
  operations to the log.
\<close>

subsection \<open>Sequences of cache operations\<close>

datatype cop = Read uint | Change uint "uchar list" | Write uint | Release uint | Pin uint | Unpin uint

text \<open>What a process with the given pid may do, and its effect on the abstract cache.\<close>

fun cspec :: "cint \<Rightarrow> cop \<Rightarrow> cstate \<Rightarrow> cstate option" where
  "cspec pid (Read b) c =
     (if c_own c b = None \<and> c_ref c b + 1 < 2 ^ 32 \<and> (c_ref c b \<noteq> 0 \<or> card {a. c_ref c a \<noteq> 0} < NBUF)
      then Some (c\<lparr>c_ref := (c_ref c)(b := c_ref c b + 1), c_own := (c_own c)(b := Some pid)\<rparr>) else None)"
| "cspec pid (Change b d) c =
     (if c_own c b = Some pid \<and> length d = BSIZE then Some (c\<lparr>c_view := (c_view c)(b := d)\<rparr>) else None)"
| "cspec pid (Write b) c =
     (if c_own c b = Some pid
      then Some (c\<lparr>c_disk := (c_disk c)(b := c_view c b), c_trace := c_trace c @ [(b, c_view c b)]\<rparr>) else None)"
| "cspec pid (Release b) c =
     (if c_own c b = Some pid \<and> (c_ref c b = 1 \<longrightarrow> c_view c b = c_disk c b)
      then Some (c\<lparr>c_ref := (c_ref c)(b := c_ref c b - 1), c_own := (c_own c)(b := None)\<rparr>) else None)"
| "cspec pid (Pin b) c =
     (if c_own c b = Some pid \<and> c_ref c b + 1 < 2 ^ 32
      then Some (c\<lparr>c_ref := (c_ref c)(b := c_ref c b + 1)\<rparr>) else None)"
| "cspec pid (Unpin b) c =
     (if c_own c b = Some pid \<and> 1 < c_ref c b then Some (c\<lparr>c_ref := (c_ref c)(b := c_ref c b - 1)\<rparr>) else None)"

fun cspecs :: "cint \<Rightarrow> cop list \<Rightarrow> cstate \<Rightarrow> cstate option" where
  "cspecs pid [] c = Some c"
| "cspecs pid (a # as) c = (case cspec pid a c of None \<Rightarrow> None | Some d \<Rightarrow> cspecs pid as d)"

text \<open>The same operations on the buffers; \<open>h\<close> holds the buffer pointers that \<open>bread\<close> returned.\<close>

definition with_buf :: "(uint \<rightharpoonup> nat) \<Rightarrow> uint \<Rightarrow> (nat \<Rightarrow> 's kres) \<Rightarrow> 's kres" where
  "with_buf h b f = (case h b of None \<Rightarrow> Panic ''kerneltrap'' | Some i \<Rightarrow> f i)"

fun cexec :: "cop \<Rightarrow> (uint \<rightharpoonup> nat) \<times> 'a kfs_scheme \<Rightarrow> ((uint \<rightharpoonup> nat) \<times> 'a kfs_scheme) kres" where
  "cexec (Read b) (h, s) = kbind (bread ROOTDEV b s) (\<lambda>(i, t). Ok (h(b \<mapsto> i), t))"
| "cexec (Change b d) (h, s) = with_buf h b (\<lambda>i. Ok (h, upd_buf i (\<lambda>x. x\<lparr>b_data := d\<rparr>) s))"
| "cexec (Write b) (h, s) = with_buf h b (\<lambda>i. kbind (bwrite i s) (\<lambda>(_, t). Ok (h, t)))"
| "cexec (Release b) (h, s) = with_buf h b (\<lambda>i. kbind (brelse i s) (\<lambda>(_, t). Ok (h(b := None), t)))"
| "cexec (Pin b) (h, s) = with_buf h b (\<lambda>i. Ok (h, bpin i s))"
| "cexec (Unpin b) (h, s) = with_buf h b (\<lambda>i. Ok (h, bunpin i s))"

fun cexecs :: "cop list \<Rightarrow> (uint \<rightharpoonup> nat) \<times> 'a kfs_scheme \<Rightarrow> ((uint \<rightharpoonup> nat) \<times> 'a kfs_scheme) kres" where
  "cexecs [] z = Ok z"
| "cexecs (a # as) z = kbind (cexec a z) (cexecs as)"

text \<open>The process holds exactly the blocks that it owns.\<close>

definition held :: "(uint \<rightharpoonup> nat) \<Rightarrow> 'a kfs_scheme \<Rightarrow> bool" where
  "held h s \<longleftrightarrow> cache_ok s \<and> myproc s \<noteq> None \<and> (\<forall>b i. h b = Some i \<longrightarrow> bufof s b = Some i) \<and>
     (\<forall>b. h b \<noteq> None \<longleftrightarrow> bown s b = Some (mypid s))"

lemma heldD:
  assumes "held h s"
  shows "cache_ok s" "myproc s \<noteq> None" "h b = Some i \<Longrightarrow> bufof s b = Some i"
    "h b \<noteq> None \<longleftrightarrow> bown s b = Some (mypid s)"
  using assms by (simp_all add: held_def)

lemma held_own:
  assumes "held h s" "bown s b = Some (mypid s)"
  shows "\<exists>i. h b = Some i \<and> bufof s b = Some i" "bref s b \<noteq> 0"
  using assms heldD[OF assms(1)] unreferenced_unowned[of s b] by (fastforce simp: held_def)+

lemma held_later:
  assumes h: "held h s" and t: "cache_ok t" "keeps s t" "bown t = bown s"
  shows "held h t"
proof -
  have "bufof t b = Some i" if "h b = Some i" for b i
  proof -
    have "bown s b = Some (mypid s)" using that heldD(4)[OF h, of b] by simp
    then have "bref s b \<noteq> 0" using held_own(2)[OF h] by blast
    then show ?thesis using keepsD(6)[OF t(2)] heldD(3)[OF h that] by simp
  qed
  then show ?thesis using t keepsD(4,5)[OF t(2)] heldD(2,4)[OF h] by (simp add: held_def)
qed

lemma cexec_Read:
  assumes h: "held h s" and c: "cspec (mypid s) (Read b) (cabs s) = Some c"
  shows "\<exists>g t. cexec (Read b) (h, s) = Ok (g, t) \<and> held g t \<and> cabs t = c \<and> mypid t = mypid s"
proof -
  obtain p where p: "myproc s = Some p" using heldD(2)[OF h] by blast
  have pre: "bown s b = None" "bref s b + 1 < 2 ^ 32" "bref s b \<noteq> 0 \<or> card (inuse s) < NBUF"
    and ceq: "c = (cabs s)\<lparr>c_ref := (bref s)(b := bref s b + 1), c_own := (bown s)(b := Some (mypid s))\<rparr>"
    using c unfolding inuse_def by (auto split: if_splits)
  obtain i t where t: "bread ROOTDEV b s = Ok (i, t)" "cache_ok t" "bufof t b = Some i" "keeps s t" "cabs t = c"
    using bread_ok[OF heldD(1)[OF h] p pre] unfolding ceq by blast
  note e = cabs_eqD[OF t(5)[unfolded ceq], simplified] and k = keepsD[OF t(4)]
  have "bufof t x = Some j" if "(h(b \<mapsto> i)) x = Some j" for x j
  proof (cases "x = b")
    case False
    then have "h x = Some j" using that by simp
    moreover have "bref s x \<noteq> 0" using held_own(2)[OF h, of x] heldD(4)[OF h, of x] \<open>h x = Some j\<close> by simp
    ultimately show ?thesis using k(6) heldD(3)[OF h] by simp
  qed (use that t(3) in simp)
  moreover have "(h(b \<mapsto> i)) x \<noteq> None \<longleftrightarrow> bown t x = Some (mypid t)" for x
    using heldD(4)[OF h, of x] e(3) k(5) by simp
  ultimately have "held (h(b \<mapsto> i)) t" unfolding held_def using t(2) k(4) p by simp
  then show ?thesis using t(1,5) k(5) by (intro exI[of _ "h(b \<mapsto> i)"] exI[of _ t]) simp
qed

lemma cexec_Write:
  assumes h: "held h s" and c: "cspec (mypid s) (Write b) (cabs s) = Some c"
  shows "\<exists>g t. cexec (Write b) (h, s) = Ok (g, t) \<and> held g t \<and> cabs t = c \<and> mypid t = mypid s"
proof -
  obtain p where p: "myproc s = Some p" using heldD(2)[OF h] by blast
  have own: "bown s b = Some (mypid s)"
    and ceq: "c = (cabs s)\<lparr>c_disk := (disk s)(b := bview s b), c_trace := dtrace s @ [(b, bview s b)]\<rparr>"
    using c by (auto split: if_splits)
  obtain i where i: "h b = Some i" "bufof s b = Some i" using held_own(1)[OF h own] by blast
  obtain t where t: "bwrite i s = Ok ((), t)" "cache_ok t" "keeps s t" "cabs t = c"
    using bwrite_ok[OF heldD(1)[OF h] p i(2) own] unfolding ceq by blast
  have "bown t = bown s" using cabs_eqD(3)[OF t(4)] by (simp add: ceq)
  then show ?thesis using held_later[OF h t(2,3)] t(1,4) i(1) keepsD(5)[OF t(3)] by (simp add: with_buf_def)
qed

lemma cexec_Release:
  assumes h: "held h s" and c: "cspec (mypid s) (Release b) (cabs s) = Some c"
  shows "\<exists>g t. cexec (Release b) (h, s) = Ok (g, t) \<and> held g t \<and> cabs t = c \<and> mypid t = mypid s"
proof -
  obtain p where p: "myproc s = Some p" using heldD(2)[OF h] by blast
  have own: "bown s b = Some (mypid s)" and cl: "bref s b = 1 \<Longrightarrow> bview s b = disk s b"
    and ceq: "c = (cabs s)\<lparr>c_ref := (bref s)(b := bref s b - 1), c_own := (bown s)(b := None)\<rparr>"
    using c by (auto split: if_splits)
  obtain i where i: "h b = Some i" "bufof s b = Some i" using held_own(1)[OF h own] by blast
  obtain t where t: "brelse i s = Ok ((), t)" "cache_ok t" "keeps s t" "bufof t = bufof s" "cabs t = c"
    using brelse_ok[OF heldD(1)[OF h] p i(2) own cl] unfolding ceq by blast
  have bt: "bown t = (bown s)(b := None)" using cabs_eqD(3)[OF t(5)] by (simp add: ceq)
  have "held (h(b := None)) t"
    unfolding held_def using t(2,4) keepsD(4,5)[OF t(3)] bt p heldD(3,4)[OF h] by auto
  then show ?thesis using t(1,5) i(1) keepsD(5)[OF t(3)] by (simp add: with_buf_def)
qed

lemma cexec_refines:
  assumes h: "held h s" and c: "cspec (mypid s) a (cabs s) = Some c"
  shows "\<exists>g t. cexec a (h, s) = Ok (g, t) \<and> held g t \<and> cabs t = c \<and> mypid t = mypid s"
proof (cases a)
  case (Change b d)
  have pre: "bown s b = Some (mypid s)" "length d = BSIZE" and ceq: "c = (cabs s)\<lparr>c_view := (bview s)(b := d)\<rparr>"
    using c unfolding Change by (auto split: if_splits)
  obtain i where i: "h b = Some i" "bufof s b = Some i" using held_own(1)[OF h pre(1)] by blast
  note u = upd_data_ok[OF heldD(1)[OF h] i(2) held_own(2)[OF h pre(1)] pre(2)]
  have "bown (upd_buf i (\<lambda>x. x\<lparr>b_data := d\<rparr>) s) = bown s" using cabs_eqD(3)[OF u(4)] by simp
  then show ?thesis using held_later[OF h u(1,2)] u(4) i(1) keepsD(5)[OF u(2)]
    by (simp add: Change with_buf_def ceq)
next
  case (Pin b)
  have pre: "bown s b = Some (mypid s)" "bref s b + 1 < 2 ^ 32" and ceq: "c = (cabs s)\<lparr>c_ref := (bref s)(b := bref s b + 1)\<rparr>"
    using c unfolding Pin by (auto split: if_splits)
  obtain i where i: "h b = Some i" "bufof s b = Some i" using held_own(1)[OF h pre(1)] by blast
  note u = bpin_ok[OF heldD(1)[OF h] i(2) pre(2)]
  have "bown (bpin i s) = bown s" using cabs_eqD(3)[OF u(4)] by simp
  then show ?thesis using held_later[OF h u(1,2)] u(4) i(1) keepsD(5)[OF u(2)] by (simp add: Pin with_buf_def ceq)
next
  case (Unpin b)
  have pre: "bown s b = Some (mypid s)" "1 < bref s b" and ceq: "c = (cabs s)\<lparr>c_ref := (bref s)(b := bref s b - 1)\<rparr>"
    using c unfolding Unpin by (auto split: if_splits)
  obtain i where i: "h b = Some i" "bufof s b = Some i" using held_own(1)[OF h pre(1)] by blast
  note u = bunpin_ok[OF heldD(1)[OF h] i(2) pre(2)]
  have "bown (bunpin i s) = bown s" using cabs_eqD(3)[OF u(4)] by simp
  then show ?thesis using held_later[OF h u(1,2)] u(4) i(1) keepsD(5)[OF u(2)] by (simp add: Unpin with_buf_def ceq)
qed (use cexec_Read[OF h] cexec_Write[OF h] cexec_Release[OF h] c in auto)

lemma cexecs_refines:
  assumes "held h s" and "cspecs (mypid s) as (cabs s) = Some c"
  shows "\<exists>g t. cexecs as (h, s) = Ok (g, t) \<and> held g t \<and> cabs t = c \<and> mypid t = mypid s"
  using assms
proof (induction as arbitrary: h s)
  case (Cons a as)
  obtain d where d: "cspec (mypid s) a (cabs s) = Some d" "cspecs (mypid s) as d = Some c"
    using Cons.prems(2) by (auto split: option.splits)
  obtain g t where t: "cexec a (h, s) = Ok (g, t)" "held g t" "cabs t = d" "mypid t = mypid s"
    using cexec_refines[OF Cons.prems(1) d(1)] by blast
  then show ?case using Cons.IH[OF t(2)] d(2) by auto
qed simp

text \<open>
  C2. The buffer cache refines the abstract cache: any sequence of reads, changes, writes, releases,
  pins and unpins that the specification allows runs without panic or wait, ends in a well-formed
  cache, and has the effect of the specification on contents, reference counts, owners, disk and
  history of disk writes, whatever buffers were recycled on the way.
\<close>

theorem cache_refines_spec:
  assumes "cache_ok s" and "myproc s \<noteq> None" and "\<forall>b. bown s b \<noteq> Some (mypid s)"
    and "cspecs (mypid s) as (cabs s) = Some c"
  shows "\<exists>h t. cexecs as (Map.empty, s) = Ok (h, t) \<and> cache_ok t \<and> cabs t = c \<and>
    (\<forall>b. h b \<noteq> None \<longleftrightarrow> c_own c b = Some (mypid s))"
proof -
  have "held Map.empty s" using assms(1-3) by (simp add: held_def)
  then obtain h t where t: "cexecs as (Map.empty, s) = Ok (h, t)" "held h t" "cabs t = c" "mypid t = mypid s"
    using cexecs_refines assms(4) by blast
  then show ?thesis using heldD(1,4)[OF t(2)] cabs_eqD(3)[OF t(3)] by auto
qed

theorem cache_refines_spec_witness:
  "\<exists>h t. cexecs [Read 7, Change 7 (replicate BSIZE 5), Write 7, Release 7, Read 8] (Map.empty, binit example_bss) = Ok (h, t) \<and>
     cache_ok t \<and> disk t 7 = replicate BSIZE 5 \<and> bview t 7 = replicate BSIZE 5 \<and> dtrace t = [(7, replicate BSIZE 5)]"
proof -
  let ?s = "binit example_bss" and ?as = "[Read 7, Change 7 (replicate BSIZE 5), Write 7, Release 7, Read 8]"
  have f: "fresh ?s" using example_fs_quiet by (simp add: log_quiet_def)
  note d = freshD[OF f]
  obtain c where c: "cspecs (mypid ?s) ?as (cabs ?s) = Some c" "c_disk c 7 = replicate BSIZE 5"
    "c_view c 7 = replicate BSIZE 5" "c_trace c = dtrace ?s @ [(7, replicate BSIZE 5)]"
    using d by (simp add: inuse_def)
  have "dtrace ?s = []" by (simp add: example_bss_def kernel_bss_def)
  moreover obtain h t where "cexecs ?as (Map.empty, ?s) = Ok (h, t)" "cache_ok t" "cabs t = c"
    using cache_refines_spec[OF d(1,2) _ c(1)] d(6) by auto
  ultimately show ?thesis using c(2-4) cabs_eqD[of t c] by auto
qed

subsection \<open>Replacement\<close>

lemma brelse_lru:
  assumes ok: "cache_ok s" and p: "myproc s = Some p" and i: "bufof s blk = Some i"
    and own: "bown s blk = Some (mypid s)" and r: "bref s blk = 1" and l: "lru s order"
  shows "\<exists>t. brelse i s = Ok ((), t) \<and> lru t (i # filter (\<lambda>j. j \<noteq> i) order)"
proof -
  note h = holdingsleep_mine[OF ok p i own]
  have i30: "i < NBUF" using i by (simp add: bufof_iff[OF ok])
  let ?w = "wakeup (Some (ChanBufLock i)) s"
  let ?f = "\<lambda>x. x\<lparr>b_lock := (b_lock (buf_at s i))\<lparr>sl_locked := 0, sl_pid := 0\<rparr>, b_refcnt := b_refcnt x - 1\<rparr>"
  let ?s1 = "upd_buf i ?f ?w"
  note w = wakeup_cache[OF ok, of "Some (ChanBufLock i)"]
  have len: "length (bufs ?w) = 31" by (rule cache_okD(5)[OF w(1)])
  have "lru ?w order" using l by (simp add: lru_def w(5))
  then have l1: "lru ?s1 order" by (intro lru_upd_buf) simp_all
  have "unat (b_refcnt (buf_at s i)) = 1" using r i by (simp add: bref_def)
  then have "b_refcnt (buf_at s i) = 1" by (metis unsigned_1 unsigned_word_eqI)
  then have z: "b_refcnt (buf_at ?s1 i) = 0" using len i30 by (simp add: w(5))
  have "brelse i s = Ok ((), if b_refcnt (buf_at ?s1 i) = 0 then bufs_push_front i (unlink_buf i ?s1) else ?s1)"
    using h(1) len i30 by (simp add: brelse_def releasesleep_def w(5) unlink_buf_def Let_def)
  then show ?thesis using z lru_relink[OF l1 i30] by auto
qed

lemma find_last:
  assumes "order = xs @ i # ys" "P i" "\<forall>j\<in>set ys. \<not> P j"
  shows "find P (rev order) = Some i"
proof -
  have "find P (rev ys) = None" using assms(3) by (simp add: find_None_iff)
  moreover have "find P (as @ bs) = (case find P as of None \<Rightarrow> find P bs | Some x \<Rightarrow> Some x)" for as bs :: "'a list"
    by (induction as) simp_all
  ultimately show ?thesis using assms(1,2) by simp
qed

text \<open>
  C4. Replacement is least recently used: with the buffers in the order of their last release, reading
  a block that is not cached recycles the last buffer that nobody references, fills it from the disk
  and leaves the order alone; releasing it moves it to the front of the order.
\<close>

theorem bread_recycles_lru:
  assumes "cache_ok s" and "myproc s \<noteq> None" and "bufof s blk = None" and "lru s (xs @ i # ys)"
    and "b_refcnt (buf_at s i) = 0" and "\<forall>j\<in>set ys. b_refcnt (buf_at s j) \<noteq> 0"
  shows "\<exists>t u. bread ROOTDEV blk s = Ok (i, t) \<and> lru t (xs @ i # ys) \<and> b_data (buf_at t i) = disk s blk \<and>
    brelse i t = Ok ((), u) \<and> lru u (i # xs @ ys)"
proof -
  note l = lruD[OF assms(4)]
  obtain p where p: "myproc s = Some p" using assms(2) by blast
  have i30: "i < NBUF" using l(4)[of i] by simp
  let ?t = "bread_miss blk i s"
  have r: "bread ROOTDEV blk s = Ok (i, ?t)"
    using bread_miss_eq[OF assms(1,4) p assms(3)] find_last[of _ xs i ys "\<lambda>j. b_refcnt (buf_at s j) = 0"] assms(5,6)
    by simp
  note m = bread_miss_ok[OF assms(1,3) i30 assms(5)]
  note e = cabs_eqD[OF m(4), simplified] and k = keepsD[OF m(3)]
  have lt: "lru ?t (xs @ i # ys)" unfolding bread_miss_def using assms(4) by (intro lru_upd_buf) simp_all
  have d: "b_data (buf_at ?t i) = disk s blk" using i30 l(1) by (simp add: bread_miss_def)
  have own: "bown ?t blk = Some (mypid ?t)" "bref ?t blk = 1" "myproc ?t = Some p" using e k p by simp_all
  have "filter (\<lambda>j. j \<noteq> i) (xs @ i # ys) = xs @ ys"
  proof -
    have "i \<notin> set xs" "i \<notin> set ys" using l(3) by auto
    then have "filter (\<lambda>j. j \<noteq> i) xs = xs" "filter (\<lambda>j. j \<noteq> i) ys = ys" by (auto intro!: filter_True)
    then show ?thesis by simp
  qed
  then show ?thesis using brelse_lru[OF m(1) own(3) m(2) own(1,2) lt] r lt d by auto
qed

theorem bread_recycles_lru_witness:
  "\<exists>t u. bread ROOTDEV 9 (binit example_bss) = Ok (0, t) \<and> brelse 0 t = Ok ((), u) \<and> lru u (0 # rev [1..<NBUF])"
proof -
  have f: "fresh (binit example_bss)" using example_fs_quiet by (simp add: log_quiet_def)
  have n: "bufof (binit example_bss) 9 = None" and r: "b_refcnt (buf_at (binit example_bss) 0) = 0"
    and l: "lru (binit example_bss) (rev [1..<NBUF] @ 0 # [])"
    using example_binit(4-6) example_bss_facts by (simp_all add: upt_conv_Cons)
  show ?thesis using bread_recycles_lru[OF freshD(1,2)[OF f] n l r] by auto
qed

text \<open>Thirty referenced blocks occupy all the buffers.\<close>

lemma all_referenced:
  assumes ok: "cache_ok s" and c: "card (inuse s) = NBUF" and i: "i < NBUF"
  shows "\<exists>b\<in>inuse s. bufof s b = Some i"
proof -
  let ?f = "\<lambda>b. the (bufof s b)"
  have bo: "bufof s b = Some (?f b)" "?f b < NBUF" "holds (buf_at s (?f b)) b" if b: "b \<in> inuse s" for b
  proof -
    show "bufof s b = Some (?f b)" using b by (auto simp: inuse_def bref_def split: option.splits)
    then show "?f b < NBUF" "holds (buf_at s (?f b)) b" using bufof_iff[OF ok, of b "?f b"] by blast+
  qed
  have "inj_on ?f (inuse s)"
  proof (rule inj_onI)
    fix a b
    assume "a \<in> inuse s" "b \<in> inuse s" "?f a = ?f b"
    then show "a = b" using bo(3)[of a] bo(3)[of b] by (simp add: holds_def)
  qed
  then have "card (?f ` inuse s) = card {..<NBUF}" using c by (simp add: card_image)
  moreover have "?f ` inuse s \<subseteq> {..<NBUF}" using bo(2) by auto
  ultimately have "?f ` inuse s = {..<NBUF}" by (intro card_subset_eq) simp_all
  then obtain b where "b \<in> inuse s" "?f b = i" using i by (metis imageE lessThan_iff)
  then show ?thesis using bo(1)[of b] by auto
qed

text \<open>
  C38. Reading a block that nobody references panics when thirty other blocks are referenced.
\<close>

theorem bread_no_buffers:
  assumes "cache_ok s" and "card (inuse s) = NBUF" and "bref s blk = 0"
  shows "bread ROOTDEV blk s = Panic ''bget: no buffers''"
proof -
  obtain order where l: "lru s order" using cache_okD(2)[OF assms(1)] by blast
  have r: "b_refcnt (buf_at s i) \<noteq> 0" if "i < NBUF" for i
    using all_referenced[OF assms(1,2) that] by (auto simp: inuse_def bref_def)
  then have n: "bufof s blk = None"
    using assms(3) by (cases "bufof s blk") (auto simp: bref_def bufof_iff[OF assms(1)] unat_eq_0)
  have "find (\<lambda>j. holds (buf_at s j) blk) order = None"
    using n lruD(4)[OF l] unfolding bufof_None_iff find_None_iff by blast
  then have f: "bfind (NBUF + 1) b_next (\<lambda>x. b_dev x = ROOTDEV \<and> b_blockno x = blk) (b_next (buf_at s NBUF)) s = Ok None"
    using lru_find(1)[OF l, of "\<lambda>x. b_dev x = ROOTDEV \<and> b_blockno x = blk"] by (simp add: holds_def)
  have "find (\<lambda>j. b_refcnt (buf_at s j) = 0) (rev order) = None"
    using r lruD(4)[OF l] unfolding find_None_iff by auto
  then have "bfind (NBUF + 1) b_prev (\<lambda>x. b_refcnt x = 0) (b_prev (buf_at s NBUF)) s = Ok None"
    using lru_find(2)[OF l, of "\<lambda>x. b_refcnt x = 0"] by simp
  then show ?thesis using f by (simp add: bread_def bget_def)
qed

lemma cspecs_append: "cspecs pid (as @ bs) c = (case cspecs pid as c of None \<Rightarrow> None | Some d \<Rightarrow> cspecs pid bs d)"
  by (induction as arbitrary: c) (auto split: option.split)

lemma cspecs_reads:
  assumes "n \<le> NBUF" "\<forall>b. c_ref c b = 0" "\<forall>b. c_own c b = None"
  shows "\<exists>d. cspecs pid (map (\<lambda>k. Read (word_of_nat k)) [0..<n]) c = Some d \<and>
    (\<forall>b. c_ref d b = (if unat b < n then 1 else 0)) \<and> (\<forall>b. c_own d b = (if unat b < n then Some pid else None))"
  using assms(1)
proof (induction n)
  case 0
  show ?case using assms(2,3) by simp
next
  case (Suc n)
  then obtain d where d: "cspecs pid (map (\<lambda>k. Read (word_of_nat k)) [0..<n]) c = Some d"
    "\<forall>b. c_ref d b = (if unat b < n then 1 else 0)" "\<forall>b. c_own d b = (if unat b < n then Some pid else None)"
    by auto
  let ?b = "word_of_nat n :: uint"
  have u: "unat ?b = n" using Suc.prems by simp
  have "{a. c_ref d a \<noteq> 0} = word_of_nat ` {..<n}"
  proof
    show "{a. c_ref d a \<noteq> 0} \<subseteq> word_of_nat ` {..<n}"
    proof
      fix a
      assume "a \<in> {a. c_ref d a \<noteq> 0}"
      then have "unat a < n" using d(2) by (auto split: if_splits)
      then show "a \<in> word_of_nat ` {..<n}" by (intro image_eqI[of _ _ "unat a"]) simp_all
    qed
    show "word_of_nat ` {..<n} \<subseteq> {a. c_ref d a \<noteq> 0}" using d(2) Suc.prems by auto
  qed
  then have "card {a. c_ref d a \<noteq> 0} \<le> n" using card_image_le[of "{..<n}" word_of_nat] by simp
  then have "cspec pid (Read ?b) d = Some (d\<lparr>c_ref := (c_ref d)(?b := 1), c_own := (c_own d)(?b := Some pid)\<rparr>)"
    using d(2,3) u Suc.prems by simp
  moreover have "unat b < Suc n \<longleftrightarrow> unat b < n \<or> b = ?b" for b :: uint
    using u by (metis less_Suc_eq unsigned_word_eqI)
  ultimately show ?case using d by (auto simp: cspecs_append)
qed

theorem bread_no_buffers_witness:
  "\<exists>h t. cexecs (map (\<lambda>k. Read (word_of_nat k)) [0..<NBUF]) (Map.empty, binit example_bss) = Ok (h, t) \<and>
     bread ROOTDEV 99 t = Panic ''bget: no buffers''"
proof -
  let ?s = "binit example_bss" and ?as = "map (\<lambda>k. Read (word_of_nat k)) [0..<NBUF]"
  have f: "fresh ?s" using example_fs_quiet by (simp add: log_quiet_def)
  note d = freshD[OF f]
  have z: "\<forall>b. c_ref (cabs ?s) b = 0" "\<forall>b. c_own (cabs ?s) b = None" using d by simp_all
  obtain c where c: "cspecs (mypid ?s) ?as (cabs ?s) = Some c" "\<forall>b. c_ref c b = (if unat b < NBUF then 1 else 0)"
    using cspecs_reads[OF order_refl z, of "mypid ?s"] by blast
  have "held Map.empty ?s" using d by (simp add: held_def)
  then obtain h t where t: "cexecs ?as (Map.empty, ?s) = Ok (h, t)" "held h t" "cabs t = c"
    using cexecs_refines[OF _ c(1)] by blast
  have r: "bref t b = (if unat b < NBUF then 1 else 0)" for b using c(2) cabs_eqD(2)[OF t(3)] by simp
  have "inuse t = {b. unat b < NBUF}" by (auto simp: inuse_def r)
  also have "\<dots> = word_of_nat ` {..<NBUF}"
  proof -
    have "b \<in> word_of_nat ` {..<NBUF}" if "unat b < NBUF" for b :: uint
      using that by (intro image_eqI[of _ _ "unat b"]) simp_all
    then show ?thesis by auto
  qed
  finally have "card (inuse t) = NBUF"
    by (simp only:, subst card_image) (auto intro!: inj_onI dest: arg_cong[where f = unat])
  then show ?thesis using bread_no_buffers[OF heldD(1)[OF t(2)]] r[of 99] t(1) by auto
qed

subsection \<open>Admission to the log\<close>

text \<open>
  C39. On a disk with the log size that mkfs writes, \<open>begin_op\<close> admits a third operation to an empty
  log, as 30 blocks for the three of them do not exceed LOGSIZE; but \<open>log_write\<close> panics once 29
  blocks are logged, whatever the block.
\<close>

theorem log_admits_more_than_fits:
  assumes "l_size (klog s) = of_nat LOGSIZE" and "\<not> l_committing (klog s)" and "l_outstanding (klog s) = 2"
    and "lh_n (l_lh (klog s)) = 0"
  shows "begin_op s = Ok ((), upd_log (\<lambda>l. l\<lparr>l_outstanding := 3\<rparr>) s) \<and>
    (\<forall>i (lh :: logheader). lh_n lh = 29 \<longrightarrow> log_write i (upd_lh (\<lambda>_. lh) (upd_log (\<lambda>l. l\<lparr>l_outstanding := 3\<rparr>) s)) =
      Panic ''too big a transaction'')"
proof (intro conjI allI impI)
  have "upd_log (\<lambda>l. l\<lparr>l_outstanding := l_outstanding l + 1\<rparr>) s = upd_log (\<lambda>l. l\<lparr>l_outstanding := 3\<rparr>) s"
    using assms(3) by (simp add: upd_log_def)
  then show "begin_op s = Ok ((), upd_log (\<lambda>l. l\<lparr>l_outstanding := 3\<rparr>) s)"
    using assms by (simp add: begin_op_def)
  fix i and lh :: logheader
  assume "lh_n lh = 29"
  then show "log_write i (upd_lh (\<lambda>_. lh) (upd_log (\<lambda>l. l\<lparr>l_outstanding := 3\<rparr>) s)) = Panic ''too big a transaction''"
    using assms(1) by (simp add: log_write_def Let_def)
qed

theorem log_admits_more_than_fits_witness:
  "\<exists>t. begin_op (upd_log (\<lambda>l. l\<lparr>l_outstanding := 2\<rparr>) example_bss) = Ok ((), t) \<and> l_outstanding (klog t) = 3"
  using log_admits_more_than_fits[of "upd_log (\<lambda>l. l\<lparr>l_outstanding := 2\<rparr>) example_bss"]
  by (simp add: example_bss_facts(5) log_zero_def)

end
