(* ===== verification/Xv6_Line.thy ===== *)
theory Xv6_Line
  imports Xv6_Pipe
begin

section \<open>The line editor and the transmit buffer\<close>

text \<open>
  What the console promises, on lists of characters: the lines that are ready to be read and the line
  that is being typed; and the UART's transmit buffer as a queue in front of the transmitter.
\<close>

interpretation cons_ring: word_ring INPUT_BUF "TYPE(32)"
  by unfold_locales (simp_all add: dvd_def exI[of _ 33554432])

interpretation uart_ring: word_ring UART_TX_BUF_SIZE "TYPE(64)"
  by unfold_locales (simp_all add: dvd_def exI[of _ 576460752303423488])

subsection \<open>The input side\<close>

definition ready :: "'a kcons_scheme \<Rightarrow> uchar list" where
  "ready s = ring_list (cons_buf s) INPUT_BUF (cons_r s) (cons_w s)"

definition typed :: "'a kcons_scheme \<Rightarrow> uchar list" where
  "typed s = ring_list (cons_buf s) INPUT_BUF (cons_w s) (cons_e s)"

text \<open>
  The indices are in order, no more than the buffer's size apart, and the line being typed has neither
  a newline nor an end of file in it.
\<close>

definition cons_inv :: "'a kcons_scheme \<Rightarrow> bool" where
  "cons_inv s \<longleftrightarrow> length (cons_buf s) = INPUT_BUF \<and> length (ready s) + length (typed s) \<le> INPUT_BUF \<and>
     NEWLINE \<notin> set (typed s) \<and> CTRL_D \<notin> set (typed s)"

text \<open>The editor's specification: what a character does to the ready text and the current line.\<close>

definition edit :: "uchar \<Rightarrow> uchar list \<times> uchar list \<Rightarrow> uchar list \<times> uchar list" where
  "edit c st =
     (let (rd, line) = st in
      if c = CTRL_P \<or> c = 0 then (rd, line)
      else if c = CTRL_U then (rd, [])
      else if c = CTRL_H \<or> c = DEL then (rd, butlast line)
      else if length rd + length line < INPUT_BUF then
        let c1 = (if c = CRETURN then NEWLINE else c); line1 = line @ [c1] in
        if c1 = NEWLINE \<or> c1 = CTRL_D \<or> length rd + length line1 = INPUT_BUF then (rd @ line1, []) else (rd, line1)
      else (rd, line))"

lemma ring_split:
  assumes "unat (w - r) + unat (e - w) < 2 ^ 32"
  shows "ring_list buf N r (e :: uint) = ring_list buf N r w @ ring_list buf N w e"
proof -
  have "e - r = (w - r) + (e - w)" by simp
  then have n: "unat (e - r) = unat (w - r) + unat (e - w)" using assms unat_add_lem[of "w - r" "e - w"] by simp
  have "[0..<a + b] = [0..<a] @ map (\<lambda>i. a + i) [0..<b]" for a b
    by (induction b) simp_all
  then have u: "[0..<unat (e - r)] = [0..<unat (w - r)] @ map (\<lambda>i. unat (w - r) + i) [0..<unat (e - w)]" unfolding n .
  have "r + of_nat (unat (w - r) + i) = w + of_nat i" for i by simp
  then show ?thesis unfolding ring_list_def u map_append map_map comp_def by simp
qed

lemma consputc_frame [simp]:
  "cons_buf (consputc c s) = cons_buf s" "cons_r (consputc c s) = cons_r s" "cons_w (consputc c s) = cons_w s" "cons_e (consputc c s) = cons_e s"
  by (auto simp: consputc_def uartputc_sync_def WriteReg_THR_def split: conschar.split)

lemma uartputc_sync_kproc [simp]: "kproc_ok (uartputc_sync c s) = kproc_ok s"
  by (simp add: uartputc_sync_def WriteReg_THR_def kproc_ok_def hart_ok_def)

text \<open>Deleting the last character.\<close>

lemma typed_back:
  assumes "cons_inv s" "cons_e s \<noteq> cons_w s"
  defines "t \<equiv> consputc BACKSPACE (s\<lparr>cons_e := cons_e s - 1\<rparr>)"
  shows "ready t = ready s" "typed t = butlast (typed s)" "cons_inv t" "cons_e t = cons_e s - 1" "cons_w t = cons_w s"
proof -
  show r: "ready t = ready s" and e: "cons_e t = cons_e s - 1" "cons_w t = cons_w s" by (simp_all add: t_def ready_def)
  show b: "typed t = butlast (typed s)"
    using assms(2) cons_ring.unput[of "cons_w s" "cons_e s" "cons_buf s"] by (simp add: t_def typed_def)
  show "cons_inv t" using assms(1) r b in_set_butlastD by (fastforce simp: cons_inv_def t_def)
qed

lemma kill_line_ok:
  "cons_inv s \<Longrightarrow> length (typed s) \<le> k \<Longrightarrow>
    ready (kill_line k s) = ready s \<and> typed (kill_line k s) = [] \<and> cons_inv (kill_line k s)"
proof (induction k arbitrary: s)
  case (Suc k)
  show ?case
  proof (cases "cons_e s = cons_w s")
    case True
    then show ?thesis using Suc.prems by (simp add: typed_def)
  next
    case False
    note b = typed_back[OF Suc.prems(1) False]
    have ne: "typed s \<noteq> []" using False by (simp add: typed_def ring_list_empty_iff)
    have "cons_buf s ! (unat (cons_e s - 1) mod INPUT_BUF) = last (typed s)"
    proof -
      have "unat (cons_e s - cons_w s) \<noteq> 0" using False by (metis right_minus_eq unat_eq_0)
      then have "unat (cons_e s - cons_w s) = Suc (unat (cons_e s - 1 - cons_w s))"
        using unat_sub[of 1 "cons_e s - cons_w s"] by (simp add: word_le_nat_alt algebra_simps)
      then show ?thesis by (simp add: typed_def ring_list_def)
    qed
    then have "cons_buf s ! (unat (cons_e s - 1) mod INPUT_BUF) \<noteq> NEWLINE"
      using Suc.prems(1) last_in_set[OF ne] by (auto simp: cons_inv_def)
    then have "kill_line (Suc k) s = kill_line k (consputc BACKSPACE (s\<lparr>cons_e := cons_e s - 1\<rparr>))" using False by simp
    then show ?thesis using Suc.IH[OF b(3)] b(1,2) Suc.prems(2) by simp
  qed
qed simp

lemma wakeup_cons [simp]: "ready (wakeup ch s) = ready s" "typed (wakeup ch s) = typed s" "cons_inv (wakeup ch s) = cons_inv s"
  by (simp_all add: ready_def typed_def cons_inv_def)

text \<open>Adding a character, and closing the line.\<close>

lemma typed_put:
  fixes c :: uchar and s :: "'a kcons_scheme"
  assumes inv: "cons_inv s" and room: "length (ready s) + length (typed s) < INPUT_BUF"
  defines "t \<equiv> s\<lparr>cons_buf := (cons_buf s)[unat (cons_e s) mod INPUT_BUF := c], cons_e := cons_e s + 1\<rparr>"
  shows "ready t = ready s" "typed t = typed s @ [c]" "ready (t\<lparr>cons_w := cons_e t\<rparr>) = ready s @ typed s @ [c]"
    "typed (t\<lparr>cons_w := cons_e t\<rparr>) = []"
proof -
  have len: "length (cons_buf s) = INPUT_BUF" "unat (cons_w s - cons_r s) + unat (cons_e s - cons_w s) < INPUT_BUF"
    using inv room by (simp_all add: cons_inv_def ready_def typed_def)
  show t: "typed t = typed s @ [c]"
    using cons_ring.put[OF len(1), of "cons_e s" "cons_w s" c] len(2) by (simp add: t_def typed_def)
  have "cons_e s - cons_r s = (cons_w s - cons_r s) + (cons_e s - cons_w s)" by simp
  then have n: "unat (cons_e s - cons_r s) = unat (cons_w s - cons_r s) + unat (cons_e s - cons_w s)"
    using len(2) unat_add_lem[of "cons_w s - cons_r s" "cons_e s - cons_w s"] by simp
  have all: "ring_list (cons_buf t) INPUT_BUF (cons_r s) (cons_e t) = ready s @ typed s @ [c]"
    using cons_ring.put[OF len(1), of "cons_e s" "cons_r s" c] ring_split[of "cons_w s" "cons_r s" "cons_e s" "cons_buf s" INPUT_BUF] len(2) n
    by (simp add: t_def ready_def typed_def)
  have "unat (cons_e t - cons_w t) = Suc (unat (cons_e s - cons_w s))"
    using cons_ring.size_succ[of "cons_e s" "cons_w s"] len(2) by (simp add: t_def)
  then have "ring_list (cons_buf t) INPUT_BUF (cons_r s) (cons_e t) = ready t @ typed t"
    using ring_split[of "cons_w t" "cons_r t" "cons_e t" "cons_buf t" INPUT_BUF] len(2) by (simp add: t_def ready_def typed_def)
  then show "ready t = ready s" using all t by simp
  show "ready (t\<lparr>cons_w := cons_e t\<rparr>) = ready s @ typed s @ [c]" using all by (simp add: ready_def) (simp add: t_def)
  show "typed (t\<lparr>cons_w := cons_e t\<rparr>) = []" by (simp add: typed_def)
qed

lemma cons_room:
  assumes "cons_inv s"
  shows "cons_e s - cons_r s < of_nat INPUT_BUF \<longleftrightarrow> length (ready s) + length (typed s) < INPUT_BUF"
    "length (ready s) + length (typed s) < INPUT_BUF \<Longrightarrow>
      cons_e s + 1 = cons_r s + of_nat INPUT_BUF \<longleftrightarrow> length (ready s) + length (typed s) + 1 = INPUT_BUF"
proof -
  have "cons_e s - cons_r s = (cons_w s - cons_r s) + (cons_e s - cons_w s)" by simp
  then have n: "unat (cons_e s - cons_r s) = length (ready s) + length (typed s)"
    using assms unat_add_lem[of "cons_w s - cons_r s" "cons_e s - cons_w s"] by (simp add: cons_inv_def ready_def typed_def)
  then show "cons_e s - cons_r s < of_nat INPUT_BUF \<longleftrightarrow> length (ready s) + length (typed s) < INPUT_BUF"
    by (simp add: word_less_nat_alt)
  show "cons_e s + 1 = cons_r s + of_nat INPUT_BUF \<longleftrightarrow> length (ready s) + length (typed s) + 1 = INPUT_BUF"
    if "length (ready s) + length (typed s) < INPUT_BUF"
    using cons_ring.full_iff[of "cons_e s + 1" "cons_r s"] cons_ring.size_succ[of "cons_e s" "cons_r s"] n that by simp
qed

lemma procdump_cons [simp]: "ready (procdump pol s) = ready s" "typed (procdump pol s) = typed s" "cons_inv (procdump pol s) = cons_inv s"
  by (simp_all add: procdump_def ready_def typed_def cons_inv_def)

lemma consoleintr_edit:
  assumes inv: "cons_inv s"
  shows "(ready (consoleintr pol c s), typed (consoleintr pol c s)) = edit c (ready s, typed s)" "cons_inv (consoleintr pol c s)"
proof -
  let ?c = "if c = CRETURN then NEWLINE else c"
  let ?s1 = "consputc (PutChar ?c) s"
  let ?s2 = "?s1\<lparr>cons_buf := (cons_buf ?s1)[unat (cons_e ?s1) mod INPUT_BUF := ?c], cons_e := cons_e ?s1 + 1\<rparr>"
  have s1: "ready ?s1 = ready s" "typed ?s1 = typed s" "cons_inv ?s1" using inv by (simp_all add: ready_def typed_def cons_inv_def)
  have "(ready (consoleintr pol c s), typed (consoleintr pol c s)) = edit c (ready s, typed s) \<and> cons_inv (consoleintr pol c s)"
  proof (cases "c = CTRL_P \<or> c = CTRL_U \<or> c = CTRL_H \<or> c = DEL \<or> c = 0 \<or> \<not> length (ready s) + length (typed s) < INPUT_BUF")
    case True
    then show ?thesis
      using inv kill_line_ok[OF inv, of "unat (cons_e s - cons_w s)"] typed_back[OF inv] cons_room(1)[OF inv]
      by (auto simp: consoleintr_def edit_def typed_def[of s])
  next
    case False
    then have room: "length (ready ?s1) + length (typed ?s1) < INPUT_BUF" using s1 by simp
    note p = typed_put[OF s1(3) room, of ?c]
    let ?close = "?c = NEWLINE \<or> ?c = CTRL_D \<or> length (ready s) + length (typed s) + 1 = INPUT_BUF"
    have "cons_e ?s2 = cons_r ?s2 + of_nat INPUT_BUF \<longleftrightarrow> length (ready s) + length (typed s) + 1 = INPUT_BUF"
      using cons_room(2)[OF s1(3) room] s1 by simp
    then have run: "consoleintr pol c s = (if ?close then wakeup (Some ChanCons) (?s2\<lparr>cons_w := cons_e ?s2\<rparr>) else ?s2)"
      using False cons_room(1)[OF inv] unfolding consoleintr_def Let_def by simp
    have spec: "edit c (ready s, typed s) = (if ?close then (ready s @ typed s @ [?c], []) else (ready s, typed s @ [?c]))"
      using False by (simp add: edit_def Let_def)
    have len: "length (cons_buf ?s2) = INPUT_BUF" using inv by (simp add: cons_inv_def)
    show ?thesis
    proof (cases ?close)
      case True
      have "cons_inv (?s2\<lparr>cons_w := cons_e ?s2\<rparr>)"
        using p(3,4) room s1 len unfolding cons_inv_def by simp
      then show ?thesis unfolding run spec if_P[OF True] using p(3,4) s1 by simp
    next
      case close: False
      have "cons_inv ?s2" using p(1,2) close room s1 len inv unfolding cons_inv_def by auto
      then show ?thesis unfolding run spec if_not_P[OF close] using p(1,2) s1 by simp
    qed
  qed
  then show "(ready (consoleintr pol c s), typed (consoleintr pol c s)) = edit c (ready s, typed s)" "cons_inv (consoleintr pol c s)" by simp_all
qed

lemma consoleintr_edits:
  "cons_inv s \<Longrightarrow> (ready (fold (consoleintr pol) keys s), typed (fold (consoleintr pol) keys s)) = fold edit keys (ready s, typed s) \<and>
    cons_inv (fold (consoleintr pol) keys s)"
proof (induction keys arbitrary: s)
  case (Cons c keys)
  show ?case using Cons.IH[OF consoleintr_edit(2)[OF Cons.prems]] consoleintr_edit(1)[OF Cons.prems] by simp
qed simp

subsection \<open>Reading a line\<close>

lemma ready_get:
  assumes inv: "cons_inv s" and rd: "ready s = c # rd"
  defines "t \<equiv> s\<lparr>cons_r := cons_r s + 1\<rparr>"
  shows "cons_r s \<noteq> cons_w s" "cons_buf s ! (unat (cons_r s) mod INPUT_BUF) = c" "ready t = rd" "typed t = typed s" "cons_inv t"
proof -
  show ne: "cons_r s \<noteq> cons_w s" using rd by (auto simp: ready_def)
  from cons_ring.get[OF ne, of "cons_buf s"] rd show "cons_buf s ! (unat (cons_r s) mod INPUT_BUF) = c" and r: "ready t = rd"
    by (simp_all add: ready_def t_def)
  show tt: "typed t = typed s" by (simp add: typed_def t_def)
  have "cons_buf t = cons_buf s" by (simp add: t_def)
  then show "cons_inv t" using inv r rd tt by (simp add: cons_inv_def)
qed

lemma read_frame [simp]:
  "ready (s\<lparr>km := m\<rparr>) = ready s" "typed (s\<lparr>km := m\<rparr>) = typed s" "cons_inv (s\<lparr>km := m\<rparr>) = cons_inv s" for s :: "'a kcons_scheme"
  by (simp_all add: ready_def typed_def cons_inv_def)

text \<open>One round of the loop, for a character that is not the end of file.\<close>

lemma consoleread_round:
  fixes s :: "'a kcons_scheme"
  assumes inv: "cons_inv s" and rd: "ready s = c # rd" "c \<noteq> CTRL_D" and n: "0 < sint n"
    and p: "myproc s = Some p" and ok: "space_ok (km s) T free" "T Root = Some (p_pagetable (proc_at s p))"
    and dst: "ubyte T (ram (km s)) (unat dst) \<noteq> None"
  obtains u where "consoleread_loop (DstUser dst) target n s =
      (if c = NEWLINE then Ok (target - (n - 1), u) else consoleread_loop (DstUser (dst + 1)) target (n - 1) u)"
    "cons_inv u" "ready u = rd" "typed u = typed s" "myproc u = Some p" "space_ok (km u) T free" "T Root = Some (p_pagetable (proc_at u p))"
    "ubyte T (ram (km u)) = uwrite (unat dst) [c] (ubyte T (ram (km s)))"
proof -
  let ?s1 = "s\<lparr>cons_r := cons_r s + 1\<rparr>"
  note g = ready_get[OF inv rd(1)]
  have "\<forall>i<length [c]. ubyte T (ram (km s)) (unat dst + i) \<noteq> None" using dst by simp
  from copyout_ok[OF ok this] obtain m where
    m: "copyout (p_pagetable (proc_at s p)) dst [c] (km s) = Ok (0, (km s)\<lparr>ram := m\<rparr>)" "space_ok ((km s)\<lparr>ram := m\<rparr>) T free"
      "ubyte T m = uwrite (unat dst) [c] (ubyte T (ram (km s)))" by blast
  let ?u = "?s1\<lparr>km := (km s)\<lparr>ram := m\<rparr>\<rparr>"
  have f: "myproc ?s1 = Some p" "proc_at ?s1 = proc_at s" "myproc ?u = Some p" "proc_at ?u = proc_at s"
    using p by (simp_all add: myproc_def mycpu_def cpuid_def proc_at_def fun_eq_iff)
  have "consoleread_loop (DstUser dst) target n s =
      (if c = NEWLINE then Ok (target - (n - 1), ?u) else consoleread_loop (DstUser (dst + 1)) target (n - 1) ?u)"
    using n g(1,2) rd(2) m(1) f(1,2)
    by (subst consoleread_loop.simps) (simp add: Let_def kseq_def kret_def curproc_def on_mem_def)
  then show thesis by (rule that) (use g m f ok in simp_all)
qed

lemma sint_pred: "0 < sint n \<Longrightarrow> sint (n - 1) = sint n - 1" for n :: cint
  using sint_diff[of n 1] sint_lt[of n] by simp

text \<open>The loop from the point where the characters \<open>l\<close> and a newline are next and \<open>n\<close> fit.\<close>

lemma consoleread_line_loop:
  fixes s :: "'a kcons_scheme"
  assumes "cons_inv s" "ready s = l @ NEWLINE # rest" "NEWLINE \<notin> set l" "CTRL_D \<notin> set l" "int (length l) < sint n"
    and "myproc s = Some p" "space_ok (km s) T free" "T Root = Some (p_pagetable (proc_at s p))"
    and "\<forall>j\<le>length l. ubyte T (ram (km s)) (unat dst + j) \<noteq> None"
  shows "\<exists>t. consoleread_loop (DstUser dst) target n s = Ok (target - n + of_nat (length l + 1), t) \<and> ready t = rest \<and> typed t = typed s \<and>
    cons_inv t \<and> ubyte T (ram (km t)) = uwrite (unat dst) (l @ [NEWLINE]) (ubyte T (ram (km s)))"
  using assms
proof (induction l arbitrary: s n dst)
  case Nil
  have h: "ready s = NEWLINE # rest" "0 < sint n" "ubyte T (ram (km s)) (unat dst) \<noteq> None" using Nil.prems by simp_all
  have d: "NEWLINE \<noteq> CTRL_D" by simp
  obtain u where u: "consoleread_loop (DstUser dst) target n s = Ok (target - (n - 1), u)" "cons_inv u" "ready u = rest" "typed u = typed s"
    "ubyte T (ram (km u)) = uwrite (unat dst) [NEWLINE] (ubyte T (ram (km s)))"
    by (rule consoleread_round[where target = target, OF Nil.prems(1) h(1) d h(2) Nil.prems(6-8) h(3)]) (rule that, simp_all)
  then show ?case by (intro exI[of _ u]) simp
next
  case (Cons c l)
  have h: "ready s = c # (l @ NEWLINE # rest)" "c \<noteq> CTRL_D" "c \<noteq> NEWLINE" "0 < sint n" "ubyte T (ram (km s)) (unat dst) \<noteq> None"
    "ubyte T (ram (km s)) (unat dst + 1) \<noteq> None" using Cons.prems by (auto dest: spec[of _ 0] spec[of _ 1])
  obtain u where u: "consoleread_loop (DstUser dst) target n s = consoleread_loop (DstUser (dst + 1)) target (n - 1) u"
    "cons_inv u" "ready u = l @ NEWLINE # rest" "typed u = typed s" "myproc u = Some p" "space_ok (km u) T free" "T Root = Some (p_pagetable (proc_at u p))"
    "ubyte T (ram (km u)) = uwrite (unat dst) [c] (ubyte T (ram (km s)))"
    by (rule consoleread_round[where target = target, OF Cons.prems(1) h(1,2,4) Cons.prems(6-8) h(5)]) (rule that, use h(3) in simp_all)
  have d: "unat (dst + 1) = unat dst + 1" using mapped_offset[of T "ram (km s)" dst 1] h(6) by simp
  have n: "int (length l) < sint (n - 1)" using Cons.prems(5) sint_pred[OF h(4)] by simp
  have m: "\<forall>j\<le>length l. ubyte T (ram (km u)) (unat (dst + 1) + j) \<noteq> None"
  proof (intro allI impI)
    fix j
    assume "j \<le> length l"
    then show "ubyte T (ram (km u)) (unat (dst + 1) + j) \<noteq> None"
      using Cons.prems(9)[rule_format, of "Suc j"] unfolding u(8) d by (simp add: uwrite_def)
  qed
  have l: "NEWLINE \<notin> set l" "CTRL_D \<notin> set l" using Cons.prems(3,4) by simp_all
  from Cons.IH[OF u(2,3) l n u(5-7) m] obtain t where
    t: "consoleread_loop (DstUser (dst + 1)) target (n - 1) u = Ok (target - (n - 1) + of_nat (length l + 1), t)" "ready t = rest"
      "typed t = typed u" "cons_inv t" "ubyte T (ram (km t)) = uwrite (unat (dst + 1)) (l @ [NEWLINE]) (ubyte T (ram (km u)))" by blast
  have "ubyte T (ram (km t)) = uwrite (unat dst) ((c # l) @ [NEWLINE]) (ubyte T (ram (km s)))"
    unfolding t(5) u(8) d using uwrite_append[of "unat dst" "[c]"] by simp
  moreover have "consoleread_loop (DstUser dst) target n s = Ok (target - n + of_nat (length (c # l) + 1), t)"
    unfolding u(1) t(1) by simp
  ultimately show ?case using t(2,3,4) u(4) by (intro exI[of _ t]) simp
qed

subsection \<open>The editor does not touch processes and memory\<close>

definition cons_frame :: "'a kcons_scheme \<Rightarrow> 'a kcons_scheme \<Rightarrow> bool" where
  "cons_frame s t \<longleftrightarrow> same_procs s t \<and> km t = km s \<and> myproc t = myproc s"

lemma cons_frame_trans: "cons_frame s t \<Longrightarrow> cons_frame t u \<Longrightarrow> cons_frame s u"
  using same_procs_trans by (auto simp: cons_frame_def)

lemma cons_frame_more:
  assumes "kproc_ok s" "cpus t = cpus s" "hart t = hart s" "procs t = procs s" "km t = km s"
  shows "cons_frame s t"
  using assms by (simp add: cons_frame_def same_procs_def kproc_ok_def hart_ok_def proc_at_def myproc_def mycpu_def cpuid_def)

lemma cons_frame_if: "cons_frame s a \<Longrightarrow> cons_frame s b \<Longrightarrow> cons_frame s (if c then a else b)"
  by simp

lemma consputc_procs [simp]:
  "cpus (consputc c s) = cpus s" "hart (consputc c s) = hart s" "procs (consputc c s) = procs s" "km (consputc c s) = km s"
  by (auto simp: consputc_def uartputc_sync_def WriteReg_THR_def split: conschar.split)

lemma kill_line_frame: "kproc_ok s \<Longrightarrow> cons_frame s (kill_line k s)"
proof (induction k arbitrary: s)
  case (Suc k)
  let ?t = "consputc BACKSPACE (s\<lparr>cons_e := cons_e s - 1\<rparr>)"
  have f: "cons_frame s ?t" by (rule cons_frame_more[OF Suc.prems]) simp_all
  then have "kproc_ok ?t" by (simp add: cons_frame_def same_procs_def)
  from cons_frame_trans[OF f Suc.IH[OF this]] cons_frame_more[OF Suc.prems refl refl refl refl] show ?case by simp
qed (simp add: cons_frame_more)

lemma consoleintr_frame:
  assumes "kproc_ok s"
  shows "cons_frame s (consoleintr pol c s)"
proof -
  note more = cons_frame_more[OF assms]
  have bk: "cons_frame s (consputc BACKSPACE (s\<lparr>cons_e := cons_e s - 1\<rparr>))" "cons_frame s s" "cons_frame s (procdump pol s)"
    by (rule more; simp add: procdump_def)+
  let ?c = "if c = CRETURN then NEWLINE else c"
  let ?s1 = "consputc (PutChar ?c) s"
  let ?s2 = "?s1\<lparr>cons_buf := (cons_buf ?s1)[unat (cons_e ?s1) mod INPUT_BUF := ?c], cons_e := cons_e ?s1 + 1\<rparr>"
  have s2: "cons_frame s ?s2" "cons_frame s (?s2\<lparr>cons_w := cons_e ?s2\<rparr>)" by (rule more; simp)+
  have k: "kproc_ok (?s2\<lparr>cons_w := cons_e ?s2\<rparr>)" using s2(2) by (simp add: cons_frame_def same_procs_def)
  have "cons_frame (?s2\<lparr>cons_w := cons_e ?s2\<rparr>) (wakeup (Some ChanCons) (?s2\<lparr>cons_w := cons_e ?s2\<rparr>))"
    using same_procs_wakeup[OF k] wakeup_kproc(2)[OF k] by (simp add: cons_frame_def)
  then have w: "cons_frame s (wakeup (Some ChanCons) (?s2\<lparr>cons_w := cons_e ?s2\<rparr>))" by (rule cons_frame_trans[OF s2(2)])
  show ?thesis
    unfolding consoleintr_def Let_def by (intro cons_frame_if bk s2(1) w kill_line_frame[OF assms])
qed

lemma consoleintr_frames: "kproc_ok s \<Longrightarrow> cons_frame s (fold (consoleintr pol) keys s)"
proof (induction keys arbitrary: s)
  case (Cons c keys)
  note f = consoleintr_frame[OF Cons.prems, of pol c]
  then have "kproc_ok (consoleintr pol c s)" by (simp add: cons_frame_def same_procs_def)
  from cons_frame_trans[OF f Cons.IH[OF this]] show ?case by simp
qed (simp add: cons_frame_more)

subsection \<open>Properties of the console\<close>

text \<open>
  C9. The console's line editor refines its specification on lists: whatever is typed, the ready text and the current
  line are what \<open>edit\<close> makes of them, with erase, kill, end of file, a full buffer and counters that wrap
  around, and the buffer's invariant holds.
\<close>

theorem consoleintr_refines_edit:
  assumes "cons_inv s"
  shows "(ready (fold (consoleintr pol) keys s), typed (fold (consoleintr pol) keys s)) = fold edit keys (ready s, typed s) \<and>
    cons_inv (fold (consoleintr pol) keys s)"
  by (rule consoleintr_edits[OF assms])

definition example_cons :: kfile where
  "example_cons = (kernel_bss 1 example_kmem (\<lambda>_. replicate BSIZE 0))\<lparr>cons_r := - 2, cons_w := - 2, cons_e := - 2\<rparr>"

lemma example_cons_inv: "cons_inv example_cons" "ready example_cons = []" "typed example_cons = []"
  by (simp_all add: cons_inv_def ready_def typed_def example_cons_def kernel_bss_def)

theorem consoleintr_refines_edit_witness:
  "let t = fold (consoleintr RR) [108, 120, CTRL_H, 115, CRETURN, 97, CTRL_U, 98] example_cons in
   ready t = [108, 115, NEWLINE] \<and> typed t = [98]"
  using consoleintr_refines_edit[OF example_cons_inv(1), of RR "[108, 120, CTRL_H, 115, CRETURN, 97, CTRL_U, 98]"]
  by (simp add: example_cons_inv edit_def Let_def)

text \<open>
  C10. A process reads what was typed, line by line: if the characters typed leave the line \<open>l\<close>, closed by a newline, at the front of the
  ready text, then \<^verbatim>\<open>read\<close> on the console with a larger buffer returns its length with the newline, stores exactly
  these characters in the caller's memory, and leaves the rest for the next read.
\<close>

theorem consoleread_line:
  fixes s :: "'a kcons_scheme"
  assumes "cons_inv s" "kproc_ok s" "fold edit keys (ready s, typed s) = (l @ NEWLINE # rest, line)" "NEWLINE \<notin> set l" "CTRL_D \<notin> set l"
    and "int (length l) < sint n" "myproc s = Some p" "p < NPROC" "space_ok (km s) T free" "T Root = Some (p_pagetable (proc_at s p))"
    and "\<forall>j\<le>length l. ubyte T (ram (km s)) (unat dst + j) \<noteq> None"
  shows "\<exists>t. consoleread (DstUser dst) n (fold (consoleintr pol) keys s) = Ok (of_nat (length l + 1), t) \<and> ready t = rest \<and> typed t = line \<and>
    ubyte T (ram (km t)) = uwrite (unat dst) (l @ [NEWLINE]) (ubyte T (ram (km s)))"
proof -
  let ?t = "fold (consoleintr pol) keys s"
  have e: "cons_inv ?t" "ready ?t = l @ NEWLINE # rest" "typed ?t = line" using consoleintr_edits[OF assms(1), of pol keys] assms(3) by simp_all
  have f: "km ?t = km s" "myproc ?t = Some p" "p_pagetable (proc_at ?t p) = p_pagetable (proc_at s p)"
    using consoleintr_frames[OF assms(2), of pol keys] assms(7,8) by (simp_all add: cons_frame_def same_procs_def)
  from consoleread_line_loop[OF e(1,2) assms(4-6) f(2), where target = n and dst = dst and T = T and free = free] assms(9-11) f e(3)
  show ?thesis by (auto simp: consoleread_def)
qed

theorem consoleread_line_witness:
  "\<exists>s t pt P. consoleread (DstUser 16) 80 (fold (consoleintr RR) [108, 115, CRETURN, 98] (s :: kfile)) = Ok (3, t) \<and> typed t = [98] \<and>
    p_pagetable (proc_at s 0) = pt \<and> P Root = Some pt \<and> ubyte P (ram (km t)) 17 = Some 115"
proof -
  obtain m P free pr where e: "space_ok m P free" "P Root = Some pr" "\<forall>a. ubyte P (ram m) a = (if a < 8192 then Some 0 else None)"
    using example_spaces by blast
  let ?k = "(example_cons\<lparr>km := m, cpus := [(cpus example_cons ! 0)\<lparr>c_proc := Some 0\<rparr>]\<rparr>)"
  let ?s = "upd_proc 0 (\<lambda>p. p\<lparr>p_pagetable := pr\<rparr>) ?k :: kfile"
  have f: "km ?s = m" "kproc_ok ?s" "myproc ?s = Some 0" "p_pagetable (proc_at ?s 0) = pr" "ready ?s = []" "typed ?s = []" "cons_inv ?s"
    by (simp_all add: example_cons_def kernel_bss_def upd_proc_def proc_at_def kproc_ok_def hart_ok_def kproc_boot_def myproc_def mycpu_def cpuid_def
        ready_def typed_def cons_inv_def)
  have ed: "fold edit [108, 115, CRETURN, 98] (ready ?s, typed ?s) = ([108, 115] @ NEWLINE # [], [98])" by (simp add: f edit_def Let_def)
  have h: "NEWLINE \<notin> set [108, 115 :: uchar]" "CTRL_D \<notin> set [108, 115 :: uchar]" "int (length [108, 115 :: uchar]) < sint (80 :: cint)" "(0 :: nat) < NPROC"
    by simp_all
  have ok: "space_ok (km ?s) P free" "P Root = Some (p_pagetable (proc_at ?s 0))" using e(1,2) f(1,4) by simp_all
  have m: "\<forall>j\<le>length [108, 115 :: uchar]. ubyte P (ram (km ?s)) (unat (16 :: uint64) + j) \<noteq> None" using e(3) f(1) by simp
  have c: "of_nat (length [108, 115 :: uchar] + 1) = (3 :: cint)" by simp
  from consoleread_line[OF f(7,2) ed h(1-3) f(3) h(4) ok m, of RR, unfolded c] obtain t where
    t: "consoleread (DstUser 16) 80 (fold (consoleintr RR) [108, 115, CRETURN, 98] ?s) = Ok (3, t)" "typed t = [98]"
      "ubyte P (ram (km t)) = uwrite (unat (16 :: uint64)) ([108, 115] @ [NEWLINE]) (ubyte P (ram (km ?s)))" by blast
  have "ubyte P (ram (km t)) 17 = Some 115" by (simp add: t(3) uwrite_def)
  then show ?thesis using t(1,2) f(4) e(2) by blast
qed

subsection \<open>The output side\<close>

definition pending :: "'a kcons_scheme \<Rightarrow> uchar list" where
  "pending s = ring_list (uart_tx_buf s) UART_TX_BUF_SIZE (uart_tx_r s) (uart_tx_w s)"

definition uart_inv :: "'a kcons_scheme \<Rightarrow> bool" where
  "uart_inv s \<longleftrightarrow> length (uart_tx_buf s) = UART_TX_BUF_SIZE \<and> length (pending s) \<le> UART_TX_BUF_SIZE"

lemma uartstart_ok:
  "uart_inv s \<Longrightarrow> uart_inv (uartstart s) \<and> thr_sent (uart (uartstart s)) @ pending (uartstart s) = thr_sent (uart s) @ pending s \<and>
    length (pending (uartstart s)) \<le> length (pending s)"
proof (induction s rule: uartstart.induct)
  case (1 s)
  let ?c = "uart_tx_buf s ! (unat (uart_tx_r s) mod UART_TX_BUF_SIZE)"
  let ?t = "WriteReg_THR ?c (wakeup (Some ChanUart) (s\<lparr>uart_tx_r := uart_tx_r s + 1\<rparr>))"
  show ?case
  proof (cases "uart_tx_w s = uart_tx_r s \<or> \<not> LSR_TX_IDLE s")
    case True
    then have "uartstart s = s" by (subst uartstart.simps) auto
    then show ?thesis using 1(2) True by (auto simp: pending_def LSR_TX_IDLE_def)
  next
    case False
    then have ne: "uart_tx_r s \<noteq> uart_tx_w s" by auto
    have p: "pending s = ?c # pending ?t" using uart_ring.get[OF ne, of "uart_tx_buf s"] by (simp add: pending_def WriteReg_THR_def)
    have "length (uart_tx_buf ?t) = UART_TX_BUF_SIZE" using 1(2) by (simp add: uart_inv_def WriteReg_THR_def)
    moreover have "length (pending ?t) \<le> UART_TX_BUF_SIZE" using 1(2) p by (simp add: uart_inv_def)
    ultimately have "uart_inv ?t" unfolding uart_inv_def by blast
    moreover have "uartstart s = uartstart ?t" using False by (subst uartstart.simps) (auto simp: Let_def)
    moreover have "thr_sent (uart ?t) = thr_sent (uart s) @ [?c]" by (simp add: WriteReg_THR_def)
    ultimately show ?thesis using 1(1)[OF _ _ refl] False p by simp
  qed
qed

text \<open>
  What happens to the transmitter: the kernel sends a character, or the device has room for \<open>k\<close> more and
  interrupts, which makes the driver call \<open>uartstart\<close>. The sends are those of \<open>uartputc\<close>, the path of \<^verbatim>\<open>write\<close> on the console;
  echoed characters and the kernel's own messages go through \<open>uartputc_sync\<close>, which bypasses the buffer, and are not among the events.
\<close>

datatype uart_event = SendChar uchar | TxReady nat

fun uart_run :: "uart_event list \<Rightarrow> ('a kcons_scheme, unit) kop" where
  "uart_run [] s = Ok ((), s)"
| "uart_run (SendChar c # evs) s = kseq (uartputc c) (\<lambda>_. uart_run evs) s"
| "uart_run (TxReady k # evs) s = uart_run evs (uartstart (s\<lparr>uart := (uart s)\<lparr>thr_room := k\<rparr>\<rparr>))"

definition chars_sent :: "uart_event list \<Rightarrow> uchar list" where
  "chars_sent evs = concat (map (\<lambda>e. case e of SendChar c \<Rightarrow> [c] | TxReady _ \<Rightarrow> []) evs)"

lemma uartputc_ok:
  assumes inv: "uart_inv s"
  shows "length (pending s) = UART_TX_BUF_SIZE \<Longrightarrow> uartputc c s = Hang"
    "length (pending s) < UART_TX_BUF_SIZE \<Longrightarrow> \<exists>t. uartputc c s = Ok ((), t) \<and> uart_inv t \<and>
      thr_sent (uart t) @ pending t = thr_sent (uart s) @ pending s @ [c] \<and> length (pending t) \<le> length (pending s) + 1"
proof -
  have full: "uart_tx_w s = uart_tx_r s + of_nat UART_TX_BUF_SIZE \<longleftrightarrow> length (pending s) = UART_TX_BUF_SIZE"
    using uart_ring.full_iff[of "uart_tx_w s" "uart_tx_r s"] inv by (simp add: uart_inv_def pending_def)
  then show "uartputc c s = Hang" if "length (pending s) = UART_TX_BUF_SIZE" using that by (simp add: uartputc_def)
  assume room: "length (pending s) < UART_TX_BUF_SIZE"
  let ?u = "s\<lparr>uart_tx_buf := (uart_tx_buf s)[unat (uart_tx_w s) mod UART_TX_BUF_SIZE := c], uart_tx_w := uart_tx_w s + 1\<rparr>"
  have p: "pending ?u = pending s @ [c]"
    using uart_ring.put[of "uart_tx_buf s" "uart_tx_w s" "uart_tx_r s" c] inv room by (simp add: pending_def uart_inv_def)
  have "length (uart_tx_buf ?u) = UART_TX_BUF_SIZE" "length (pending ?u) \<le> UART_TX_BUF_SIZE" using inv room unfolding p by (simp_all add: uart_inv_def)
  then have "uart_inv ?u" unfolding uart_inv_def by blast
  from uartstart_ok[OF this] show "\<exists>t. uartputc c s = Ok ((), t) \<and> uart_inv t \<and> thr_sent (uart t) @ pending t = thr_sent (uart s) @ pending s @ [c] \<and> length (pending t) \<le> length (pending s) + 1"
    using room full p by (simp add: uartputc_def)
qed

text \<open>
  C22. The serial line sends characters in the order in which the kernel gives them, without loss: after any
  sequence of sends and transmit interrupts in which no send has to sleep, what the transmitter was given,
  followed by what waits in the ring buffer, is what it was before and then the new characters. A send finds the
  buffer full only when more than 32 characters, those already waiting included, were to be sent.
\<close>

theorem uart_in_order:
  assumes "uart_inv s"
  shows "(uart_run evs s = Hang \<and> length (pending s) + length (chars_sent evs) > UART_TX_BUF_SIZE) \<or>
    (\<exists>t. uart_run evs s = Ok ((), t) \<and> uart_inv t \<and> thr_sent (uart t) @ pending t = thr_sent (uart s) @ pending s @ chars_sent evs)"
  using assms
proof (induction evs s rule: uart_run.induct)
  case (1 s)
  then show ?case by (simp add: chars_sent_def)
next
  case (2 c evs s)
  show ?case
  proof (cases "length (pending s) = UART_TX_BUF_SIZE")
    case True
    then show ?thesis using uartputc_ok(1)[OF 2(2)] by (simp add: kseq_def chars_sent_def)
  next
    case False
    then have "length (pending s) < UART_TX_BUF_SIZE" using 2(2) by (simp add: uart_inv_def)
    then obtain t where t: "uartputc c s = Ok ((), t)" "uart_inv t" "thr_sent (uart t) @ pending t = thr_sent (uart s) @ pending s @ [c]" "length (pending t) \<le> length (pending s) + 1"
      using uartputc_ok(2)[OF 2(2)] by blast
    then show ?thesis using 2(1)[OF t(1,2)] by (auto simp: kseq_def chars_sent_def)
  qed
next
  case (3 k evs s)
  let ?s = "s\<lparr>uart := (uart s)\<lparr>thr_room := k\<rparr>\<rparr>"
  have "uart_inv ?s" "pending ?s = pending s" "thr_sent (uart ?s) = thr_sent (uart s)" using 3(2) by (simp_all add: uart_inv_def pending_def)
  then show ?case using 3(1) uartstart_ok[of ?s] by (auto simp: chars_sent_def)
qed

theorem uart_in_order_witness:
  "\<exists>t. uart_run [SendChar 104, TxReady 16, SendChar 105] example_cons = Ok ((), t) \<and> thr_sent (uart t) @ pending t = [104, 105]"
proof -
  have "uart_inv example_cons" "pending example_cons = []" "thr_sent (uart example_cons) = []"
    by (simp_all add: uart_inv_def pending_def example_cons_def kernel_bss_def)
  then show ?thesis using uart_in_order[of example_cons "[SendChar 104, TxReady 16, SendChar 105]"] by (auto simp: chars_sent_def simp del: uart_run.simps)
qed

end
