(* ===== verification/Xv6_Ulib.thy ===== *)
theory Xv6_Ulib
  imports Xv6_Dir Xv6_Printf
begin

section \<open>The user library (user/ulib.c, user/printf.c)\<close>

text \<open>
  User programs reach the kernel through the stubs of usys.S, which the build generates from
  user/usys.pl; the record \<open>usys\<close> is their interface, with the state \<open>'k\<close> of everything outside the
  process. A pointer to characters is the list of the bytes from there on, as in the string
  functions of the kernel; beyond the end of the list there is a null byte. A call of \<^verbatim>\<open>read\<close> returns the bytes that it
  stored, and \<open>None\<close> for a negative result.

  An operation of a user program ends with a value, with \<^verbatim>\<open>exit\<close>, or with an \<^verbatim>\<open>exec\<close> that
  replaced the program. \<open>Spin\<close> is a loop that has used up the rounds given to it.
\<close>

datatype 'a uout = Done 'a | Exited cint | Execed | Spin

type_synonym ('k, 'a) up = "'k \<Rightarrow> 'a uout \<times> 'k"

definition uret :: "'a \<Rightarrow> ('k, 'a) up" where
  "uret x k = (Done x, k)"

definition ubind :: "('k, 'a) up \<Rightarrow> ('a \<Rightarrow> ('k, 'b) up) \<Rightarrow> ('k, 'b) up" where
  "ubind m f k = (case m k of (Done x, k) \<Rightarrow> f x k | (Exited c, k) \<Rightarrow> (Exited c, k)
     | (Execed, k) \<Rightarrow> (Execed, k) | (Spin, k) \<Rightarrow> (Spin, k))"

definition ucall :: "('k \<Rightarrow> 'a \<times> 'k) \<Rightarrow> ('k, 'a) up" where
  "ucall f k = (case f k of (x, k) \<Rightarrow> (Done x, k))"

definition uexit :: "cint \<Rightarrow> ('k, 'a) up" where
  "uexit c k = (Exited c, k)"

fun uforeach :: "('i \<Rightarrow> ('k, unit) up) \<Rightarrow> 'i list \<Rightarrow> ('k, unit) up" where
  "uforeach f [] = uret ()"
| "uforeach f (i # is) = ubind (f i) (\<lambda>_. uforeach f is)"

lemma ubind_simps [simp]:
  "m k = (Done x, k') \<Longrightarrow> ubind m f k = f x k'"
  "m k = (Exited c, k') \<Longrightarrow> ubind m f k = (Exited c, k')"
  "m k = (Execed, k') \<Longrightarrow> ubind m f k = (Execed, k')"
  "m k = (Spin, k') \<Longrightarrow> ubind m f k = (Spin, k')"
  by (simp_all add: ubind_def)

lemma uret_run [simp]: "uret x k = (Done x, k)" "uexit c k = (Exited c, k)"
  by (simp_all add: uret_def uexit_def)

lemma ucall_run [simp]: "f k = (x, k') \<Longrightarrow> ucall f k = (Done x, k')"
  by (simp add: ucall_def)

text \<open>The stubs that the programs use. \<open>u_exec\<close> returns \<open>None\<close> when the program was replaced.\<close>

record 'k usys =
  u_read :: "cint \<Rightarrow> nat \<Rightarrow> 'k \<Rightarrow> uchar list option \<times> 'k"
  u_write :: "cint \<Rightarrow> uchar list \<Rightarrow> 'k \<Rightarrow> cint \<times> 'k"
  u_open :: "uchar list \<Rightarrow> cint \<Rightarrow> 'k \<Rightarrow> cint \<times> 'k"
  u_close :: "cint \<Rightarrow> 'k \<Rightarrow> cint \<times> 'k"
  u_fstat :: "cint \<Rightarrow> 'k \<Rightarrow> stat option \<times> 'k"
  u_fork :: "'k \<Rightarrow> cint \<times> 'k"
  u_exec :: "uchar list \<Rightarrow> uchar list list \<Rightarrow> 'k \<Rightarrow> cint option \<times> 'k"
  u_wait :: "'k \<Rightarrow> cint \<times> 'k"
  u_pipe :: "'k \<Rightarrow> (cint \<times> cint) option \<times> 'k"
  u_dup :: "cint \<Rightarrow> 'k \<Rightarrow> cint \<times> 'k"
  u_chdir :: "uchar list \<Rightarrow> 'k \<Rightarrow> cint \<times> 'k"
  u_kill :: "cint \<Rightarrow> 'k \<Rightarrow> cint \<times> 'k"
  u_link :: "uchar list \<Rightarrow> uchar list \<Rightarrow> 'k \<Rightarrow> cint \<times> 'k"
  u_unlink :: "uchar list \<Rightarrow> 'k \<Rightarrow> cint \<times> 'k"
  u_mkdir :: "uchar list \<Rightarrow> 'k \<Rightarrow> cint \<times> 'k"
  u_mknod :: "uchar list \<Rightarrow> ushort \<Rightarrow> ushort \<Rightarrow> 'k \<Rightarrow> cint \<times> 'k"
  u_sleep :: "cint \<Rightarrow> 'k \<Rightarrow> cint \<times> 'k"
  u_trace :: "cint \<Rightarrow> 'k \<Rightarrow> cint \<times> 'k"
  u_waitx :: "'k \<Rightarrow> (cint \<times> cint \<times> cint) \<times> 'k"
  u_set_priority :: "cint \<Rightarrow> cint \<Rightarrow> 'k \<Rightarrow> cint \<times> 'k"

definition ub :: "string \<Rightarrow> uchar list" where
  "ub cs = map of_char cs"

definition uexec :: "'k usys \<Rightarrow> uchar list \<Rightarrow> uchar list list \<Rightarrow> ('k, cint) up" where
  "uexec S path av k = (case u_exec S path av k of (None, k) \<Rightarrow> (Execed, k) | (Some r, k) \<Rightarrow> (Done r, k))"

subsection \<open>Strings and memory\<close>

text \<open>\<open>strcpy\<close> gives the bytes written at the destination.\<close>

fun ustrcpy :: "uchar list \<Rightarrow> uchar list" where
  "ustrcpy [] = [0]"
| "ustrcpy (b # t) = b # (if b = 0 then [] else ustrcpy t)"

fun ustrcmp :: "uchar list \<Rightarrow> uchar list \<Rightarrow> cint" where
  "ustrcmp [] q = - ucast (byte0 q)"
| "ustrcmp (b # p) q = (if b \<noteq> 0 \<and> b = byte0 q then ustrcmp p (tl q) else ucast b - ucast (byte0 q))"

definition ustrlen :: "uchar list \<Rightarrow> uint" where
  "ustrlen s = word_of_nat (strlen s)"

text \<open>A pointer to a character found is the list from there on.\<close>

fun ustrchr :: "uchar list \<Rightarrow> uchar \<Rightarrow> uchar list option" where
  "ustrchr [] c = None"
| "ustrchr (b # s) c = (if b = 0 then None else if b = c then Some (b # s) else ustrchr s c)"

fun uatoi_loop :: "cint \<Rightarrow> uchar list \<Rightarrow> cint" where
  "uatoi_loop n [] = n"
| "uatoi_loop n (b # s) = (if 48 \<le> b \<and> b \<le> 57 then uatoi_loop (n * 10 + ucast b - 48) s else n)"

definition uatoi :: "uchar list \<Rightarrow> cint" where
  "uatoi s = uatoi_loop 0 s"

definition umemset :: "uint64 \<Rightarrow> cint \<Rightarrow> uint \<Rightarrow> mem \<Rightarrow> mem" where
  "umemset dst c n m = fold (\<lambda>i m. m(dst + word_of_nat i := ucast c)) [0..<unat n] m"

definition umemmove :: "uint64 \<Rightarrow> uint64 \<Rightarrow> cint \<Rightarrow> mem \<Rightarrow> mem" where
  "umemmove dst src n m =
     (if dst < src then fold (copy_byte dst src) [0..<nat (sint n)] m
      else fold (copy_byte dst src) (rev [0..<nat (sint n)]) m)"

fun umemcmp :: "uchar list \<Rightarrow> uchar list \<Rightarrow> nat \<Rightarrow> cint" where
  "umemcmp p1 p2 0 = 0"
| "umemcmp p1 p2 (Suc n) =
     (if byte0 p1 \<noteq> byte0 p2 then ucast (byte0 p1) - ucast (byte0 p2) else umemcmp (tl p1) (tl p2) n)"

subsection \<open>Input and file status\<close>

text \<open>\<open>gets\<close> returns the bytes before the null that it stores; \<open>i\<close> of them are there already.\<close>

function gets_loop :: "'k usys \<Rightarrow> nat \<Rightarrow> nat \<Rightarrow> ('k, uchar list) up" where
  "gets_loop S i mx k =
     (if i + 1 < mx then
        case u_read S 0 1 k of
          (Some (c # _), k) \<Rightarrow>
            (if c = 10 \<or> c = 13 then (Done [c], k) else ubind (gets_loop S (i + 1) mx) (\<lambda>cs. uret (c # cs)) k)
        | (_, k) \<Rightarrow> (Done [], k)
      else (Done [], k))"
  by pat_completeness auto
termination by (relation "measure (\<lambda>(S, i, mx, k). mx - i)") auto

declare gets_loop.simps [simp del]

definition gets :: "'k usys \<Rightarrow> nat \<Rightarrow> ('k, uchar list) up" where
  "gets S mx = gets_loop S 0 mx"

definition ustat :: "'k usys \<Rightarrow> uchar list \<Rightarrow> ('k, stat option) up" where
  "ustat S n = ubind (ucall (u_open S n 0)) (\<lambda>fd.
     if sint fd < 0 then uret None
     else ubind (ucall (u_fstat S fd)) (\<lambda>r. ubind (ucall (u_close S fd)) (\<lambda>_. uret r)))"

subsection \<open>Formatted output\<close>

definition putc :: "'k usys \<Rightarrow> cint \<Rightarrow> uchar \<Rightarrow> ('k, unit) up" where
  "putc S fd c = ubind (ucall (u_write S fd [c])) (\<lambda>_. uret ())"

definition udigits :: "uchar list" where
  "udigits = ub ''0123456789ABCDEF''"

text \<open>The characters in \<^verbatim>\<open>buf\<close> of \<open>printint\<close>, least significant first; the bases are 10 and 16.\<close>

function uprintint_loop :: "uint \<Rightarrow> uint \<Rightarrow> uchar list" where
  "uprintint_loop base x =
     udigits ! unat (x mod base) #
     (if x div base = 0 \<or> unat base < 2 then [] else uprintint_loop base (x div base))"
  by pat_completeness auto
termination
proof (relation "measure (\<lambda>(base, x). unat x)")
  fix base x :: uint
  assume "\<not> (x div base = 0 \<or> unat base < 2)"
  then have "unat x \<noteq> 0" "1 < unat base" by (auto simp: unat_eq_0)
  then show "((base, x div base), (base, x)) \<in> measure (\<lambda>(base, x). unat x)" by (simp add: unat_div)
qed simp

declare uprintint_loop.simps [simp del]

definition uprintint :: "cint \<Rightarrow> uint \<Rightarrow> bool \<Rightarrow> uchar list" where
  "uprintint xx base sg =
     (let neg = sg \<and> sint xx < 0;
          x = (if neg then - xx else xx);
          buf = uprintint_loop base x
      in rev (if neg then buf @ ub ''-'' else buf))"

primrec uprintptr_loop :: "nat \<Rightarrow> uint64 \<Rightarrow> uchar list" where
  "uprintptr_loop 0 x = []"
| "uprintptr_loop (Suc n) x = udigits ! unat (drop_bit 60 x) # uprintptr_loop n (push_bit 4 x)"

definition uprintptr :: "uint64 \<Rightarrow> uchar list" where
  "uprintptr x = ub ''0x'' @ uprintptr_loop 16 x"

text \<open>
  \<open>vformat\<close> is the text that \<open>vprintf\<close> prints. A percent sign at the end of the format prints nothing.
  An argument that was not passed reads as 0, a value that the source leaves undefined.
\<close>

datatype uarg = UWord uint64 | UStr "uchar list option"

fun uarg_word :: "uarg list \<Rightarrow> uint64" where
  "uarg_word (UWord w # _) = w"
| "uarg_word _ = 0"

fun uarg_str :: "uarg list \<Rightarrow> uchar list" where
  "uarg_str (UStr (Some s) # _) = cstring s"
| "uarg_str _ = ub ''(null)''"

definition uint_arg :: "cint \<Rightarrow> uarg" where
  "uint_arg n = UWord (scast n)"

fun vformat :: "string \<Rightarrow> uarg list \<Rightarrow> uchar list" where
  "vformat [] ap = []"
| "vformat [c] ap = (if c = CHR ''%'' then [] else [of_char c])"
| "vformat (c # d # fmt) ap =
     (if c \<noteq> CHR ''%'' then of_char c # vformat (d # fmt) ap
      else if d = CHR ''d'' then uprintint (ucast (uarg_word ap)) 10 True @ vformat fmt (tl ap)
      else if d = CHR ''l'' then uprintint (ucast (uarg_word ap)) 10 False @ vformat fmt (tl ap)
      else if d = CHR ''x'' then uprintint (ucast (uarg_word ap)) 16 False @ vformat fmt (tl ap)
      else if d = CHR ''p'' then uprintptr (uarg_word ap) @ vformat fmt (tl ap)
      else if d = CHR ''s'' then uarg_str ap @ vformat fmt (tl ap)
      else if d = CHR ''c'' then ucast (uarg_word ap) # vformat fmt (tl ap)
      else if d = CHR ''%'' then of_char d # vformat fmt ap
      else of_char (CHR ''%'') # of_char d # vformat fmt ap)"

definition vprintf :: "'k usys \<Rightarrow> cint \<Rightarrow> string \<Rightarrow> uarg list \<Rightarrow> ('k, unit) up" where
  "vprintf S fd fmt ap = uforeach (putc S fd) (vformat fmt ap)"

definition fprintf :: "'k usys \<Rightarrow> cint \<Rightarrow> string \<Rightarrow> uarg list \<Rightarrow> ('k, unit) up" where
  "fprintf S fd fmt ap = vprintf S fd fmt ap"

definition uprintf :: "'k usys \<Rightarrow> string \<Rightarrow> uarg list \<Rightarrow> ('k, unit) up" where
  "uprintf S fmt ap = vprintf S 1 fmt ap"

subsection \<open>Lemmas\<close>

lemma ustrchr_Some: "ustrchr s c = Some q \<Longrightarrow> c \<noteq> 0 \<and> (\<exists>u. s = u @ q \<and> c \<notin> set u \<and> 0 \<notin> set u \<and> (\<exists>t. q = c # t))"
proof (induction s)
  case (Cons b s)
  then show ?case
    by (auto split: if_splits intro: exI[of _ "b # _"])
qed simp

lemma ustrchr_None: "0 \<notin> set s \<Longrightarrow> ustrchr s c = None \<longleftrightarrow> c \<notin> set s"
  by (induction s) auto

lemma ustrchr_split: "0 \<notin> set u \<Longrightarrow> c \<notin> set u \<Longrightarrow> c \<noteq> 0 \<Longrightarrow> ustrchr (u @ c # t) c = Some (c # t)"
  by (induction u) auto

lemma ucast_diff_0: "ucast a - ucast b = (0 :: cint) \<longleftrightarrow> a = b" for a b :: uchar
proof
  assume "ucast a - ucast b = (0 :: cint)"
  then have "ucast a = (ucast b :: cint)" by simp
  then have "unat (ucast a :: cint) = unat (ucast b :: cint)" by simp
  moreover have "unat (ucast c :: cint) = unat c" for c :: uchar using unat_lt[of c] by (simp add: unsigned_ucast_eq take_bit_nat_eq_self)
  ultimately show "a = b" by (simp add: word_unat_eq_iff)
qed simp

lemma ustrcmp_eq: "ustrcmp p q = 0 \<longleftrightarrow> cstring p = cstring q"
proof (induction p q rule: ustrcmp.induct)
  case (1 q)
  then show ?case using ucast_diff_0[of 0 "byte0 q"] by (cases q) (auto simp: cstring_def byte0_def)
next
  case (2 b p q)
  then show ?case using ucast_diff_0[of b "byte0 q"] by (cases q) (auto simp: cstring_def byte0_def)
qed

lemma umemmove_bytes:
  assumes n: "0 \<le> sint n" and src: "unat src + nat (sint n) < 2 ^ 64" and dst: "unat dst + nat (sint n) < 2 ^ 64"
  shows "umemmove dst src n m = store_bytes dst (load_bytes m src (nat (sint n))) m"
proof -
  let ?n = "nat (sint n)"
  have le: "?n \<le> 2 ^ 64" using src by linarith
  have neq: "src + word_of_nat i \<noteq> dst + word_of_nat j" if "i < ?n" "j < ?n" "unat src + i \<noteq> unat dst + j" for i j
    using that src dst unat_add_offset[of src i] unat_add_offset[of dst j] by fastforce
  show ?thesis
  proof (cases "dst < src")
    case True
    then have "fold (copy_byte dst src) [0..<?n] m = store_bytes dst (map (\<lambda>i. m (src + word_of_nat i)) [0..<?n]) m"
      using le by (intro copy_forward[of _ ?n] neq) (auto simp: word_less_nat_alt)
    with True show ?thesis by (simp add: umemmove_def load_bytes_def)
  next
    case False
    then have "fold (copy_byte dst src) (rev [0..<?n]) m =
        (\<lambda>x. if 0 \<le> unat (x - dst) \<and> unat (x - dst) < ?n then m (src + word_of_nat (unat (x - dst))) else m x)"
      using le by (intro copy_backward neq) (auto simp: word_less_nat_alt)
    with False show ?thesis by (auto simp: umemmove_def store_bytes_def load_bytes_def)
  qed
qed

lemma putc_Done: "putc S fd c k = (Done (), snd (u_write S fd [c] k))"
  by (cases "u_write S fd [c] k") (simp add: putc_def)

lemma vprintf_Done: "\<exists>k'. vprintf S fd fmt ap k = (Done (), k')"
proof -
  have "\<exists>k'. uforeach (putc S fd) cs k = (Done (), k')" for cs
    by (induction cs arbitrary: k) (auto simp: putc_Done)
  then show ?thesis by (simp add: vprintf_def)
qed

text \<open>
  C29. The copy loops of the kernel and of the user library agree: although they choose the direction
  of the copy by different tests, both leave in the destination the bytes that the source held before,
  overlap or not, and change nothing else, if the ranges do not wrap around the address space.
\<close>

theorem memmove_equivalent:
  assumes "0 \<le> sint n" and "unat src + nat (sint n) < 2 ^ 64" and "unat dst + nat (sint n) < 2 ^ 64"
  shows "umemmove dst src n m = memmove dst src n m \<and>
    umemmove dst src n m = store_bytes dst (load_bytes m src (nat (sint n))) m"
proof -
  have "nat (sint n) = unat n" using sint_nonneg_unat[OF assms(1)] by linarith
  then show ?thesis using umemmove_bytes[OF assms, of m] memmove_bytes[of src n dst m] assms(2,3) by simp
qed

theorem memmove_equivalent_witness:
  "umemmove 4100 4096 8 ucast = memmove 4100 4096 8 ucast \<and> umemmove 4100 4096 8 ucast 4104 = 4"
proof -
  have "umemmove 4100 4096 8 ucast = memmove 4100 4096 8 ucast"
    and *: "umemmove 4100 4096 8 ucast = store_bytes 4100 (load_bytes ucast 4096 8) ucast"
    using memmove_equivalent[of 8 4096 4100 ucast] by auto
  moreover from * have "umemmove 4100 4096 8 ucast 4104 = 4" by (simp add: store_bytes_def load_bytes_nth)
  ultimately show ?thesis by blast
qed

end
