(* ===== verification/Xv6_Filters.thy ===== *)
theory Xv6_Filters
  imports Xv6_Ulib
begin

section \<open>cat, echo, wc and grep (user/cat.c, echo.c, wc.c, grep.c)\<close>

text \<open>
  The programs that read a stream and write another. A loop over \<^verbatim>\<open>read\<close> has the number of calls it may
  still make as an argument; the theorems say how many are enough. The matcher of grep is proved
  equivalent to a declarative meaning of its patterns, and grep and wc to functions of the whole input,
  whatever pieces \<^verbatim>\<open>read\<close> delivers it in.
\<close>

subsection \<open>cat and echo\<close>

fun cat :: "'k usys \<Rightarrow> cint \<Rightarrow> nat \<Rightarrow> ('k, unit) up" where
  "cat S fd 0 k = (Spin, k)"
| "cat S fd (Suc g) k =
     (case u_read S fd 512 k of
        (None, k) \<Rightarrow> ubind (fprintf S 2 (''cat: read error'' @ newline) []) (\<lambda>_. uexit 1) k
      | (Some [], k) \<Rightarrow> (Done (), k)
      | (Some bs, k) \<Rightarrow>
          ubind (ucall (u_write S 1 bs)) (\<lambda>n.
            if n \<noteq> word_of_nat (length bs) then ubind (fprintf S 2 (''cat: write error'' @ newline) []) (\<lambda>_. uexit 1)
            else cat S fd g) k)"

definition cat_main :: "'k usys \<Rightarrow> nat \<Rightarrow> uchar list list \<Rightarrow> ('k, unit) up" where
  "cat_main S g argv =
     (if length argv \<le> 1 then ubind (cat S 0 g) (\<lambda>_. uexit 0)
      else ubind (uforeach (\<lambda>a. ubind (ucall (u_open S a 0)) (\<lambda>fd.
          if sint fd < 0 then ubind (fprintf S 2 (''cat: cannot open %s'' @ newline) [UStr (Some a)]) (\<lambda>_. uexit 1)
          else ubind (cat S fd g) (\<lambda>_. ubind (ucall (u_close S fd)) (\<lambda>_. uret ())))) (tl argv)) (\<lambda>_. uexit 0))"

text \<open>The arguments still to print; the one that is last is followed by a newline.\<close>

fun echo_loop :: "'k usys \<Rightarrow> uchar list list \<Rightarrow> ('k, unit) up" where
  "echo_loop S [] = uret ()"
| "echo_loop S (a # as) =
     ubind (ucall (u_write S 1 (cstring a))) (\<lambda>_.
     ubind (ucall (u_write S 1 (if as \<noteq> [] then ub '' '' else [10]))) (\<lambda>_. echo_loop S as))"

definition echo_main :: "'k usys \<Rightarrow> uchar list list \<Rightarrow> ('k, unit) up" where
  "echo_main S argv = ubind (echo_loop S (tl argv)) (\<lambda>_. uexit 0)"

subsection \<open>wc\<close>

definition wc_space :: "uchar \<Rightarrow> bool" where
  "wc_space b = (ustrchr [32, 13, 9, 10, 11] b \<noteq> None)"

text \<open>The counters \<^verbatim>\<open>l\<close>, \<^verbatim>\<open>w\<close>, \<^verbatim>\<open>c\<close> and \<^verbatim>\<open>inword\<close>.\<close>

type_synonym wc_state = "cint \<times> cint \<times> cint \<times> bool"

fun wc_byte :: "uchar \<Rightarrow> wc_state \<Rightarrow> wc_state" where
  "wc_byte b (l, w, c, inword) =
     (let c = c + 1; l = (if b = 10 then l + 1 else l) in
      if wc_space b then (l, w, c, False)
      else if \<not> inword then (l, w + 1, c, True)
      else (l, w, c, inword))"

fun wc_loop :: "'k usys \<Rightarrow> cint \<Rightarrow> nat \<Rightarrow> wc_state \<Rightarrow> ('k, wc_state option) up" where
  "wc_loop S fd 0 x k = (Spin, k)"
| "wc_loop S fd (Suc g) x k =
     (case u_read S fd 512 k of
        (None, k) \<Rightarrow> (Done None, k)
      | (Some [], k) \<Rightarrow> (Done (Some x), k)
      | (Some bs, k) \<Rightarrow> wc_loop S fd g (fold wc_byte bs x) k)"

definition wc :: "'k usys \<Rightarrow> nat \<Rightarrow> cint \<Rightarrow> uchar list \<Rightarrow> ('k, unit) up" where
  "wc S g fd name = ubind (wc_loop S fd g (0, 0, 0, False)) (\<lambda>r.
     case r of
       None \<Rightarrow> ubind (uprintf S (''wc: read error'' @ newline) []) (\<lambda>_. uexit 1)
     | Some (l, w, c, inword) \<Rightarrow>
         uprintf S (''%d %d %d %s'' @ newline) [uint_arg l, uint_arg w, uint_arg c, UStr (Some name)])"

definition wc_main :: "'k usys \<Rightarrow> nat \<Rightarrow> uchar list list \<Rightarrow> ('k, unit) up" where
  "wc_main S g argv =
     (if length argv \<le> 1 then ubind (wc S g 0 []) (\<lambda>_. uexit 0)
      else ubind (uforeach (\<lambda>a. ubind (ucall (u_open S a 0)) (\<lambda>fd.
          if sint fd < 0 then ubind (uprintf S (''wc: cannot open %s'' @ newline) [UStr (Some a)]) (\<lambda>_. uexit 1)
          else ubind (wc S g fd a) (\<lambda>_. ubind (ucall (u_close S fd)) (\<lambda>_. uret ())))) (tl argv)) (\<lambda>_. uexit 0))"

subsection \<open>grep\<close>

abbreviation (input) CARET :: uchar where "CARET \<equiv> 94"
abbreviation (input) STAR :: uchar where "STAR \<equiv> 42"
abbreviation (input) DOT :: uchar where "DOT \<equiv> 46"
abbreviation (input) DOLLAR :: uchar where "DOLLAR \<equiv> 36"

lemma byte0_nonzero: "byte0 s \<noteq> 0 \<longleftrightarrow> (\<exists>b t. s = b # t \<and> b \<noteq> 0)"
  by (cases s) (auto simp: byte0_def)

function (sequential) matchhere :: "uchar list \<Rightarrow> uchar list \<Rightarrow> bool"
  and matchstar :: "uchar \<Rightarrow> uchar list \<Rightarrow> uchar list \<Rightarrow> bool" where
  "matchhere re t =
     (if byte0 re = 0 then True
      else if byte0 (tl re) = STAR then matchstar (byte0 re) (tl (tl re)) t
      else if byte0 re = DOLLAR \<and> byte0 (tl re) = 0 then byte0 t = 0
      else if byte0 t \<noteq> 0 \<and> (byte0 re = DOT \<or> byte0 re = byte0 t) then matchhere (tl re) (tl t)
      else False)"
| "matchstar c re t =
     (if matchhere re t then True
      else if byte0 t \<noteq> 0 \<and> (byte0 t = c \<or> c = DOT) then matchstar c re (tl t)
      else False)"
  by pat_completeness auto
termination
proof (relation "measure (\<lambda>x. case x of Inl (re, t) \<Rightarrow> 2 * (length re + length t)
    | Inr (c, re, t) \<Rightarrow> 2 * (length re + length t) + 1)", goal_cases)
  case (2 re t)
  then have "byte0 re \<noteq> 0" "byte0 (tl re) \<noteq> 0" by auto
  then obtain a b r where "re = a # b # r" unfolding byte0_nonzero by (metis list.sel(3))
  then show ?case by simp
next
  case (3 re t)
  then show ?case by (auto simp: byte0_nonzero)
next
  case (5 c re t)
  then show ?case by (auto simp: byte0_nonzero)
qed auto

declare matchhere.simps [simp del] matchstar.simps [simp del]

fun match_from :: "uchar list \<Rightarrow> uchar list \<Rightarrow> bool" where
  "match_from re t =
     (if matchhere re t then True else case t of [] \<Rightarrow> False | b # t' \<Rightarrow> b \<noteq> 0 \<and> match_from re t')"

declare match_from.simps [simp del]

definition match :: "uchar list \<Rightarrow> uchar list \<Rightarrow> bool" where
  "match re t = (if byte0 re = CARET then matchhere (tl re) t else match_from re t)"

text \<open>
  The inner loop of \<open>grep\<close> on the bytes of \<^verbatim>\<open>buf\<close> from \<^verbatim>\<open>p\<close> up to the null at \<^verbatim>\<open>buf[m]\<close>. A line is handed to
  \<open>match\<close> with a null in the place of its newline. The value is the part of the buffer kept for the next round.
\<close>

function grep_lines :: "'k usys \<Rightarrow> uchar list \<Rightarrow> uchar list \<Rightarrow> ('k, uchar list) up" where
  "grep_lines S re p k =
     (case ustrchr p 10 of
        None \<Rightarrow> (Done p, k)
      | Some q \<Rightarrow>
          ubind (if match re (take (length p - length q) p)
                 then ubind (ucall (u_write S 1 (take (length p - length q + 1) p))) (\<lambda>_. uret ()) else uret ())
            (\<lambda>_. grep_lines S re (tl q)) k)"
  by pat_completeness auto
termination by (relation "measure (\<lambda>(S, re, p, k). length p)") (auto dest!: ustrchr_Some)

declare grep_lines.simps [simp del]

fun grep :: "'k usys \<Rightarrow> uchar list \<Rightarrow> cint \<Rightarrow> nat \<Rightarrow> uchar list \<Rightarrow> ('k, unit) up" where
  "grep S re fd 0 buf k = (Spin, k)"
| "grep S re fd (Suc g) buf k =
     (case u_read S fd (1024 - length buf - 1) k of
        (Some (b # bs), k) \<Rightarrow> ubind (grep_lines S re (buf @ b # bs)) (\<lambda>p. grep S re fd g p) k
      | (_, k) \<Rightarrow> (Done (), k))"

definition grep_main :: "'k usys \<Rightarrow> nat \<Rightarrow> uchar list list \<Rightarrow> ('k, unit) up" where
  "grep_main S g argv =
     (if length argv \<le> 1 then ubind (fprintf S 2 (''usage: grep pattern [file ...]'' @ newline) []) (\<lambda>_. uexit 1)
      else if length argv \<le> 2 then ubind (grep S (argv ! 1) 0 g []) (\<lambda>_. uexit 0)
      else ubind (uforeach (\<lambda>a. ubind (ucall (u_open S a 0)) (\<lambda>fd.
          if sint fd < 0 then ubind (uprintf S (''grep: cannot open %s'' @ newline) [UStr (Some a)]) (\<lambda>_. uexit 1)
          else ubind (grep S (argv ! 1) fd g []) (\<lambda>_. ubind (ucall (u_close S fd)) (\<lambda>_. uret ())))) (drop 2 argv))
        (\<lambda>_. uexit 0))"

subsection \<open>The meaning of a pattern\<close>

text \<open>
  A pattern is a sequence of items, a character or a character under a star, with an optional anchor at the end.
  \<open>spells is w\<close> says that the text \<open>w\<close> is an instance of the items.
\<close>

datatype ritem = Lit uchar | Rep uchar

definition fits :: "uchar \<Rightarrow> uchar \<Rightarrow> bool" where
  "fits c x \<longleftrightarrow> c = DOT \<or> c = x"

fun items :: "uchar list \<Rightarrow> ritem list \<times> bool" where
  "items [] = ([], False)"
| "items [c] = (if c = DOLLAR then ([], True) else ([Lit c], False))"
| "items (c # d # re) =
     (if d = STAR then (case items re of (is, e) \<Rightarrow> (Rep c # is, e))
      else case items (d # re) of (is, e) \<Rightarrow> (Lit c # is, e))"

inductive spells :: "ritem list \<Rightarrow> uchar list \<Rightarrow> bool" where
  spells_Nil: "spells [] []"
| spells_Lit: "fits c x \<Longrightarrow> spells is w \<Longrightarrow> spells (Lit c # is) (x # w)"
| spells_Rep: "\<forall>x \<in> set v. fits c x \<Longrightarrow> spells is w \<Longrightarrow> spells (Rep c # is) (v @ w)"

inductive_simps spells_simps: "spells [] w" "spells (Lit c # is) w" "spells (Rep c # is) w"

definition occurs :: "ritem list \<times> bool \<Rightarrow> uchar list \<Rightarrow> bool" where
  "occurs p t \<longleftrightarrow> (\<exists>w v. t = w @ v \<and> spells (fst p) w \<and> (snd p \<longrightarrow> v = []))"

definition selects :: "uchar list \<Rightarrow> uchar list \<Rightarrow> bool" where
  "selects re t \<longleftrightarrow>
     (case re of
        c # re' \<Rightarrow> if c = CARET then occurs (items re') t else (\<exists>u v. t = u @ v \<and> occurs (items re) v)
      | [] \<Rightarrow> True)"

lemma occurs_Nil [simp]: "occurs ([], e) t \<longleftrightarrow> (e \<longrightarrow> t = [])"
  by (auto simp: occurs_def spells_simps)

lemma occurs_Lit: "occurs (Lit c # is, e) t \<longleftrightarrow> (\<exists>x t'. t = x # t' \<and> fits c x \<and> occurs (is, e) t')"
proof
  assume "occurs (Lit c # is, e) t"
  then obtain x w v where "t = x # w @ v" "fits c x" "spells is w" "e \<longrightarrow> v = []"
    unfolding occurs_def fst_conv snd_conv spells_simps by (metis append_Cons)
  then show "\<exists>x t'. t = x # t' \<and> fits c x \<and> occurs (is, e) t'" by (auto simp: occurs_def)
next
  assume "\<exists>x t'. t = x # t' \<and> fits c x \<and> occurs (is, e) t'"
  then obtain x w v where "t = (x # w) @ v" "spells (Lit c # is) (x # w)" "e \<longrightarrow> v = []" by (auto simp: occurs_def spells_simps)
  then show "occurs (Lit c # is, e) t" unfolding occurs_def fst_conv snd_conv by blast
qed

lemma occurs_Rep_iff: "occurs (Rep c # is, e) t \<longleftrightarrow> (\<exists>u t'. t = u @ t' \<and> (\<forall>x \<in> set u. fits c x) \<and> occurs (is, e) t')"
proof
  assume "occurs (Rep c # is, e) t"
  then obtain u w v where "t = u @ w @ v" "\<forall>x \<in> set u. fits c x" "spells is w" "e \<longrightarrow> v = []"
    unfolding occurs_def fst_conv snd_conv spells_simps by (metis append.assoc)
  then show "\<exists>u t'. t = u @ t' \<and> (\<forall>x \<in> set u. fits c x) \<and> occurs (is, e) t'" by (auto simp: occurs_def)
next
  assume "\<exists>u t'. t = u @ t' \<and> (\<forall>x \<in> set u. fits c x) \<and> occurs (is, e) t'"
  then obtain u w v where "t = (u @ w) @ v" "spells (Rep c # is) (u @ w)" "e \<longrightarrow> v = []"
    unfolding occurs_def fst_conv snd_conv by (metis append.assoc spells_Rep)
  then show "occurs (Rep c # is, e) t" unfolding occurs_def fst_conv snd_conv by blast
qed

lemma occurs_Rep: "occurs (Rep c # is, e) t \<longleftrightarrow> occurs (is, e) t \<or> (\<exists>x t'. t = x # t' \<and> fits c x \<and> occurs (Rep c # is, e) t')"
proof
  assume "occurs (Rep c # is, e) t"
  then obtain u t' where t: "t = u @ t'" "\<forall>x \<in> set u. fits c x" "occurs (is, e) t'" unfolding occurs_Rep_iff by blast
  then show "occurs (is, e) t \<or> (\<exists>x t'. t = x # t' \<and> fits c x \<and> occurs (Rep c # is, e) t')"
    by (cases u) (auto simp: occurs_Rep_iff)
next
  assume "occurs (is, e) t \<or> (\<exists>x t'. t = x # t' \<and> fits c x \<and> occurs (Rep c # is, e) t')"
  then show "occurs (Rep c # is, e) t"
  proof
    assume "occurs (is, e) t"
    then show ?thesis unfolding occurs_Rep_iff by (intro exI[of _ "[]"] exI[of _ t]) simp
  next
    assume "\<exists>x t'. t = x # t' \<and> fits c x \<and> occurs (Rep c # is, e) t'"
    then obtain x u t' where "t = (x # u) @ t'" "\<forall>x \<in> set (x # u). fits c x" "occurs (is, e) t'" by (auto simp: occurs_Rep_iff)
    then show ?thesis unfolding occurs_Rep_iff by blast
  qed
qed

lemma cstring_end: "byte0 s = 0 \<Longrightarrow> cstring s = []"
  by (cases s) (auto simp: byte0_def cstring_def)

lemma cstring_step: "byte0 s \<noteq> 0 \<Longrightarrow> cstring s = byte0 s # cstring (tl s)"
  by (cases s) (auto simp: byte0_def cstring_def)

lemma items_Lit:
  "byte0 re \<noteq> 0 \<Longrightarrow> byte0 (tl re) \<noteq> STAR \<Longrightarrow> \<not> (byte0 re = DOLLAR \<and> byte0 (tl re) = 0) \<Longrightarrow>
    items (cstring re) = (Lit (byte0 re) # fst (items (cstring (tl re))), snd (items (cstring (tl re))))"
  by (cases "byte0 (tl re) = 0") (auto simp: cstring_step cstring_end split_def)

lemma items_Rep:
  "byte0 re \<noteq> 0 \<Longrightarrow> byte0 (tl re) = STAR \<Longrightarrow>
    items (cstring re) = (Rep (byte0 re) # fst (items (cstring (tl (tl re)))), snd (items (cstring (tl (tl re)))))"
  by (simp add: cstring_step split_def)

lemma matchhere_occurs:
  "matchhere re t \<longleftrightarrow> occurs (items (cstring re)) (cstring t)"
  "matchstar c re t \<longleftrightarrow> occurs (Rep c # fst (items (cstring re)), snd (items (cstring re))) (cstring t)"
proof (induction re t and c re t rule: matchhere_matchstar.induct)
  case (1 re t)
  consider "byte0 re = 0" | "byte0 re \<noteq> 0" "byte0 (tl re) = STAR" | "byte0 re = DOLLAR" "byte0 (tl re) = 0"
    | "byte0 re \<noteq> 0" "byte0 (tl re) \<noteq> STAR" "\<not> (byte0 re = DOLLAR \<and> byte0 (tl re) = 0)" by blast
  then show ?case
  proof cases
    case 1
    then show ?thesis by (simp add: matchhere.simps cstring_end)
  next
    case 2
    then show ?thesis using "1.IH"(1) by (simp add: matchhere.simps[of re] items_Rep)
  next
    case 3
    then show ?thesis by (cases "byte0 t = 0") (auto simp: matchhere.simps[of re] cstring_step cstring_end)
  next
    case 4
    then show ?thesis using "1.IH"(2) cstring_step[of t] cstring_end[of t]
      by (cases "byte0 t = 0") (auto simp: matchhere.simps[of re] items_Lit[OF 4] occurs_Lit fits_def)
  qed
next
  case (2 c re t)
  let ?is = "fst (items (cstring re))" and ?e = "snd (items (cstring re))"
  note step = occurs_Rep[of c ?is ?e "cstring t", unfolded prod.collapse]
  show ?case
  proof (cases "byte0 t = 0")
    case True
    then show ?thesis unfolding step matchstar.simps[of c re t] using 2(1) by (simp add: cstring_end)
  next
    case False
    then show ?thesis unfolding step matchstar.simps[of c re t] using 2 cstring_step[OF False] by (auto simp: fits_def)
  qed
qed

lemma match_from_occurs: "match_from re t \<longleftrightarrow> (\<exists>u v. cstring t = u @ v \<and> occurs (items (cstring re)) v)"
proof (induction t)
  case Nil
  then show ?case by (simp add: match_from.simps matchhere_occurs cstring_def)
next
  case (Cons b t)
  have "(\<exists>u v. b # cstring t = u @ v \<and> P v) \<longleftrightarrow> P (b # cstring t) \<or> (\<exists>u v. cstring t = u @ v \<and> P v)" for P
    by (auto simp: Cons_eq_append_conv)
  then show ?case using Cons by (simp add: match_from.simps[of re "b # t"] matchhere_occurs) (auto simp: cstring_def)
qed

lemma match_selects: "match re t \<longleftrightarrow> selects (cstring re) (cstring t)"
proof (cases "byte0 re = 0")
  case True
  then show ?thesis by (auto simp: match_def match_from_occurs selects_def cstring_end intro: exI[of _ "[]"])
next
  case False
  then show ?thesis by (simp add: match_def match_from_occurs matchhere_occurs selects_def cstring_step)
qed

text \<open>
  C27. The recursive matcher of grep decides what its patterns mean: \<open>match\<close> accepts a text exactly if some part of it
  is an instance of the pattern's items, a part at the beginning when the pattern starts with a caret, and a part that reaches
  the end when the pattern ends with a dollar sign. Pattern and text are C strings, so what
  follows the first null does not count.
\<close>

theorem match_correct: "match re t \<longleftrightarrow> selects (cstring re) (cstring t)"
  by (rule match_selects)

subsection \<open>Streams\<close>

text \<open>
  The documented behaviour of \<^verbatim>\<open>read\<close> on a descriptor and of \<^verbatim>\<open>write\<close> on the standard output: \<open>inp\<close> is the text that can
  still be read and \<open>out\<close> the text that was written. A read delivers a piece of any size up to the one
  asked for, and an empty one only at the end; a write takes all bytes.
\<close>

definition stream :: "'k usys \<Rightarrow> cint \<Rightarrow> ('k \<Rightarrow> uchar list) \<Rightarrow> ('k \<Rightarrow> uchar list) \<Rightarrow> bool" where
  "stream S fd inp out \<longleftrightarrow>
     (\<forall>k n. 0 < n \<longrightarrow> (\<exists>bs k'. u_read S fd n k = (Some bs, k') \<and> length bs \<le> n \<and> inp k = bs @ inp k' \<and>
        (bs = [] \<longrightarrow> inp k = []) \<and> out k' = out k)) \<and>
     (\<forall>k bs. \<exists>k'. u_write S 1 bs k = (word_of_nat (length bs), k') \<and> inp k' = inp k \<and> out k' = out k @ bs)"

lemma stream_read:
  assumes "stream S fd inp out" "0 < n"
  obtains bs k' where "u_read S fd n k = (Some bs, k')" "length bs \<le> n" "inp k = bs @ inp k'" "bs = [] \<Longrightarrow> inp k = []" "out k' = out k"
  using assms unfolding stream_def by blast

lemma stream_write:
  assumes "stream S fd inp out"
  obtains k' where "u_write S 1 bs k = (word_of_nat (length bs), k')" "inp k' = inp k" "out k' = out k @ bs"
  using assms unfolding stream_def by blast

text \<open>A system that refuses every call, and a stream held in memory, read in pieces of at most \<open>m\<close> bytes.\<close>

definition no_sys :: "'k usys" where
  "no_sys =
     \<lparr>u_read = \<lambda>fd n k. (None, k), u_write = \<lambda>fd bs k. (- 1, k), u_open = \<lambda>p m k. (- 1, k), u_close = \<lambda>fd k. (- 1, k),
      u_fstat = \<lambda>fd k. (None, k), u_fork = \<lambda>k. (- 1, k), u_exec = \<lambda>p av k. (Some (- 1), k), u_wait = \<lambda>k. (- 1, k),
      u_pipe = \<lambda>k. (None, k), u_dup = \<lambda>fd k. (- 1, k), u_chdir = \<lambda>p k. (- 1, k), u_kill = \<lambda>p k. (- 1, k),
      u_link = \<lambda>p q k. (- 1, k), u_unlink = \<lambda>p k. (- 1, k), u_mkdir = \<lambda>p k. (- 1, k), u_mknod = \<lambda>p i j k. (- 1, k),
      u_sleep = \<lambda>n k. (- 1, k), u_trace = \<lambda>n k. (- 1, k), u_waitx = \<lambda>k. ((- 1, 0, 0), k), u_set_priority = \<lambda>i j k. (- 1, k)\<rparr>"

definition memory_stream :: "nat \<Rightarrow> (uchar list \<times> uchar list) usys" where
  "memory_stream m = no_sys
     \<lparr>u_read := \<lambda>fd n (i, o'). (Some (take (min (Suc m) n) i), (drop (min (Suc m) n) i, o')),
      u_write := \<lambda>fd bs (i, o'). (word_of_nat (length bs), (i, o' @ bs))\<rparr>"

lemma memory_stream: "stream (memory_stream m) fd fst snd"
  by (auto simp: stream_def memory_stream_def min_def)

text \<open>The pieces of a text between the characters that satisfy \<open>P\<close>.\<close>

fun pieces :: "('a \<Rightarrow> bool) \<Rightarrow> 'a list \<Rightarrow> 'a list list" where
  "pieces P [] = [[]]"
| "pieces P (b # s) = (if P b then [] # pieces P s else (b # hd (pieces P s)) # tl (pieces P s))"

lemma pieces_ne [simp]: "pieces P s \<noteq> []"
  by (cases s) auto

lemma pieces_append: "pieces P (s @ t) = butlast (pieces P s) @ (last (pieces P s) @ hd (pieces P t)) # tl (pieces P t)"
proof (induction s)
  case (Cons b s)
  then show ?case by (cases "pieces P s") (auto simp: neq_Nil_conv)
qed simp

abbreviation lines :: "uchar list \<Rightarrow> uchar list list" where
  "lines s \<equiv> butlast (pieces (\<lambda>b. b = 10) s)"

abbreviation last_line :: "uchar list \<Rightarrow> uchar list" where
  "last_line s \<equiv> last (pieces (\<lambda>b. b = 10) s)"

definition selected :: "uchar list \<Rightarrow> uchar list \<Rightarrow> uchar list" where
  "selected re s = concat (map (\<lambda>l. l @ [10]) (filter (selects (cstring re)) (lines s)))"

lemma pieces_one: "\<forall>b \<in> set s. \<not> P b \<Longrightarrow> pieces P s = [s]"
  by (induction s) auto

lemma pieces_in: "l \<in> set (pieces P s) \<Longrightarrow> b \<in> set l \<Longrightarrow> \<not> P b"
proof (induction s arbitrary: l)
  case (Cons c s)
  then obtain a ls where "pieces P s = a # ls" by (meson neq_Nil_conv pieces_ne)
  then show ?case using Cons.prems Cons.IH[of a] Cons.IH[of l] by (auto split: if_splits)
qed simp

lemma pieces_sub: "l \<in> set (pieces P s) \<Longrightarrow> set l \<subseteq> set s"
proof (induction s arbitrary: l)
  case (Cons c s)
  then obtain a ls where "pieces P s = a # ls" by (meson neq_Nil_conv pieces_ne)
  then show ?case using Cons.prems Cons.IH[of a] Cons.IH[of l] by (auto split: if_splits)
qed simp

lemma pieces_last: "pieces P (last (pieces P s)) = [last (pieces P s)]"
  by (intro pieces_one ballI) (rule pieces_in[OF last_in_set[OF pieces_ne]])

lemma pieces_append_last: "pieces P (s @ t) = butlast (pieces P s) @ pieces P (last (pieces P s) @ t)"
  by (simp add: pieces_append[of _ s] pieces_append[of _ "last (pieces P s)"] pieces_last)

lemma lines_append: "lines (s @ t) = lines s @ lines (last_line s @ t)" "last_line (s @ t) = last_line (last_line s @ t)"
  by (simp_all add: pieces_append_last[of _ s t] butlast_append)

lemma selected_match:
  "0 \<notin> set s \<Longrightarrow> selected re s = concat (map (\<lambda>l. l @ [10]) (filter (match re) (lines s)))"
proof -
  assume s: "0 \<notin> set s"
  have "selects (cstring re) l = match re l" if "l \<in> set (lines s)" for l
  proof -
    have "0 \<notin> set l" using s in_set_butlastD[OF that] pieces_sub[of l "\<lambda>b. b = 10" s] by auto
    then have "cstring l = l" by (simp add: cstring_def takeWhile_eq_all_conv) metis
    then show ?thesis by (simp add: match_selects)
  qed
  then show ?thesis unfolding selected_def by (metis (mono_tags, lifting) filter_cong)
qed

lemma selected_append: "selected re (s @ t) = selected re s @ selected re (last_line s @ t)"
  by (simp add: selected_def lines_append(1)[of s t])

lemma last_line_set: "set (last (pieces P s)) \<subseteq> set s" "b \<in> set (last (pieces P s)) \<Longrightarrow> \<not> P b"
  by (rule pieces_sub[OF last_in_set[OF pieces_ne]], rule pieces_in[OF last_in_set[OF pieces_ne]])

lemma lines_one: "10 \<notin> set u \<Longrightarrow> lines u = [] \<and> last_line u = u" "10 \<notin> set u \<Longrightarrow> lines (u @ 10 # t) = u # lines t \<and> last_line (u @ 10 # t) = last_line t"
proof -
  have one: "10 \<notin> set u \<Longrightarrow> pieces (\<lambda>b. b = 10) u = [u]" by (rule pieces_one) auto
  show "lines u = [] \<and> last_line u = u" if "10 \<notin> set u" using one[OF that] by simp
  show "lines (u @ 10 # t) = u # lines t \<and> last_line (u @ 10 # t) = last_line t" if "10 \<notin> set u"
    using one[OF that] pieces_append[of "\<lambda>b. b = 10" u "10 # t"] by simp
qed

lemma grep_lines_ok:
  assumes "stream S fd inp out" "0 \<notin> set p"
  shows "\<exists>k'. grep_lines S re p k = (Done (last_line p), k') \<and> inp k' = inp k \<and> out k' = out k @ selected re p"
  using assms
proof (induction S re p k rule: grep_lines.induct)
  case (1 S re p k)
  show ?case
  proof (cases "ustrchr p 10")
    case None
    then have "10 \<notin> set p" using 1(3) by (simp add: ustrchr_None)
    then show ?thesis using None lines_one(1)[of p] by (simp add: grep_lines.simps selected_def)
  next
    case (Some q)
    then obtain u t where q: "p = u @ 10 # t" "q = 10 # t" "10 \<notin> set u" "0 \<notin> set u" using ustrchr_Some[OF Some] by auto
    let ?w = "if match re u then ubind (ucall (u_write S 1 (u @ [10]))) (\<lambda>_. uret ()) else uret ()"
    obtain w where "u_write S 1 (u @ [10]) k = (word_of_nat (length (u @ [10])), w)" "inp w = inp k" "out w = out k @ u @ [10]"
      by (rule stream_write[OF 1(2)]) (rule that)
    then obtain k1 where k1: "?w k = (Done (), k1)" "inp k1 = inp k" "out k1 = out k @ (if match re u then u @ [10] else [])"
      by (cases "match re u") auto
    have "\<exists>k'. grep_lines S re t k1 = (Done (last_line t), k') \<and> inp k' = inp k1 \<and> out k' = out k1 @ selected re t"
      using 1(1)[OF Some 1(2), of k1] 1(3) q by simp
    moreover have "grep_lines S re p k = grep_lines S re t k1" unfolding grep_lines.simps[of S re p] Some using q ubind_simps(1)[of ?w k, OF k1(1)] by (cases "match re u") simp_all
    moreover have "cstring u = u" using q by (simp add: cstring_def takeWhile_eq_all_conv) metis
    ultimately show ?thesis using k1 q lines_one(2)[OF q(3), of t] by (auto simp: selected_def match_selects)
  qed
qed

lemma grep_ok:
  assumes str: "stream S fd inp out" and "0 \<notin> set (buf @ inp k)" "10 \<notin> set buf"
    and "\<forall>l \<in> set (pieces (\<lambda>b. b = 10) (buf @ inp k)). length l \<le> 1022" and "length (inp k) < g"
  shows "\<exists>k'. grep S re fd g buf k = (Done (), k') \<and> inp k' = [] \<and> out k' = out k @ selected re (buf @ inp k)"
  using assms(2-)
proof (induction g arbitrary: buf k)
  case (Suc g)
  let ?nl = "\<lambda>b :: uchar. b = 10"
  have "pieces ?nl (buf @ inp k) = (buf @ hd (pieces ?nl (inp k))) # tl (pieces ?nl (inp k))"
    using lines_one(1)[OF Suc.prems(2)] pieces_append[of ?nl buf "inp k"] by simp
  then have "length buf \<le> 1022" using Suc.prems(3) by simp
  then have "0 < 1024 - length buf - 1" by simp
  then obtain bs k1 where k1: "u_read S fd (1024 - length buf - 1) k = (Some bs, k1)" "inp k = bs @ inp k1" "bs = [] \<Longrightarrow> inp k = []" "out k1 = out k"
    by (rule stream_read[OF str]) (rule that)
  show ?case
  proof (cases bs)
    case Nil
    then show ?thesis using k1 lines_one(1)[OF Suc.prems(2)] by (simp add: selected_def)
  next
    case (Cons b bs')
    have "0 \<notin> set (buf @ bs)" using Suc.prems(1) k1(2) by auto
    then obtain k2 where k2: "grep_lines S re (buf @ bs) k1 = (Done (last_line (buf @ bs)), k2)" "inp k2 = inp k1" "out k2 = out k @ selected re (buf @ bs)"
      using grep_lines_ok[OF str] k1(4) by metis
    have p: "pieces ?nl (buf @ inp k) = lines (buf @ bs) @ pieces ?nl (last_line (buf @ bs) @ inp k2)"
      using pieces_append_last[of ?nl "buf @ bs" "inp k2"] k1(2) k2(2) by simp
    have "\<exists>k'. grep S re fd g (last_line (buf @ bs)) k2 = (Done (), k') \<and> inp k' = [] \<and>
        out k' = out k2 @ selected re (last_line (buf @ bs) @ inp k2)"
    proof (rule Suc.IH)
      show "0 \<notin> set (last_line (buf @ bs) @ inp k2)" using last_line_set(1)[of ?nl "buf @ bs"] Suc.prems(1) k1(2) k2(2) by auto
      show "10 \<notin> set (last_line (buf @ bs))" using last_line_set(2)[of 10 ?nl "buf @ bs"] by auto
      show "\<forall>l \<in> set (pieces ?nl (last_line (buf @ bs) @ inp k2)). length l \<le> 1022" using Suc.prems(3) p by simp
      show "length (inp k2) < g" using Suc.prems(4) k1(2) k2(2) Cons by simp
    qed
    moreover have "selected re (buf @ inp k) = selected re (buf @ bs) @ selected re (last_line (buf @ bs) @ inp k2)"
      using selected_append[of re "buf @ bs" "inp k2"] k1(2) k2(2) by simp
    moreover have "grep S re fd (Suc g) buf k = grep S re fd g (last_line (buf @ bs)) k2" using k1(1) k2(1) Cons by simp
    ultimately show ?thesis using k2(3) by (simp del: grep.simps)
  qed
qed simp

text \<open>
  C26. grep prints the matching lines: if no line is longer than 1022 bytes and the input holds no null byte, then, whatever
  pieces \<^verbatim>\<open>read\<close> delivers, grep consumes its input, ends, and writes exactly the lines that end with a newline and
  that the pattern selects, in order.
\<close>

theorem grep_prints_matching_lines:
  assumes str: "stream S fd inp out" and clean: "0 \<notin> set (inp k)"
    and len: "\<forall>l \<in> set (pieces (\<lambda>b. b = 10) (inp k)). length l \<le> 1022" and g: "length (inp k) < g"
  shows "\<exists>k'. grep S re fd g [] k = (Done (), k') \<and> inp k' = [] \<and> out k' = out k @ selected re (inp k)"
  using grep_ok[OF str, of "[]" k g re] assms by simp

theorem grep_prints_matching_lines_witness:
  "\<exists>k. grep (memory_stream 2) (ub ''a.*c'') 0 20 [] (ub ''abc'' @ [10] @ ub ''xyz'' @ [10] @ ub ''bac'' @ [10], []) = (Done (), k) \<and>
    snd k = ub ''abc'' @ [10] @ ub ''bac'' @ [10]"
proof -
  let ?i = "ub ''abc'' @ [10] @ ub ''xyz'' @ [10] @ ub ''bac'' @ [10]"
  have "0 \<notin> set ?i" "\<forall>l \<in> set (pieces (\<lambda>b. b = 10) ?i). length l \<le> 1022" "length ?i < 20" by code_simp+
  moreover have "concat (map (\<lambda>l. l @ [10]) (filter (match (ub ''a.*c'')) (lines ?i))) = ub ''abc'' @ [10] @ ub ''bac'' @ [10]"
    by code_simp
  ultimately show ?thesis
    using grep_prints_matching_lines[OF memory_stream[of 2], where k = "(?i, [])" and g = 20 and re = "ub ''a.*c''"] selected_match[of ?i "ub ''a.*c''"] by fastforce
qed

text \<open>
  \<open>counts s\<close> is the state of the counters of wc after the text \<open>s\<close>: lines, words, bytes and whether the text ends inside
  a word. A word is a piece between spaces that is not empty.
\<close>

definition counts :: "uchar list \<Rightarrow> wc_state" where
  "counts s = (word_of_nat (count_list s 10), word_of_nat (length (filter (\<lambda>w. w \<noteq> []) (pieces wc_space s))),
     word_of_nat (length s), last (pieces wc_space s) \<noteq> [])"

lemma wc_byte_counts: "wc_byte b (counts s) = counts (s @ [b])"
proof (cases "wc_space b")
  case True
  then have "pieces wc_space (s @ [b]) = pieces wc_space s @ [[]]"
    using append_butlast_last_id[OF pieces_ne, of wc_space s] by (simp add: pieces_append)
  with True show ?thesis by (simp add: counts_def Let_def add.commute)
next
  case False
  obtain us u where u: "pieces wc_space s = us @ [u]" by (metis append_butlast_last_id pieces_ne)
  with False have "pieces wc_space (s @ [b]) = us @ [u @ [b]]" by (simp add: pieces_append)
  with False u show ?thesis by (simp add: counts_def Let_def add.commute)
qed

lemma wc_loop_ok:
  assumes "stream S fd inp out" and "length (inp k) < g"
  shows "\<exists>k'. wc_loop S fd g (counts s) k = (Done (Some (counts (s @ inp k))), k') \<and> inp k' = [] \<and> out k' = out k"
  using assms(2)
proof (induction g arbitrary: s k)
  case (Suc g)
  have fold: "fold wc_byte bs (counts s) = counts (s @ bs)" for bs
    by (induction bs arbitrary: s) (simp_all add: wc_byte_counts)
  obtain bs k1 where k1: "u_read S fd 512 k = (Some bs, k1)" "inp k = bs @ inp k1" "bs = [] \<Longrightarrow> inp k = []" "out k1 = out k"
    by (rule stream_read[OF assms(1), of 512 k]) (simp, rule that)
  show ?case
  proof (cases "bs = []")
    case True
    then show ?thesis using k1 by simp
  next
    case False
    then have "wc_loop S fd (Suc g) (counts s) k = wc_loop S fd g (counts (s @ bs)) k1" using k1(1) fold[of bs] by (cases bs) auto
    moreover have "length (inp k1) < g" using Suc.prems False k1(2) by (cases bs) auto
    ultimately show ?thesis using Suc.IH[of k1 "s @ bs"] k1(2,4) by (simp del: wc_loop.simps)
  qed
qed simp

lemma vprintf_stream:
  assumes "stream S fd inp out"
  shows "\<exists>k'. vprintf S 1 fmt ap k = (Done (), k') \<and> inp k' = inp k \<and> out k' = out k @ vformat fmt ap"
proof -
  have "\<exists>k'. uforeach (putc S 1) cs k = (Done (), k') \<and> inp k' = inp k \<and> out k' = out k @ cs" for cs
  proof (induction cs arbitrary: k)
    case (Cons c cs)
    obtain k1 where "u_write S 1 [c] k = (word_of_nat (length [c]), k1)" "inp k1 = inp k" "out k1 = out k @ [c]"
      by (rule stream_write[OF assms]) (rule that)
    then show ?case using Cons.IH[of k1] by (simp add: putc_Done)
  qed simp
  then show ?thesis by (simp add: vprintf_def)
qed

text \<open>
  C28. wc counts: whatever pieces \<^verbatim>\<open>read\<close> delivers, wc consumes its input and prints the number of newlines, the number of
  words and the number of bytes of the whole text, modulo \<open>2^32\<close>; a word that lies across two pieces counts once.
\<close>

theorem wc_counts:
  assumes "stream S fd inp out" and "length (inp k) < g"
  shows "\<exists>k'. wc S g fd name k = (Done (), k') \<and> inp k' = [] \<and> out k' = out k @
    vformat (''%d %d %d %s'' @ newline) [uint_arg (word_of_nat (count_list (inp k) 10)),
      uint_arg (word_of_nat (length (filter (\<lambda>w. w \<noteq> []) (pieces wc_space (inp k))))),
      uint_arg (word_of_nat (length (inp k))), UStr (Some name)]"
proof -
  obtain k1 where k1: "wc_loop S fd g (counts []) k = (Done (Some (counts (inp k))), k1)" "inp k1 = []" "out k1 = out k"
    using wc_loop_ok[OF assms, of "[]"] by auto
  moreover have "counts [] = (0, 0, 0, False)" by (simp add: counts_def)
  ultimately have "wc S g fd name k = vprintf S 1 (''%d %d %d %s'' @ newline) [uint_arg (word_of_nat (count_list (inp k) 10)),
      uint_arg (word_of_nat (length (filter (\<lambda>w. w \<noteq> []) (pieces wc_space (inp k))))),
      uint_arg (word_of_nat (length (inp k))), UStr (Some name)] k1"
    by (simp add: wc_def uprintf_def counts_def del: wc_loop.simps)
  then show ?thesis using vprintf_stream[OF assms(1), of _ _ k1] k1(2,3) by metis
qed

theorem wc_counts_witness:
  "\<exists>k. wc (memory_stream 1) 20 0 (ub ''f'') (ub ''ab  c'' @ [10] @ ub ''de'', []) = (Done (), k) \<and> snd k = ub ''1 3 8 f'' @ [10]"
proof -
  let ?i = "ub ''ab  c'' @ [10] @ ub ''de''"
  have "length ?i < 20" by code_simp
  moreover have "vformat (''%d %d %d %s'' @ newline) [uint_arg (word_of_nat (count_list ?i 10)),
      uint_arg (word_of_nat (length (filter (\<lambda>w. w \<noteq> []) (pieces wc_space ?i)))),
      uint_arg (word_of_nat (length ?i)), UStr (Some (ub ''f''))] = ub ''1 3 8 f'' @ [10]" by code_simp
  ultimately show ?thesis
    using wc_counts[OF memory_stream[of 1 0], where k = "(?i, [])" and g = 20 and name = "ub ''f''"] by fastforce
qed

end
