(* ===== verification/Xv6_Shgrammar.thy ===== *)
theory Xv6_Shgrammar
  imports Xv6_Shparse
begin

section \<open>The shell's grammar\<close>



subsection \<open>Meaning\<close>



subsection \<open>Writing\<close>




definition is_word :: "uchar list \<Rightarrow> bool" where
  "is_word w \<longleftrightarrow> w \<noteq> [] \<and> (\<forall>x \<in> set w. is_wordchar x)"

definition sh_signs :: "uchar list set" where
  "sh_signs = ub ` {''<'', ''>'', ''>>'', ''|'', ''('', '')'', '';'', ''&''}"




text \<open>
  \<open>written xs s\<close>: the text \<open>s\<close> is the sequence of lexemes \<open>xs\<close>, with white space before, between and after them as one likes,
  as long as two lexemes do not run together: a word ends before white space, a symbol or the end, and \<^verbatim>\<open>>\<close> is not followed by \<^verbatim>\<open>>\<close>.
\<close>

definition apart_from :: "uchar list \<Rightarrow> uchar list \<Rightarrow> bool" where
  "apart_from x s \<longleftrightarrow> s = [] \<or> (if is_word x then \<not> is_wordchar (hd s) else x = ub ''>'' \<longrightarrow> hd s \<noteq> T_GT)"

fun written :: "uchar list list \<Rightarrow> uchar list \<Rightarrow> bool" where
  "written [] s \<longleftrightarrow> (\<forall>c \<in> set s. is_space c)"
| "written (x # xs) s \<longleftrightarrow> (\<exists>pre t. s = pre @ x @ t \<and> (\<forall>c \<in> set pre. is_space c) \<and> apart_from x t \<and> written xs t)"

subsection \<open>The scanner finds the lexemes\<close>

definition lexeme :: "uchar list \<Rightarrow> bool" where
  "lexeme x \<longleftrightarrow> is_word x \<or> x \<in> sh_signs"


definition text_at :: "uchar list \<Rightarrow> nat \<Rightarrow> uchar list list \<Rightarrow> bool" where
  "text_at b i xs \<longleftrightarrow> i \<le> length b \<and> 0 \<notin> set b \<and> written xs (drop i b) \<and> (\<forall>x \<in> set xs. lexeme x)"

lemma sign_cases: "x \<in> sh_signs \<longleftrightarrow> x \<in> {[60], [62], [62, 62], [124], [40], [41], [59], [38]}"
  by (simp add: sh_signs_def ub_def)

lemma sign_not_word: "x \<in> sh_signs \<Longrightarrow> \<not> is_word x"
  unfolding sign_cases insert_iff empty_iff
  by (elim disjE) (simp_all add: is_word_def is_wordchar_def is_symbol_iff ub_def)












subsection \<open>The parser returns the meaning\<close>


text \<open>What a parser returns for a piece of text with the meaning \<open>m\<close>, unless it runs out of depth.\<close>

definition gives :: "uchar list \<Rightarrow> uchar list cmd \<Rightarrow> uchar list list \<Rightarrow> (pcmd \<times> nat) kres \<Rightarrow> bool" where
  "gives b m rest r \<longleftrightarrow> r = Hang \<or> (\<exists>c j. r = Ok (c, j) \<and> text_at b j rest \<and> map_cmd (substr b) c = m)"


lemma gives_Ok [simp]: "gives b m rest (Ok (c, j)) \<longleftrightarrow> text_at b j rest \<and> map_cmd (substr b) c = m"
  by (simp add: gives_def)








lemma ustrchr_None_iff: "0 \<notin> set s \<Longrightarrow> ustrchr s c = None \<longleftrightarrow> c \<notin> set s"
  by (rule ustrchr_None)






lemma gives_Hang [simp]: "gives b m rest Hang"
  by (simp add: gives_def)


















end
