(* ===== verification/Spec2Isabelle.thy ===== *)
theory Spec2Isabelle
  imports Xv6_Pipelive Xv6_Trap Xv6_Cachespec Xv6_Line Xv6_Filters Xv6_Shgrammar
begin

text \<open>
  \<^bold>\<open>A verified model of xv6 for RISC-V with four schedulers.\<close>

  The program is a teaching kernel: processes with Sv39 page tables, a log-structured transaction layer
  over a buffer cache and a virtio disk, a Unix file system with pipes and devices, and a scheduler chosen
  at build time among round robin, first-come-first-served, a priority policy (PBS) and a multi-level
  feedback queue (MLFQ). This library translates its C code, file by file, into executable
  definitions and proves what makes the components correct.

  \<^bold>\<open>How the code is modelled.\<close> A C \<^verbatim>\<open>int\<close> is a 32-bit word read with \<open>sint\<close>; \<^verbatim>\<open>uint\<close>,
  \<^verbatim>\<open>uint64\<close>, \<^verbatim>\<open>uchar\<close> and \<^verbatim>\<open>ushort\<close> are words of their width, so wrap-around is part of the
  model. A \<^verbatim>\<open>struct\<close> is a record, a pointer into a table is an index, and physical memory is a function from
  64-bit addresses to bytes in which the free list, the page tables, the trap frames and the user pages
  live as they do in the machine. An operation is a function from a state to \<open>kres\<close>: \<open>Ok\<close> with a value
  and the new state, \<open>Panic\<close> with the message of the kernel's \<^verbatim>\<open>panic\<close>, or \<open>Hang\<close> where the caller
  would sleep until another process acts. A dereference of a null pointer is \<open>Panic ''kerneltrap''\<close>, as
  the trap handler makes it, and an index outside an array, where C has no meaning, is \<open>Panic ''array index''\<close> in
  operations that can fail.
  A section under a spin lock is one atomic step; sleep locks are kept, since they are held across such
  steps. Values that C leaves uninitialised are arguments.

  \<^bold>\<open>State.\<close> \<open>Xv6_Proc\<close> has the process table (kernel/proc.h, proc.c). \<open>Xv6_State\<close> adds, one record
  extension at a time, the physical memory, the console and UART, the disk with its buffer cache, log
  and inode table, and the open files and pipes. An operation of a layer is polymorphic in the layers above.

  \<^bold>\<open>Theories and the code they translate.\<close>
  \<^item> \<open>Xv6_Prelude\<close>: integers, results, the state operations \<open>kseq\<close>, \<open>kget\<close>, \<open>kmod\<close>, shared lemmas.
  \<^item> \<open>Xv6_Queue\<close> (queue.c), \<open>Xv6_Spinlock\<close> (spinlock.c, with the interleaving of harts as a step relation),
    \<open>Xv6_Printf\<close> (printf.c), \<open>Xv6_Layout\<close> (memlayout.h, the macros of riscv.h), \<open>Xv6_Ring\<close> (the
    ring buffers that pipe.c, uart.c and console.c have in common).
  \<^item> \<open>Xv6_Proc\<close>, \<open>Xv6_Sched\<close>, \<open>Xv6_Policy\<close> (proc.c, the clock interrupt of trap.c): the table, sleeping and
    waking, the four policies, ageing and time accounting; \<open>Xv6_Lifecycle\<close>: fork, exit, wait, waitx.
  \<^item> \<open>Xv6_Memory\<close> (string.c), \<open>Xv6_Kalloc\<close> (kalloc.c), \<open>Xv6_Vm\<close> (vm.c), with the proofs in
    \<open>Xv6_Pagetable\<close>, \<open>Xv6_Usermem\<close>, \<open>Xv6_Uvm\<close> and \<open>Xv6_Uvmcopy\<close>.
  \<^item> \<open>Xv6_Bio\<close> (sleeplock.c, bio.c), \<open>Xv6_Log\<close> (log.c), \<open>Xv6_Fs\<close> and \<open>Xv6_Dir\<close> (fs.c), with the proofs in
    \<open>Xv6_Bcache\<close>, \<open>Xv6_Crash\<close>, \<open>Xv6_Recover\<close>, \<open>Xv6_Transaction\<close> and \<open>Xv6_Cachespec\<close>; \<open>Xv6_Virtio\<close>
    (virtio_disk.c). \<open>Xv6_Boot\<close> has the zeroed state that the witnesses start from.
  \<^item> \<open>Xv6_Console\<close> (console.c, uart.c), \<open>Xv6_File\<close> (pipe.c, file.c), \<open>Xv6_Exec\<close> (exec.c), \<open>Xv6_Sysfile\<close>
    (sysfile.c), \<open>Xv6_Syscall\<close> (syscall.c, sysproc.c), \<open>Xv6_Trap\<close> (trap.c, main.c). The proofs on pipes are in
    \<open>Xv6_Pipe\<close>, those on the console and the UART in \<open>Xv6_Line\<close>.
  \<^item> The user side: \<open>Xv6_Ulib\<close> (user/ulib.c, user/printf.c) over an interface \<open>usys\<close> of system-call stubs, \<open>Xv6_Filters\<close>
    (cat.c, echo.c, wc.c, grep.c) and \<open>Xv6_Sh\<close> (sh.c), with the proofs on the shell's parser in \<open>Xv6_Shparse\<close> and
    \<open>Xv6_Shgrammar\<close>.

  \<^bold>\<open>What the lemmas show.\<close>
  \<^item> The file system survives crashes: a group of block writes between \<open>begin_op\<close> and \<open>end_op\<close> is on the
    disk entirely or not at all after a crash at any disk write and a recovery that may itself crash; the
    buffer cache refines a map of blocks with one owner per buffer and recycles the least recently used one.
  \<^item> The page allocator never hands out a page twice and loses none. On page tables, \<open>mappages\<close>, \<open>uvmalloc\<close>,
    \<open>uvmunmap\<close> and \<open>uvmcopy\<close> are proved against the user's view of memory as a partial map from
    addresses to bytes, with their failures for lack of memory; \<open>copyin\<close> and \<open>copyout\<close> read and write
    exactly that map, and address spaces do not interfere.
  \<^item> Each scheduling policy selects the process its specification names; locks exclude each other under
    every interleaving of the harts; the queues are first-in-first-out within their capacity.
  \<^item> A pipe delivers the bytes written, in order, under every interleaving of its reader and writer and across the wrap of
    its counters; the console refines a line editor on lists and a read returns the line typed; the UART
    sends characters in order.
  \<^item> A pipe makes progress under every scheduler that runs only RUNNABLE processes (\<open>Xv6_Pipelive\<close>): no wakeup is lost and
    every schedule ends with all bytes delivered.
  \<^item> The shell's parser ends on every line, cuts its words without destroying others, and computes the meaning of every line of
    an explicit grammar; grep's matcher agrees with a declarative meaning of its patterns, and grep and wc are functions
    of their whole input, whatever pieces \<^verbatim>\<open>read\<close> delivers.

  Interfaces are locales: \<open>bounded_fifo\<close> (interpreted by the MLFQ queues), \<open>page_allocator\<close> (by
  \<open>kalloc\<close> and \<open>kfree\<close>), \<open>word_ring\<close> (by the pipe, the console and the UART).

  \<^bold>\<open>Bounds and fuel.\<close> A loop whose number of rounds the code bounds has that bound as fuel: the pages of a range
  in \<open>mappages\<close>, \<open>uvmunmap\<close>, \<open>uvmalloc\<close> and \<open>uvmcopy\<close>, NBUF + 1 steps along the buffer list, three levels
  in \<open>freewalk\<close>, the entries of a queue in \<open>mlfq_drain\<close>, four calls for each byte of the line and four more in the shell's parser. A loop
  over \<^verbatim>\<open>read\<close> in a user program has the number of its calls as an argument, and more calls than bytes are enough. The theorems state that the operations return, so
  the fuel is enough in every state they cover. Virtual addresses are below MAXVA = 2^38.

  \<^bold>\<open>Where the model is coarser than the code.\<close>
  \<^item> Spin locks inside the components are atomic sections; the lock itself is proved in \<open>Xv6_Spinlock\<close>. The selection
    functions of the schedulers, which the source runs without a lock, are single steps as well.
  \<^item> A disk transfer is complete when \<open>bread\<close> or \<open>bwrite\<close> returns and is keyed by the block number. The \<^verbatim>\<open>struct pipe\<close> in a page
    is kept in a map of its own. The indices of the MLFQ queues are integers. A level of a process outside
    0 to 4 does not panic in the counters \<^verbatim>\<open>q[]\<close> of a process; the invariants exclude it.
  \<^item> User programs are sequential functions over the stubs; a \<^verbatim>\<open>fork\<close> is seen from the process that goes on. \<^verbatim>\<open>malloc\<close> succeeds.

  \<^bold>\<open>Not modelled.\<close>
  \<^item> Assembly (entry.S, swtch.S, trampoline.S, kernelvec.S, initcode.S, usys) has no model of its own; the
    trap handlers take the saved registers as arguments, and a context switch is the point between two steps.
  \<^item> start.c, plic.c, \<open>kvminithart\<close>, \<open>trapinithart\<close> and the negotiation of \<open>virtio_disk_init\<close> only read and
    write machine and device registers. ramdisk.c is not part of the build.
  \<^item> mkfs.c runs on the host. user/usertests.c, grind.c, forktest.c, stressfs.c and schedulertest.c are test programs; init.c,
    kill.c, ln.c, ls.c, mkdir.c, rm.c, setpriority.c, strace.c, time.c, zombie.c are thin wrappers around system calls, and umalloc.c serves only
    them and the tests. defs.h and user.h hold declarations.
\<close>

end
